(* ===== verification/Prelude.thy ===== *)
theory Prelude
  imports Complex_Main "HOL-Library.Multiset" "HOL-Library.Char_ord"
    "HOL-Library.List_Lexorder" "HOL-Library.Word" "HOL-Library.Sublist" "HOL-Library.Code_Target_Nat"
begin

text \<open>
  Shared vocabulary of the development: the model's names for Go's base types, the
  big-endian integer encodings of \<^verbatim>\<open>encoding/binary\<close>, Go's three-way comparison
  and comparator-driven sort, the result type of a fallible call, the codec interface
  that stands for the CBOR library, and majorities. A byte is a \<^typ>\<open>char\<close> (HOL's
  eight-bit character), so Go's \<^verbatim>\<open>[]byte\<close> and \<^verbatim>\<open>string\<close> are both lists of
  characters and \<^verbatim>\<open>bytes.Compare\<close> is the lexicographic order on them.
\<close>

section \<open>Base types\<close>

type_synonym bytes = "char list"
type_synonym u64 = "64 word"
type_synonym u32 = "32 word"
type_synonym u8 = "8 word"
type_synonym node_id = bytes
type_synonym obj_key = bytes

named_theorems go_defs \<open>definitions a component proof unfolds\<close>
named_theorems go_frame \<open>what an operation leaves unchanged\<close>

text \<open>Results of fallible calls: the left side is the error.\<close>

type_synonym ('e, 'a) res = "'e + 'a"

text \<open>\<^verbatim>\<open>copy(id[:], b)\<close> into a zeroed 32-byte array.\<close>

definition to32 :: "bytes \<Rightarrow> bytes" where
  "to32 b = take 32 (b @ replicate 32 (CHR 0x00))"

lemma length_to32 [simp]: "length (to32 b) = 32"
  by (simp add: to32_def)

lemma to32_id [simp]: "length b = 32 \<Longrightarrow> to32 b = b"
  by (simp add: to32_def)

definition zero_id :: node_id where
  "zero_id = replicate 32 (CHR 0x00)"

lemma length_zero_id [simp]: "length zero_id = 32"
  by (simp add: zero_id_def)

section \<open>Big-endian integers\<close>

fun be_bytes :: "nat \<Rightarrow> nat \<Rightarrow> bytes" where
  "be_bytes 0 n = []"
| "be_bytes (Suc k) n = be_bytes k (n div 256) @ [char_of (n mod 256)]"

definition be_nat :: "bytes \<Rightarrow> nat" where
  "be_nat bs = foldl (\<lambda>a c. a * 256 + of_char c) 0 bs"

lemma of_char_less_256 [simp]: "(of_char c :: nat) < 256"
  by (simp add: of_char_def)

lemma length_be_bytes [simp]: "length (be_bytes k n) = k"
  by (induction k arbitrary: n) auto

lemma be_nat_Nil [simp]: "be_nat [] = 0"
  by (simp add: be_nat_def)

lemma be_nat_snoc [simp]: "be_nat (bs @ [c]) = be_nat bs * 256 + of_char c"
  by (simp add: be_nat_def)

lemma be_nat_less: "be_nat bs < 256 ^ length bs"
proof (induction bs rule: rev_induct)
  case Nil
  then show ?case by simp
next
  case (snoc c bs)
  have "be_nat bs * 256 + of_char c < (be_nat bs + 1) * 256"
    by simp
  also have "\<dots> \<le> 256 ^ length bs * 256"
    using snoc.IH by (intro mult_right_mono) auto
  finally show ?case by simp
qed

lemma be_nat_be_bytes: "be_nat (be_bytes k n) = n mod 256 ^ k"
proof (induction k arbitrary: n)
  case 0
  then show ?case by simp
next
  case (Suc k)
  have "n mod 256 ^ Suc k = 256 * (n div 256 mod 256 ^ k) + n mod 256"
    by (simp add: mod_mult2_eq)
  then show ?case by (simp add: Suc.IH)
qed

lemma be_nat_be_bytes_id [simp]: "n < 256 ^ k \<Longrightarrow> be_nat (be_bytes k n) = n"
  by (simp add: be_nat_be_bytes)

lemma be_bytes_be_nat [simp]: "length bs = k \<Longrightarrow> be_bytes k (be_nat bs) = bs"
proof (induction bs arbitrary: k rule: rev_induct)
  case Nil
  then show ?case by simp
next
  case (snoc c bs)
  then have "k = Suc (length bs)" by simp
  with snoc.IH [of "length bs"] show ?case by simp
qed

lemma be_nat_inj: "length a = length b \<Longrightarrow> be_nat a = be_nat b \<Longrightarrow> a = b"
  by (metis be_bytes_be_nat)

lemma be_nat_Cons: "be_nat (c # bs) = of_char c * 256 ^ length bs + be_nat bs"
  by (induction bs rule: rev_induct) (simp_all add: be_nat_def algebra_simps)

text \<open>On equal lengths the byte order is the numeric order.\<close>

lemma be_nat_less_iff: "length a = length b \<Longrightarrow> (a < b) = (be_nat a < be_nat b)"
proof (induction a b rule: list_induct2)
  case Nil
  then show ?case by simp
next
  case (Cons x xs y ys)
  let ?p = "(256::nat) ^ length ys"
  have bx: "be_nat xs < ?p" and by': "be_nat ys < ?p"
    using be_nat_less [of xs] be_nat_less [of ys] Cons.hyps by simp_all
  have *: "of_char a * ?p + be_nat us < of_char c * ?p + be_nat ws"
    if "of_char a < (of_char c :: nat)" "be_nat us < ?p" for a c :: char and us ws
  proof -
    have "of_char a * ?p + be_nat us < (of_char a + 1) * ?p"
      using that(2) by simp
    also have "\<dots> \<le> of_char c * ?p"
      using that(1) by (intro mult_right_mono) auto
    finally show ?thesis by simp
  qed
  show ?case
  proof (cases "x = y")
    case True
    with Cons show ?thesis by (simp add: be_nat_Cons)
  next
    case False
    then consider "of_char x < (of_char y :: nat)" | "of_char y < (of_char x :: nat)"
      by (metis linorder_neqE_nat of_char_eq_iff)
    then show ?thesis
    proof cases
      case 1
      with bx * [of x y xs ys] Cons.hyps show ?thesis
        by (simp add: be_nat_Cons less_char_def)
    next
      case 2
      with by' * [of y x ys xs] Cons.hyps False show ?thesis
        by (auto simp: be_nat_Cons less_char_def)
    qed
  qed
qed

text \<open>\<^verbatim>\<open>binary.BigEndian.PutUint64\<close> and \<^verbatim>\<open>Uint64\<close>.\<close>

definition put_u64 :: "u64 \<Rightarrow> bytes" where
  "put_u64 w = be_bytes 8 (unat w)"

definition get_u64 :: "bytes \<Rightarrow> u64" where
  "get_u64 bs = word_of_nat (be_nat bs)"

lemma length_put_u64 [simp]: "length (put_u64 w) = 8"
  by (simp add: put_u64_def)

lemma unat_less_256_8: "unat (w :: u64) < 256 ^ 8"
proof -
  have "unat w < 2 ^ LENGTH(64)" by (rule unsigned_less)
  then show ?thesis by simp
qed

lemma be_nat_unat [simp]: "be_nat (be_bytes 8 (unat (w :: u64))) = unat w"
  by (rule be_nat_be_bytes_id [OF unat_less_256_8])

lemma get_put_u64 [simp]: "get_u64 (put_u64 w) = w"
  by (simp add: get_u64_def put_u64_def del: be_bytes.simps)

lemma put_get_u64 [simp]: "length bs = 8 \<Longrightarrow> put_u64 (get_u64 bs) = bs"
proof -
  assume l: "length bs = 8"
  have "be_nat bs < 2 ^ 64" using be_nat_less [of bs] l by simp
  then have "unat (word_of_nat (be_nat bs) :: u64) = be_nat bs"
    by (simp add: unat_of_nat)
  with l show ?thesis by (simp add: put_u64_def get_u64_def del: be_bytes.simps)
qed

lemma put_u64_less_iff: "(put_u64 v < put_u64 w) = (v < w)"
  by (simp add: put_u64_def be_nat_less_iff word_less_nat_alt del: be_bytes.simps)

lemma put_u64_inj [simp]: "(put_u64 v = put_u64 w) = (v = w)"
  by (metis get_put_u64)

section \<open>Words\<close>

unbundle bit_operations_syntax

lemma unat_of_nat_mod: "unat (of_nat n :: u64) = n mod 2 ^ 64"
  by (simp add: unsigned_of_nat take_bit_eq_mod)

lemma unat_less_2p64 [simp]: "unat (w :: u64) < 18446744073709551616"
  using unsigned_less [of w, where 'a = nat] by simp

lemma unat_drop_bit: "unat (drop_bit n (w :: u64)) = unat w div 2 ^ n"
proof -
  have "unat (drop_bit n w) = drop_bit n (unat w)"
    by (rule bit_eqI) (auto simp: bit_simps dest: bit_imp_le_length)
  then show ?thesis by (simp only: drop_bit_eq_div)
qed

lemma unat_push_bit: "unat (push_bit n (w :: u64)) = unat w * 2 ^ n" if "unat w * 2 ^ n < 2 ^ 64"
proof -
  have "unat (push_bit n w) = take_bit 64 (push_bit n (unat w))"
    by (simp only: unsigned_push_bit_eq) simp
  also have "\<dots> = take_bit 64 (unat w * 2 ^ n)" by (simp only: push_bit_eq_mult)
  also have "\<dots> = unat w * 2 ^ n" using that by (simp only: take_bit_nat_eq_self_iff)
  finally show ?thesis .
qed

lemma push_or_nat: "b < 2 ^ n \<Longrightarrow> push_bit n a OR b = a * 2 ^ n + (b :: nat)"
proof -
  assume b: "b < 2 ^ n"
  have "\<not> bit b k" if "n \<le> k" for k
  proof -
    have "b < 2 ^ k" using b that by (meson less_le_trans one_le_numeral power_increasing)
    then show ?thesis by (simp add: bit_iff_odd)
  qed
  then have "push_bit n a AND b = 0"
    by (intro bit_eqI) (auto simp: bit_simps)
  then show ?thesis
    using disjunctive_add_eq_or [of "push_bit n a" b] by (simp add: push_bit_eq_mult)
qed

section \<open>Comparison and sorting\<close>

text \<open>Go's three-way comparison (\<^verbatim>\<open>bytes.Compare\<close> and its kin).\<close>

definition compare3 :: "'a::linorder \<Rightarrow> 'a \<Rightarrow> int" where
  "compare3 a b = (if a < b then - 1 else if a = b then 0 else 1)"

lemma compare3_simps [simp]:
  "(compare3 a b = 0) = (a = b)"
  "(compare3 a b < 0) = (a < b)"
  "(compare3 a b > 0) = (b < a)"
  "(compare3 a b \<le> 0) = (a \<le> b)"
  "(compare3 a b \<ge> 0) = (b \<le> a)"
  by (auto simp: compare3_def)

text \<open>
  \<^verbatim>\<open>sort.SliceStable(xs, less)\<close>: elements neither of which is less keep their order.
  \<^verbatim>\<open>sort.Slice\<close> promises no order among such elements; where the model uses
  \<open>sort_by\<close> for it, the comparator is total on the elements and the result is the only
  sorted arrangement (\<open>sort_by_unique\<close>).
\<close>

fun insert_by :: "('a \<Rightarrow> 'a \<Rightarrow> bool) \<Rightarrow> 'a \<Rightarrow> 'a list \<Rightarrow> 'a list" where
  "insert_by lt x [] = [x]"
| "insert_by lt x (y # ys) = (if lt y x then y # insert_by lt x ys else x # y # ys)"

fun sort_by :: "('a \<Rightarrow> 'a \<Rightarrow> bool) \<Rightarrow> 'a list \<Rightarrow> 'a list" where
  "sort_by lt [] = []"
| "sort_by lt (x # xs) = insert_by lt x (sort_by lt xs)"

lemma mset_insert_by [simp]: "mset (insert_by lt x ys) = add_mset x (mset ys)"
  by (induction ys) auto

lemma mset_sort_by [simp]: "mset (sort_by lt xs) = mset xs"
  by (induction xs) auto

lemma set_insert_by [simp]: "set (insert_by lt x ys) = insert x (set ys)"
  by (induction ys) auto

lemma set_sort_by [simp]: "set (sort_by lt xs) = set xs"
  by (induction xs) auto

lemma length_sort_by [simp]: "length (sort_by lt xs) = length xs"
  by (metis mset_sort_by size_mset)

lemma distinct_sort_by [simp]: "distinct (sort_by lt xs) = distinct xs"
  by (metis mset_sort_by mset_eq_imp_distinct_iff)

text \<open>
  The comparator contract of Go's \<^verbatim>\<open>sort\<close> package: a strict weak order on the
  elements that are sorted.
\<close>

locale strict_weak_order =
  fixes lt :: "'a \<Rightarrow> 'a \<Rightarrow> bool" and D :: "'a set"
  assumes asym: "x \<in> D \<Longrightarrow> y \<in> D \<Longrightarrow> lt x y \<Longrightarrow> \<not> lt y x"
    and neg_trans: "x \<in> D \<Longrightarrow> y \<in> D \<Longrightarrow> z \<in> D \<Longrightarrow> lt x z \<Longrightarrow> lt x y \<or> lt y z"
begin

lemma irrefl: "x \<in> D \<Longrightarrow> \<not> lt x x"
  using asym by blast

lemma sorted_insert_by:
  assumes "x \<in> D" "set ys \<subseteq> D" "sorted_wrt (\<lambda>a b. \<not> lt b a) ys"
  shows "sorted_wrt (\<lambda>a b. \<not> lt b a) (insert_by lt x ys)"
  using assms
proof (induction ys)
  case Nil
  then show ?case by simp
next
  case (Cons y ys)
  show ?case
  proof (cases "lt y x")
    case True
    with Cons show ?thesis using asym [of y x] by auto
  next
    case False
    then have "\<not> lt z x" if "z \<in> set ys" for z
      using that Cons.prems neg_trans [of z x y] neg_trans [of z y x] by auto
    with False Cons.prems show ?thesis by auto
  qed
qed

lemma sorted_sort_by: "set xs \<subseteq> D \<Longrightarrow> sorted_wrt (\<lambda>a b. \<not> lt b a) (sort_by lt xs)"
  by (induction xs) (auto intro!: sorted_insert_by)

text \<open>Dropping elements before or after sorting is the same.\<close>

lemma filter_insert_by:
  assumes "x \<in> D" "set ys \<subseteq> D" "sorted_wrt (\<lambda>a b. \<not> lt b a) ys"
  shows "filter P (insert_by lt x ys) =
    (if P x then insert_by lt x (filter P ys) else filter P ys)"
  using assms
proof (induction ys)
  case Nil
  then show ?case by simp
next
  case (Cons y ys)
  show ?case
  proof (cases "lt y x")
    case True
    with Cons show ?thesis by auto
  next
    case False
    have "insert_by lt x zs = x # zs" if "\<forall>z \<in> set zs. \<not> lt z x" for zs
      using that by (cases zs) auto
    moreover have "\<not> lt z x" if "z \<in> set ys" for z
      using that False Cons.prems neg_trans [of z y x] by auto
    ultimately show ?thesis using False Cons by auto
  qed
qed

lemma sort_by_filter:
  "set xs \<subseteq> D \<Longrightarrow> sort_by lt (filter P xs) = filter P (sort_by lt xs)"
  by (induction xs) (auto simp: filter_insert_by sorted_sort_by)

end

text \<open>
  A comparator that tells any two elements with different keys apart; sorting a list whose
  keys are distinct then has one possible result.
\<close>

locale strict_key_order = strict_weak_order lt D
  for lt :: "'a \<Rightarrow> 'a \<Rightarrow> bool" and D :: "'a set" +
  fixes key :: "'a \<Rightarrow> 'k"
  assumes total: "x \<in> D \<Longrightarrow> y \<in> D \<Longrightarrow> key x \<noteq> key y \<Longrightarrow> lt x y \<or> lt y x"
begin

lemma sorted_unique:
  assumes "set xs \<subseteq> D" "inj_on key (set xs)" "mset xs = mset ys"
    "sorted_wrt (\<lambda>a b. \<not> lt b a) xs" "sorted_wrt (\<lambda>a b. \<not> lt b a) ys"
  shows "xs = ys"
  using assms
proof (induction xs arbitrary: ys)
  case Nil
  then show ?case by simp
next
  case (Cons x xs)
  then obtain y zs where ys: "ys = y # zs" by (cases ys) auto
  have set_eq: "set (x # xs) = set (y # zs)" using Cons.prems(3) ys by (metis set_mset_mset)
  have "x = y"
  proof (rule ccontr)
    assume ne: "x \<noteq> y"
    with set_eq have mem: "x \<in> set zs" "y \<in> set xs" by auto
    with Cons.prems(4,5) ys have "\<not> lt x y" "\<not> lt y x" by auto
    moreover have "key x \<noteq> key y" using Cons.prems(2) ne mem(2) by (auto simp: inj_on_def)
    ultimately show False using total [of x y] mem(2) Cons.prems(1) by auto
  qed
  with Cons ys show ?case by auto
qed

lemma sort_by_eqI:
  "set xs \<subseteq> D \<Longrightarrow> inj_on key (set xs) \<Longrightarrow> mset xs = mset ys \<Longrightarrow>
    sorted_wrt (\<lambda>a b. \<not> lt b a) ys \<Longrightarrow> sort_by lt xs = ys"
  by (rule sorted_unique) (auto intro!: sorted_sort_by)

lemma sort_by_unique:
  "set xs \<subseteq> D \<Longrightarrow> inj_on key (set xs) \<Longrightarrow> mset xs = mset ys \<Longrightarrow> sort_by lt xs = sort_by lt ys"
  by (rule sort_by_eqI) (auto intro!: sorted_sort_by dest: mset_eq_setD)

end

text \<open>Byte strings under \<^verbatim>\<open>bytes.Compare(a, b) < 0\<close> satisfy the contract.\<close>

interpretation bytes_order: strict_key_order "(<) :: bytes \<Rightarrow> bytes \<Rightarrow> bool" UNIV "\<lambda>b. b"
  by unfold_locales auto

section \<open>First occurrences\<close>

text \<open>
  \<open>nub_by f xs\<close> keeps the first element of each class of \<open>f\<close>: the reference for
  loops that walk a list and skip what an earlier pick has taken.
\<close>

fun nub_by :: "('a \<Rightarrow> 'b) \<Rightarrow> 'a list \<Rightarrow> 'a list" where
  "nub_by f [] = []"
| "nub_by f (x # xs) = x # filter (\<lambda>y. f y \<noteq> f x) (nub_by f xs)"

lemma set_nub_by_subset: "set (nub_by f xs) \<subseteq> set xs"
  by (induction xs) auto

lemma image_nub_by [simp]: "f ` set (nub_by f xs) = f ` set xs"
  by (induction xs) (auto 0 3 simp: image_iff)

lemma distinct_map_nub_by: "distinct (map f (nub_by f xs))"
proof (induction xs)
  case (Cons x xs)
  then show ?case by (auto simp: distinct_map inj_on_def)
qed simp

lemma distinct_nub_by: "distinct (nub_by f xs)"
  using distinct_map_nub_by [of f xs] by (simp add: distinct_map)

lemma nub_by_distinct [simp]: "distinct (map f xs) \<Longrightarrow> nub_by f xs = xs"
  by (induction xs) (auto simp: filter_id_conv image_iff)

text \<open>
  What the first \<open>r\<close> picks are: an element whose class has not occurred before it, with
  fewer than \<open>r\<close> classes before it.
\<close>

lemma in_take_nub_by_aux:
  "y \<in> set (take r (filter (\<lambda>z. f z \<notin> S) (nub_by f xs))) \<longleftrightarrow>
    (\<exists>us vs. xs = us @ y # vs \<and> f y \<notin> f ` set us \<and> f y \<notin> S \<and> card (f ` set us - S) < r)"
proof (induction xs arbitrary: S r)
  case Nil
  then show ?case by simp
next
  case (Cons x xs)
  have split: "(\<exists>us vs. x # xs = us @ y # vs \<and> P us) \<longleftrightarrow>
      (x = y \<and> P []) \<or> (\<exists>us vs. xs = us @ y # vs \<and> P (x # us))" for P
    by (auto simp: Cons_eq_append_conv)
  show ?case
  proof (cases "f x \<in> S")
    case True
    then have "filter (\<lambda>z. f z \<notin> S) (nub_by f (x # xs)) = filter (\<lambda>z. f z \<notin> S) (nub_by f xs)"
      by (auto intro: filter_cong)
    with True show ?thesis by (simp only: split Cons.IH) (auto simp: insert_Diff_if)
  next
    case False
    have filt: "filter (\<lambda>z. f z \<notin> S) (nub_by f (x # xs)) =
        x # filter (\<lambda>z. f z \<notin> insert (f x) S) (nub_by f xs)"
      using False by (auto intro: filter_cong)
    have card: "card (f ` set (x # us) - S) = Suc (card (f ` set us - insert (f x) S))" for us
    proof -
      have "f ` set (x # us) - S = insert (f x) (f ` set us - insert (f x) S)"
        using False by auto
      then show ?thesis by simp
    qed
    show ?thesis
    proof (cases r)
      case (Suc k)
      have "y \<in> set (take r (filter (\<lambda>z. f z \<notin> S) (nub_by f (x # xs)))) \<longleftrightarrow>
          y = x \<or> y \<in> set (take k (filter (\<lambda>z. f z \<notin> insert (f x) S) (nub_by f xs)))"
        by (simp only: filt Suc take_Suc_Cons list.set insert_iff)
      also have "\<dots> \<longleftrightarrow> y = x \<or> (\<exists>us vs. xs = us @ y # vs \<and> f y \<notin> f ` set us \<and>
          f y \<notin> insert (f x) S \<and> card (f ` set us - insert (f x) S) < k)"
        by (simp only: Cons.IH)
      finally show ?thesis
        unfolding split card using False Suc by auto
    qed simp
  qed
qed

lemma in_take_nub_by:
  "y \<in> set (take r (nub_by f xs)) \<longleftrightarrow>
    (\<exists>us vs. xs = us @ y # vs \<and> f y \<notin> f ` set us \<and> card (f ` set us) < r)"
  using in_take_nub_by_aux [of y r f "{}" xs] by simp

text \<open>Leaving an element out of the list never takes a pick away from the others.\<close>

lemma take_nub_by_mono:
  assumes "y \<in> set (take r (nub_by f xs))" "P y"
  shows "y \<in> set (take r (nub_by f (filter P xs)))"
proof -
  from assms(1) obtain us vs where "xs = us @ y # vs" "f y \<notin> f ` set us" "card (f ` set us) < r"
    unfolding in_take_nub_by by blast
  moreover have "card (f ` set (filter P us)) \<le> card (f ` set us)"
    by (rule card_mono) auto
  ultimately show ?thesis
    unfolding in_take_nub_by using assms(2)
    by (intro exI [of _ "filter P us"] exI [of _ "filter P vs"]) auto
qed

section \<open>Codecs\<close>

text \<open>
  The CBOR library behind \<^verbatim>\<open>codec.Marshal\<close> and \<^verbatim>\<open>codec.Unmarshal\<close> is not part
  of the repository: a definition that encodes or decodes takes the two functions as an
  argument, and the round trip that deterministic CBOR documents is the hypothesis
  \<open>codec_ok\<close>.
\<close>

record 'a codec =
  Marshal :: "'a \<Rightarrow> bytes"
  Unmarshal :: "bytes \<Rightarrow> 'a option"

definition codec_ok :: "'a codec \<Rightarrow> bool" where
  "codec_ok c \<longleftrightarrow> (\<forall>x. Unmarshal c (Marshal c x) = Some x)"

lemma codec_okD [simp]: "codec_ok c \<Longrightarrow> Unmarshal c (Marshal c x) = Some x"
  by (simp add: codec_ok_def)

section \<open>Majorities\<close>

lemma majorities_meet:
  assumes "finite V" "A \<subseteq> V" "B \<subseteq> V" "card V < card A + card B"
  shows "A \<inter> B \<noteq> {}"
proof
  assume "A \<inter> B = {}"
  with assms have "card (A \<union> B) = card A + card B"
    by (intro card_Un_disjoint) (auto intro: finite_subset)
  moreover have "card (A \<union> B) \<le> card V"
    using assms by (intro card_mono) auto
  ultimately show False using assms(4) by simp
qed

end
