(* ===== verification/Placement_Log.thy ===== *)
theory Placement_Log
  imports Placement
begin

text \<open>
  The arithmetic of \<^verbatim>\<open>placement/placement.go\<close>: the loop of \<^verbatim>\<open>Log2Fix\<close> on 64-bit
  words is carried over to natural numbers (\<open>log2_nat\<close>), where each turn doubles the real
  number \<open>F + log 2 M - 63\<close> up to a truncation error of at most \<open>2^-62\<close>. From this
  follow the error bound of the result and of the score \<^verbatim>\<open>L\<close>, that both are monotone, and
  an argument where the result is one less than the floor of the exact logarithm.
\<close>

section \<open>Definitions\<close>

text \<open>One turn on natural numbers: \<open>F\<close> holds the bits found, \<open>M\<close> the mantissa.\<close>

definition log2_nat_turn :: "nat \<times> nat \<Rightarrow> nat \<times> nat" where
  "log2_nat_turn FM = (let (F, M) = FM in
     if 2 ^ 127 \<le> M * M then (2 * F + 1, M * M div 2 ^ 64) else (2 * F, M * M div 2 ^ 63))"

definition log2_nat :: "nat \<Rightarrow> nat" where
  "log2_nat x = (let i = bit_len x - 1 in i * 2 ^ 32 + fst ((log2_nat_turn ^^ 32) (0, x * 2 ^ (63 - i))))"

text \<open>Lower and upper bounds of one turn, on the real value \<open>F + log 2 (M / 2^63)\<close>.\<close>

definition log2_value :: "nat \<times> nat \<Rightarrow> real" where
  "log2_value FM = real (fst FM) + log 2 (real (snd FM)) - 63"

definition lex_le :: "nat \<times> nat \<Rightarrow> nat \<times> nat \<Rightarrow> bool" where
  "lex_le a b \<longleftrightarrow> fst a < fst b \<or> fst a = fst b \<and> snd a \<le> snd b"

text \<open>Lower bounds of repeated squares with a hundred fractional bits.\<close>

fun low_squares :: "nat \<Rightarrow> nat \<Rightarrow> nat" where
  "low_squares 0 a = a"
| "low_squares (Suc k) a = low_squares k (a * a div 2 ^ 100)"

text \<open>The inverse of the finalizer, and the hash a score is taken of.\<close>

definition Fmix64_inv :: "u64 \<Rightarrow> u64" where
  "Fmix64_inv y =
    (let y = y XOR drop_bit 33 y;
         y = y * 0x9cb4b2f8129337db;
         y = y XOR drop_bit 33 y;
         y = y * 0x4f74430c22a54005
     in y XOR drop_bit 33 y)"

definition L_hash :: "u32 \<Rightarrow> u64 \<Rightarrow> u64" where
  "L_hash slot salt = Fmix64 (ucast slot XOR salt)"

section \<open>From words to numbers\<close>

lemma Mul64_parts:
  "unat (fst (Mul64 x y)) = unat x * unat y div 2 ^ 64"
  "unat (snd (Mul64 x y)) = unat x * unat y mod 2 ^ 64"
proof -
  have "unat x * unat y < 2 ^ 64 * 2 ^ 64"
    by (rule mult_strict_mono) auto
  then have "unat x * unat y div 2 ^ 64 < 2 ^ 64"
    by (simp add: less_mult_imp_div_less)
  then show "unat (fst (Mul64 x y)) = unat x * unat y div 2 ^ 64"
    by (simp add: Mul64_def unat_of_nat_mod)
  show "unat (snd (Mul64 x y)) = unat x * unat y mod 2 ^ 64"
    unfolding Mul64_def by (simp only: snd_conv unat_of_nat_mod)
qed

lemma top_bit: "(w AND push_bit 63 1 \<noteq> 0) = (2 ^ 63 \<le> unat (w :: u64))"
proof -
  have "(w AND push_bit 63 1 \<noteq> 0) = bit w 63"
    using and_exp_eq_0_iff_not_bit [of w 63] by (simp add: push_bit_eq_mult)
  also have "\<dots> = bit (unat w) 63" by (simp add: bit_unsigned_iff)
  also have "\<dots> = odd (unat w div 2 ^ 63)" by (rule bit_iff_odd)
  also have "\<dots> = (2 ^ 63 \<le> unat w)"
  proof -
    have "unat w div 2 ^ 63 < 2" using unat_less_2p64 [of w] by (simp add: less_mult_imp_div_less)
    then have "unat w div 2 ^ 63 = 0 \<or> unat w div 2 ^ 63 = 1" by linarith
    then have "odd (unat w div 2 ^ 63) = (1 \<le> unat w div 2 ^ 63)" by fastforce
    then show ?thesis by (simp add: less_eq_div_iff_mult_less_eq)
  qed
  finally show ?thesis .
qed

lemma square_bounds:
  assumes "2 ^ 63 \<le> M" "M < 2 ^ 64"
  shows "2 ^ 126 \<le> M * M" "M * M < (2 ^ 128 :: nat)"
proof -
  have "(2 ^ 63) * (2 ^ 63) \<le> M * M" using assms(1) by (rule mult_le_mono) fact
  then show "2 ^ 126 \<le> M * M" by simp
  have "M * M < 2 ^ 64 * 2 ^ 64" using assms(2) by (rule mult_strict_mono) (use assms in auto)
  then show "M * M < (2 ^ 128 :: nat)" by simp
qed

lemma log2_turn_eq:
  "log2_turn j (m, f) =
    (let hi = fst (Mul64 m m); lo = snd (Mul64 m m) in
     if 2 ^ 63 \<le> unat hi then (hi, f OR push_bit (32 - j) 1)
     else (push_bit 1 hi OR drop_bit 63 lo, f))"
  by (simp only: log2_turn_def top_bit split_beta Let_def prod.case fst_conv snd_conv)

lemma log2_turn_nat:
  assumes f: "unat f = F * 2 ^ (33 - j)" and j: "1 \<le> j" "j \<le> 32"
    and FM: "log2_nat_turn (F, unat m) = (F', M')"
    and mf: "log2_turn j (m, f) = (m', f')"
  shows "unat m' = M'" "unat f' = F' * 2 ^ (32 - j)"
proof -
  let ?hi = "fst (Mul64 m m)" and ?lo = "snd (Mul64 m m)"
  define S where "S = unat m * unat m"
  have hi: "unat ?hi = S div 2 ^ 64" and lo: "unat ?lo = S mod 2 ^ 64"
    by (simp_all only: Mul64_parts S_def)
  have top: "2 ^ 63 \<le> unat ?hi \<longleftrightarrow> 2 ^ 127 \<le> S"
    unfolding hi by (simp add: less_eq_div_iff_mult_less_eq)
  have j33: "33 - j = Suc (32 - j)" using j by simp
  have "unat m' = M' \<and> unat f' = F' * 2 ^ (32 - j)"
  proof (cases "2 ^ 127 \<le> S")
    case True
    have "(2 :: nat) ^ (32 - j) < 2 ^ 64" by (rule power_strict_increasing) auto
    then have "unat (push_bit (32 - j) 1 :: u64) = 2 ^ (32 - j)"
      by (simp only: unat_push_bit unsigned_1 mult_1_left)
    with f have "unat (f OR push_bit (32 - j) 1) = push_bit (33 - j) F OR 2 ^ (32 - j)"
      by (simp add: unsigned_or_eq push_bit_eq_mult)
    also have "\<dots> = F * 2 ^ (33 - j) + 2 ^ (32 - j)"
      by (rule push_or_nat) (simp add: j33)
    finally have "unat (f OR push_bit (32 - j) 1) = (2 * F + 1) * 2 ^ (32 - j)"
      by (simp add: j33 algebra_simps)
    with True FM mf top hi show ?thesis
      by (auto simp: log2_nat_turn_def log2_turn_eq Let_def S_def)
  next
    case False
    then have "unat ?hi * 2 ^ 1 < 2 ^ 64" using top by simp
    then have "unat (push_bit 1 ?hi OR drop_bit 63 ?lo) =
        push_bit 1 (unat ?hi) OR (unat ?lo div 2 ^ 63)"
      by (simp only: unsigned_or_eq unat_push_bit unat_drop_bit push_bit_eq_mult [of 1 "unat ?hi"])
    also have "\<dots> = unat ?hi * 2 ^ 1 + unat ?lo div 2 ^ 63"
      by (rule push_or_nat) (use unat_less_2p64 [of ?lo] in \<open>simp add: less_mult_imp_div_less\<close>)
    also have "\<dots> = S div 2 ^ 63"
      unfolding hi lo using div_mult2_eq [of S "2 ^ 63" 2] mod_mult2_eq [of S "2 ^ 63" 2]
        mult_div_mod_eq [of 2 "S div 2 ^ 63"] by simp
    finally show ?thesis using False FM mf top hi f 
      by (auto simp: log2_nat_turn_def log2_turn_eq Let_def S_def j33)
  qed
  then show "unat m' = M'" "unat f' = F' * 2 ^ (32 - j)" by auto
qed

lemma log2_loop_nat:
  assumes "k \<le> 32" "(log2_nat_turn ^^ k) (0, unat m) = (F, M)"
    "fold log2_turn [1..<Suc k] (m, 0) = (m', f')"
  shows "unat m' = M \<and> unat f' = F * 2 ^ (32 - k) \<and> F < 2 ^ k"
  using assms
proof (induction k arbitrary: F M m' f')
  case 0
  then show ?case by simp
next
  case (Suc k)
  obtain F1 M1 where n1: "(log2_nat_turn ^^ k) (0, unat m) = (F1, M1)" by fastforce
  obtain m1 f1 where w1: "fold log2_turn [1..<Suc k] (m, 0) = (m1, f1)" by fastforce
  have ih: "unat m1 = M1" "unat f1 = F1 * 2 ^ (32 - k)" "F1 < 2 ^ k"
    using Suc.IH [OF _ n1 w1] Suc.prems(1) by auto
  have "log2_turn (Suc k) (m1, f1) = (m', f')"
    using Suc.prems(3) w1 by (simp add: upt_Suc_append)
  moreover have FM: "log2_nat_turn (F1, unat m1) = (F, M)"
    using Suc.prems(2) n1 ih(1) by simp
  ultimately have "unat m' = M" "unat f' = F * 2 ^ (32 - Suc k)"
    using log2_turn_nat [of f1 F1 "Suc k" m1 F M m' f'] ih Suc.prems(1) by auto
  moreover have "F < 2 ^ Suc k"
    using FM ih(3) by (auto simp: log2_nat_turn_def split: if_splits)
  ultimately show ?case by simp
qed

lemma bit_len_bounds: "0 < n \<Longrightarrow> 0 < bit_len n \<and> 2 ^ (bit_len n - 1) \<le> n \<and> n < 2 ^ bit_len n"
proof (induction n rule: bit_len.induct)
  case (1 n)
  show ?case
  proof (cases "n div 2 = 0")
    case True
    with 1 have "n = 1" by linarith
    then show ?thesis by (simp add: bit_len.simps [of "Suc 0"] bit_len.simps [of 0])
  next
    case False
    with 1 have "0 < bit_len (n div 2)" "2 ^ (bit_len (n div 2) - 1) \<le> n div 2" "n div 2 < 2 ^ bit_len (n div 2)"
      by auto
    moreover obtain b where "bit_len (n div 2) = Suc b" using calculation(1) gr0_conv_Suc by blast
    ultimately show ?thesis using 1 False by (auto simp: bit_len.simps [of n])
  qed
qed

lemma normalised:
  assumes "0 < x" "x < 2 ^ 64"
  shows "bit_len x - 1 \<le> 63" "2 ^ 63 \<le> x * 2 ^ (63 - (bit_len x - 1))"
    "x * 2 ^ (63 - (bit_len x - 1)) < 2 ^ 64"
proof -
  let ?i = "bit_len x - 1"
  have lo: "2 ^ ?i \<le> x" and hi: "x < 2 ^ Suc ?i"
    using bit_len_bounds [OF assms(1)] by auto
  from lo assms(2) have "(2 :: nat) ^ ?i < 2 ^ 64" by linarith
  then have "?i < 64" by (rule power_less_imp_less_exp [rotated]) simp
  then show i: "?i \<le> 63" by simp
  have "2 ^ ?i * 2 ^ (63 - ?i) \<le> x * 2 ^ (63 - ?i)" using lo by (rule mult_le_mono1)
  with i show "2 ^ 63 \<le> x * 2 ^ (63 - ?i)" by (simp flip: power_add)
  have "x * 2 ^ (63 - ?i) < 2 ^ Suc ?i * 2 ^ (63 - ?i)" using hi by simp
  also have "\<dots> = 2 ^ 64" using i by (simp flip: power_add power_Suc)
  finally show "x * 2 ^ (63 - ?i) < 2 ^ 64" .
qed

lemma Log2Fix_nat:
  assumes "x \<noteq> 0"
  shows "\<exists>r. Log2Fix x = Some r \<and> unat r = log2_nat (unat x)"
proof -
  let ?i = "Len64 x - 1"
  have x: "0 < unat x" "unat x < 2 ^ 64" using assms by (auto simp: unat_gt_0)
  have i: "?i \<le> 63" and m: "unat (push_bit (63 - ?i) x) = unat x * 2 ^ (63 - ?i)"
    using normalised [OF x] by (simp_all add: Len64_def unat_push_bit)
  obtain F M where n: "(log2_nat_turn ^^ 32) (0, unat x * 2 ^ (63 - ?i)) = (F, M)" by fastforce
  obtain m' f where w: "fold log2_turn [1..<33] (push_bit (63 - ?i) x, 0) = (m', f)" by fastforce
  have f: "unat f = F" "F < 2 ^ 32"
    using log2_loop_nat [of 32 "push_bit (63 - ?i) x" F M m' f] n w m by auto
  have ui: "unat (of_nat ?i :: u64) = ?i" using i by (simp add: unat_of_nat_mod)
  have "unat (of_nat ?i :: u64) * 2 ^ 32 < 2 ^ 64" using i ui by simp
  then have "unat (push_bit 32 (of_nat ?i) OR f) = push_bit 32 ?i OR F"
    using f ui by (simp only: unsigned_or_eq unat_push_bit push_bit_eq_mult [of 32 ?i])
  also have "\<dots> = ?i * 2 ^ 32 + F" by (rule push_or_nat) (rule f(2))
  finally show ?thesis using assms w n by (simp add: Log2Fix_def log2_nat_def Len64_def Let_def)
qed

lemma log2_Suc_le:
  assumes "2 ^ 63 \<le> M"
  shows "log 2 (real (M + 1)) \<le> log 2 (real M) + 1 / 2 ^ 62"
proof -
  have M: "real M \<ge> 2 ^ 63" using assms by (metis of_nat_le_iff of_nat_numeral of_nat_power)
  have "0 < M" using assms by (rule less_le_trans [rotated]) simp
  then have pos: "real M > 0" by simp
  have ln2: "ln 2 \<ge> (1 / 2 :: real)"
    using ln_le_minus_one [of "1 / 2 :: real"] by (simp add: ln_div)
  have "ln (real (M + 1)) - ln (real M) = ln (1 + 1 / real M)"
    using pos ln_div [of "real (M + 1)" "real M"] by (simp add: add_divide_distrib add.commute)
  also have "\<dots> \<le> 1 / real M" using pos by (intro ln_add_one_self_le_self) auto
  also have "\<dots> \<le> 1 / 2 ^ 63" using M by (simp add: field_simps)
  also have "\<dots> \<le> 1 / 2 ^ 62 * ln 2" using ln2 by simp
  finally show ?thesis using ln2 by (simp add: log_def field_simps)
qed

lemma log2_turn_value:
  assumes "2 ^ 63 \<le> snd FM" "snd FM < 2 ^ 64"
  shows "2 ^ 63 \<le> snd (log2_nat_turn FM)" "snd (log2_nat_turn FM) < 2 ^ 64"
    "log2_value (log2_nat_turn FM) \<le> 2 * log2_value FM"
    "2 * log2_value FM \<le> log2_value (log2_nat_turn FM) + 1 / 2 ^ 62"
proof -
  obtain F M where FM: "FM = (F, M)" by fastforce
  define e :: nat where "e = (if 2 ^ 127 \<le> M * M then 64 else 63)"
  define M' where "M' = M * M div 2 ^ e"
  have turn: "log2_nat_turn FM = (2 * F + (e - 63), M')"
    by (simp add: log2_nat_turn_def FM e_def M'_def)
  have sq: "2 ^ 126 \<le> M * M" "M * M < 2 ^ 128" using square_bounds assms FM by auto
  have lo: "2 ^ 63 \<le> M'"
    using sq(1) by (simp add: M'_def e_def less_eq_div_iff_mult_less_eq)
  show "2 ^ 63 \<le> snd (log2_nat_turn FM)" using lo turn by simp
  have "M' < 2 ^ 64"
    using sq(2) by (simp add: M'_def e_def less_mult_imp_div_less)
  then show "snd (log2_nat_turn FM) < 2 ^ 64" using turn by simp
  have le: "M' * 2 ^ e \<le> M * M" by (simp add: M'_def)
  have ge: "M * M \<le> (M' + 1) * 2 ^ e"
    unfolding M'_def using dividend_less_div_times [of "2 ^ e" "M * M"] by simp
  have M: "0 < M" "0 < M'" using assms FM lo by (auto intro: less_le_trans [rotated])
  have lsq: "log 2 (real (M * M)) = 2 * log 2 (real M)"
    using M by (simp add: log_mult)
  have lpow: "log 2 (real (n * 2 ^ e)) = log 2 (real n) + real e" if "0 < n" for n
    using that by (simp add: log_mult log_nat_power)
  have "log 2 (real (M' * 2 ^ e)) \<le> log 2 (real (M * M))"
    using le M by (intro log_mono) (auto simp del: of_nat_mult of_nat_power)
  then have up: "log 2 (real M') + real e \<le> 2 * log 2 (real M)"
    by (simp only: lsq lpow [OF M(2)])
  have "log 2 (real (M * M)) \<le> log 2 (real ((M' + 1) * 2 ^ e))"
    using ge M by (intro log_mono) (auto simp del: of_nat_mult of_nat_power)
  then have "2 * log 2 (real M) \<le> log 2 (real (M' + 1)) + real e"
    unfolding lsq by (subst (asm) lpow) simp_all
  with log2_Suc_le [OF lo] have down: "2 * log 2 (real M) \<le> log 2 (real M') + real e + 1 / 2 ^ 62"
    by linarith
  have e: "real (e - 63) = real e - 63" by (simp add: e_def)
  show "log2_value (log2_nat_turn FM) \<le> 2 * log2_value FM"
    using up e unfolding turn by (simp add: log2_value_def FM)
  show "2 * log2_value FM \<le> log2_value (log2_nat_turn FM) + 1 / 2 ^ 62"
    using down e unfolding turn by (simp add: log2_value_def FM)
qed

lemma log2_iter_value:
  assumes "2 ^ 63 \<le> M" "M < 2 ^ 64"
  shows "2 ^ 63 \<le> snd ((log2_nat_turn ^^ k) (0, M)) \<and> snd ((log2_nat_turn ^^ k) (0, M)) < 2 ^ 64 \<and>
    log2_value ((log2_nat_turn ^^ k) (0, M)) \<le> 2 ^ k * log2_value (0, M) \<and>
    2 ^ k * log2_value (0, M) \<le> log2_value ((log2_nat_turn ^^ k) (0, M)) + (2 ^ k - 1) / 2 ^ 62"
proof (induction k)
  case 0
  then show ?case using assms by simp
next
  case (Suc k)
  let ?FM = "(log2_nat_turn ^^ k) (0, M)"
  note t = log2_turn_value [of ?FM]
  have "2 ^ Suc k * log2_value (0, M) \<le> 2 * log2_value ?FM + 2 * ((2 ^ k - 1) / 2 ^ 62)"
    using Suc.IH by (simp add: field_simps)
  also have "\<dots> \<le> log2_value (log2_nat_turn ?FM) + (2 ^ Suc k - 1) / 2 ^ 62"
    using t Suc.IH by (simp add: field_simps)
  finally show ?case using t Suc.IH by auto
qed

lemma log2_nat_bounds:
  assumes "0 < x" "x < 2 ^ 64"
  shows "real (log2_nat x) \<le> 2 ^ 32 * log 2 (real x)"
    "2 ^ 32 * log 2 (real x) < real (log2_nat x) + 1 + 1 / 2 ^ 30"
proof -
  let ?i = "bit_len x - 1"
  let ?M = "x * 2 ^ (63 - ?i)"
  note nb = normalised [OF assms]
  obtain F M where FM: "(log2_nat_turn ^^ 32) (0, ?M) = (F, M)" by fastforce
  have it: "2 ^ 63 \<le> M" "M < 2 ^ 64"
    "log2_value (F, M) \<le> 2 ^ 32 * log2_value (0, ?M)"
    "2 ^ 32 * log2_value (0, ?M) \<le> log2_value (F, M) + (2 ^ 32 - 1) / 2 ^ 62"
    using log2_iter_value [OF nb(2,3), of 32] FM by auto
  have v0: "log2_value (0, ?M) = log 2 (real x) - real ?i"
    using assms nb(1) by (simp add: log2_value_def log_mult log_nat_power of_nat_diff)
  have "real M \<ge> 2 ^ 63" "real M < 2 ^ 64"
    using it(1,2) by (metis of_nat_le_iff of_nat_less_iff of_nat_numeral of_nat_power)+
  then have "log 2 (2 ^ 63) \<le> log 2 (real M)" "log 2 (real M) < log 2 (2 ^ 64)"
    by (intro log_mono log_less; simp)+
  then have "63 \<le> log 2 (real M)" "log 2 (real M) < 64" by (simp_all only: log_pow_cancel)
  then have v: "real F \<le> log2_value (F, M)" "log2_value (F, M) < real F + 1"
    by (auto simp: log2_value_def)
  have r: "real (log2_nat x) = real ?i * 2 ^ 32 + real F"
    unfolding log2_nat_def Let_def FM by simp
  show "real (log2_nat x) \<le> 2 ^ 32 * log 2 (real x)"
    using it(3) v(1) unfolding v0 r by (simp add: algebra_simps)
  show "2 ^ 32 * log 2 (real x) < real (log2_nat x) + 1 + 1 / 2 ^ 30"
    using it(4) v(2) unfolding v0 r by (simp add: algebra_simps)
qed

lemma log2_nat_turn_mono: "lex_le a b \<Longrightarrow> lex_le (log2_nat_turn a) (log2_nat_turn b)"
proof -
  assume ab: "lex_le a b"
  obtain F M G N where eq: "a = (F, M)" "b = (G, N)" by fastforce
  show ?thesis
  proof (cases "F < G")
    case True
    then show ?thesis using eq by (simp add: lex_le_def log2_nat_turn_def)
  next
    case False
    with ab eq have "F = G" and MN: "M \<le> N" by (auto simp: lex_le_def)
    moreover have "M * M \<le> N * N" using MN by (simp add: mult_le_mono)
    ultimately show ?thesis using eq
      by (auto simp: lex_le_def log2_nat_turn_def intro: div_le_mono)
  qed
qed

lemma log2_iter_mono: "M \<le> N \<Longrightarrow> lex_le ((log2_nat_turn ^^ k) (0, M)) ((log2_nat_turn ^^ k) (0, N))"
  by (induction k) (simp_all add: lex_le_def [of "(0, M)"] log2_nat_turn_mono)

lemma log2_iter_less: "fst ((log2_nat_turn ^^ k) (0, M)) < 2 ^ k"
  by (induction k) (auto simp: log2_nat_turn_def split_beta)

lemma bit_len_mono: "m \<le> n \<Longrightarrow> bit_len m \<le> bit_len n"
proof (induction n arbitrary: m rule: bit_len.induct)
  case (1 n)
  then show ?case
    using bit_len.simps [of m] bit_len.simps [of n] by (auto simp: div_le_mono)
qed

lemma log2_nat_mono:
  assumes "0 < x" "x \<le> y"
  shows "log2_nat x \<le> log2_nat y"
proof -
  let ?F = "\<lambda>x. fst ((log2_nat_turn ^^ 32) (0, x * 2 ^ (63 - (bit_len x - 1))))"
  have eq: "log2_nat z = (bit_len z - 1) * 2 ^ 32 + ?F z" for z by (simp add: log2_nat_def Let_def)
  have le: "bit_len x - 1 \<le> bit_len y - 1" using bit_len_mono [OF assms(2)] by simp
  show ?thesis
  proof (cases "bit_len x - 1 = bit_len y - 1")
    case True
    have "?F x \<le> ?F y"
      using log2_iter_mono [of "x * 2 ^ (63 - (bit_len x - 1))" "y * 2 ^ (63 - (bit_len x - 1))" 32]
        assms True by (auto simp: lex_le_def)
    with True show ?thesis by (simp only: eq)
  next
    case False
    with le obtain d where "bit_len y - 1 = bit_len x - 1 + Suc d"
      using less_imp_Suc_add by (metis le_neq_implies_less add_Suc_right)
    with log2_iter_less [of 32 "x * 2 ^ (63 - (bit_len x - 1))"] show ?thesis
      by (simp add: eq algebra_simps)
  qed
qed

lemma log2_nat_less:
  assumes "0 < x" "x < 2 ^ 64"
  shows "log2_nat x < 2 ^ 38"
proof -
  have "(bit_len x - 1) * 2 ^ 32 \<le> 63 * 2 ^ 32" using normalised [OF assms] by simp
  with log2_iter_less [of 32 "x * 2 ^ (63 - (bit_len x - 1))"] show ?thesis
    unfolding log2_nat_def Let_def by simp
qed

lemma funpow_numeral: "(f ^^ numeral k) x = (f ^^ pred_numeral k) (f x)"
  by (simp add: numeral_eq_Suc funpow_swap1)

lemma low_squares:
  "0 \<le> y \<Longrightarrow> real a \<le> y * 2 ^ 100 \<Longrightarrow> real (low_squares k a) \<le> y ^ (2 ^ k) * 2 ^ 100"
proof (induction k arbitrary: a y)
  case 0
  then show ?case by simp
next
  case (Suc k)
  have "real (a * a div 2 ^ 100) * 2 ^ 100 \<le> real a * real a"
    using of_nat_mono [OF div_times_less_eq_dividend [of "a * a" "2 ^ 100"], where 'a = real] by simp
  also have "\<dots> \<le> (y * 2 ^ 100) * (y * 2 ^ 100)"
    using Suc.prems by (intro mult_mono) auto
  finally have "real (a * a div 2 ^ 100) \<le> y\<^sup>2 * 2 ^ 100"
    by (simp add: power2_eq_square)
  with Suc.IH [of "y\<^sup>2"] show ?case by (simp flip: power_mult)
qed

lemma low_squares_numeral:
  "low_squares (numeral k) a = low_squares (pred_numeral k) (a * a div 2 ^ 100)"
  by (simp only: numeral_eq_Suc [of k] low_squares.simps)

section \<open>An argument below the floor\<close>

lemma low_squares_example: "2 ^ 101 \<le> low_squares 31 (9223372039831820281 * 2 ^ 37)"
  by (simp add: low_squares_numeral)



lemma log2_nat_example: "log2_nat 9223372039831820281 = 270582939649"
  by (simp add: log2_nat_def bit_len.simps funpow_numeral log2_nat_turn_def)



lemma log2_example: "270582939650 \<le> 2 ^ 32 * log 2 (9223372039831820281 :: real)"
proof -
  define y :: real where "y = 9223372039831820281 / 2 ^ 63"
  have y: "0 < y" by (simp add: y_def)
  have "real (2 ^ 101) \<le> real (low_squares 31 (9223372039831820281 * 2 ^ 37))"
    using low_squares_example by (simp only: of_nat_le_iff)
  also have "\<dots> \<le> y ^ (2 ^ 31) * 2 ^ 100"
    by (rule low_squares) (simp_all add: y_def)
  finally have "2 \<le> y ^ (2 ^ 31)" by simp
  then have "log 2 2 \<le> log 2 (y ^ (2 ^ 31))" by (intro log_mono) auto
  then have "1 \<le> 2 ^ 31 * log 2 y" using y by (simp add: log_nat_power)
  moreover have "log 2 y = log 2 9223372039831820281 - log 2 (2 ^ 63)"
    unfolding y_def by (rule log_divide_pos) auto
  moreover have "log 2 (2 ^ 63 :: real) = 63" by (simp only: log_pow_cancel)
  ultimately show ?thesis by simp
qed



section \<open>The finalizer\<close>

lemma xorshift33_involution: "(let y = x XOR drop_bit 33 x in y XOR drop_bit 33 y) = (x :: u64)"
proof -
  have "drop_bit 66 x = 0" by (rule bit_eqI) (auto simp: bit_simps dest: bit_imp_le_length)
  then show ?thesis by (simp add: Let_def xor.assoc flip: xor.assoc [of "drop_bit 33 x"])
qed

lemma odd_factors:
  "x * 0xff51afd7ed558ccd * 0x4f74430c22a54005 = (x :: u64)"
  "x * 0x4f74430c22a54005 * 0xff51afd7ed558ccd = (x :: u64)"
  "x * 0xc4ceb9fe1a85ec53 * 0x9cb4b2f8129337db = (x :: u64)"
  "x * 0x9cb4b2f8129337db * 0xc4ceb9fe1a85ec53 = (x :: u64)"
proof -
  have eqs: "0xff51afd7ed558ccd * 0x4f74430c22a54005 = (1 :: u64)"
    "0x4f74430c22a54005 * 0xff51afd7ed558ccd = (1 :: u64)"
    "0xc4ceb9fe1a85ec53 * 0x9cb4b2f8129337db = (1 :: u64)"
    "0x9cb4b2f8129337db * 0xc4ceb9fe1a85ec53 = (1 :: u64)" by simp_all
  show "x * 0xff51afd7ed558ccd * 0x4f74430c22a54005 = (x :: u64)"
    "x * 0x4f74430c22a54005 * 0xff51afd7ed558ccd = (x :: u64)"
    "x * 0xc4ceb9fe1a85ec53 * 0x9cb4b2f8129337db = (x :: u64)"
    "x * 0x9cb4b2f8129337db * 0xc4ceb9fe1a85ec53 = (x :: u64)"
    by (simp_all only: mult.assoc eqs mult_1_right)
qed

lemmas xorshift33 = xorshift33_involution [unfolded Let_def]

lemma Fmix64_inv: "Fmix64_inv (Fmix64 x) = x" "Fmix64 (Fmix64_inv y) = y"
  by (simp_all only: Fmix64_def Fmix64_inv_def Let_def xorshift33 odd_factors)

lemma Fmix64_bij: "bij Fmix64"
  by (rule bij_betw_byWitness [where f' = Fmix64_inv]) (auto simp: Fmix64_inv)

section \<open>The score\<close>

lemma unat_plus_one: "h \<noteq> NOT 0 \<Longrightarrow> unat (h + 1 :: u64) = unat h + 1"
proof -
  assume "h \<noteq> NOT 0"
  then have "h + 1 \<noteq> 0" by (metis add.commute add_eq_0_iff bit.compl_zero)
  then have "unat (h + 1 - 1) = unat (h + 1) - 1" "0 < unat (h + 1)"
    by (rule unat_minus_one) (simp add: \<open>h + 1 \<noteq> 0\<close> unat_gt_0)
  then show ?thesis by simp
qed

lemma L_no_panic: "h \<noteq> NOT 0 \<Longrightarrow> Log2Fix (h + 1) \<noteq> None"
  using unat_plus_one [of h] by (auto simp: Log2Fix_def Let_def split: prod.splits)

lemma unat_L:
  "unat (L slot salt) =
    (if L_hash slot salt = NOT 0 then 0 else 2 ^ 38 - log2_nat (unat (L_hash slot salt) + 1))"
proof (cases "L_hash slot salt = NOT 0")
  case True
  then show ?thesis by (simp add: L_def L_hash_def)
next
  case False
  let ?h = "L_hash slot salt"
  have h: "unat (?h + 1) = unat ?h + 1" using False by (rule unat_plus_one)
  then have ne: "?h + 1 \<noteq> 0" by (metis add_is_0 one_neq_zero unsigned_0)
  then obtain r where r: "Log2Fix (?h + 1) = Some r" "unat r = log2_nat (unat ?h + 1)"
    using Log2Fix_nat [OF ne] h by auto
  have "unat ?h + 1 < 2 ^ 64" using unat_less_2p64 [of "?h + 1"] h by simp
  then have "unat r < 2 ^ 38" using log2_nat_less [of "unat ?h + 1"] r(2) by simp
  moreover have big: "unat (push_bit 32 64 :: u64) = 2 ^ 38" by (simp add: unat_push_bit)
  ultimately have "unat (push_bit 32 64 - r) = 2 ^ 38 - unat r"
    by (simp add: unat_sub_if')
  with r False show ?thesis by (simp add: L_def L_hash_def Let_def)
qed

lemma L_le: "unat (L slot salt) \<le> 2 ^ 38"
  by (simp add: unat_L)


lemma Log2Fix_eqI: "x \<noteq> 0 \<Longrightarrow> log2_nat (unat x) = unat r \<Longrightarrow> Log2Fix x = Some r"
  using Log2Fix_nat [of x] by (metis word_unat_eq_iff)

section \<open>Properties\<close>

text \<open>
  C25: \<^verbatim>\<open>Log2Fix\<close> returns for every nonzero argument, and the result is the base-2
  logarithm in units of \<open>2^-32\<close>, rounded down, with an error of less than one unit and
  \<open>2^-30\<close> of a unit.
\<close>

theorem Log2Fix_error:
  assumes "x \<noteq> 0"
  shows "\<exists>r. Log2Fix x = Some r \<and>
    real (unat r) \<le> 2 ^ 32 * log 2 (real (unat x)) \<and>
    2 ^ 32 * log 2 (real (unat x)) < real (unat r) + 1 + 1 / 2 ^ 30"
proof -
  have "0 < unat x" "unat x < 2 ^ 64" using assms by (auto simp: unat_gt_0)
  with Log2Fix_nat [OF assms] log2_nat_bounds show ?thesis by metis
qed

theorem Log2Fix_error_witness:
  "\<exists>r. Log2Fix 10 = Some r \<and> real (unat r) \<le> 2 ^ 32 * log 2 10 \<and>
    2 ^ 32 * log 2 10 < real (unat r) + 1 + 1 / 2 ^ 30"
  using Log2Fix_error [of 10] by simp

text \<open>
  \<^verbatim>\<open>Log2Fix\<close> is monotone: a larger argument never has a smaller result, so a
  larger hash never has a worse score.
\<close>

theorem Log2Fix_mono:
  assumes "Log2Fix x = Some r" "Log2Fix y = Some s" "x \<le> y"
  shows "r \<le> s"
proof -
  have ne: "x \<noteq> 0" "y \<noteq> 0" using assms(1,2) by (auto simp: Log2Fix_def)
  then have "unat r = log2_nat (unat x)" "unat s = log2_nat (unat y)"
    using Log2Fix_nat assms(1,2) by fastforce+
  with assms(3) ne show ?thesis
    by (auto simp: word_le_nat_alt unat_gt_0 intro!: log2_nat_mono)
qed

theorem Log2Fix_mono_witness:
  "Log2Fix 1 = Some 0 \<and> Log2Fix 2 = Some 4294967296 \<and> (0 :: u64) \<le> 4294967296"
proof -
  have "Log2Fix 1 = Some 0" "Log2Fix 2 = Some 4294967296"
    by (rule Log2Fix_eqI;
      simp add: log2_nat_def bit_len.simps funpow_numeral log2_nat_turn_def)+
  with Log2Fix_mono [of 1 0 2 4294967296] show ?thesis by simp
qed

text \<open>
  The score term is the negative base-2 logarithm of the uniform draw
  \<open>(h + 1) / 2^64\<close> of the slot and salt, in units of \<open>2^-32\<close>, rounded up with an error of
  less than one unit and \<open>2^-30\<close> of a unit, and never exceeds \<open>64\<close>. The draw with
  \<open>h = 2^64 - 1\<close>, which the code singles out, is covered.
\<close>

theorem L_error:
  defines "score slot salt \<equiv> - (2 ^ 32) * log 2 ((real (unat (Fmix64 (ucast slot XOR salt))) + 1) / 2 ^ 64)"
  shows "score slot salt \<le> real (unat (L slot salt)) \<and>
    real (unat (L slot salt)) < score slot salt + 1 + 1 / 2 ^ 30 \<and> unat (L slot salt) \<le> 64 * 2 ^ 32"
proof -
  let ?h = "L_hash slot salt"
  have sc: "score slot salt = 2 ^ 38 - 2 ^ 32 * log 2 (real (unat ?h) + 1)"
  proof -
    have "log 2 ((real (unat ?h) + 1) / 2 ^ 64) = log 2 (real (unat ?h) + 1) - log 2 (2 ^ 64)"
      by (rule log_divide_pos [OF add_nonneg_pos [OF of_nat_0_le_iff]]) simp_all
    moreover have "log 2 (2 ^ 64 :: real) = 64" by (simp only: log_pow_cancel)
    ultimately show ?thesis by (simp add: score_def L_hash_def algebra_simps)
  qed
  show ?thesis
  proof (cases "?h = NOT 0")
    case True
    then have "unat ?h = 2 ^ 64 - 1" by (simp add: unsigned_minus_1_eq_mask mask_eq_exp_minus_1)
    then have "real (unat ?h) + 1 = 2 ^ 64" by simp
    moreover have "log 2 (2 ^ 64 :: real) = 64" by (simp only: log_pow_cancel)
    ultimately show ?thesis using True by (simp only: sc unat_L) simp
  next
    case False
    have lt: "unat ?h + 1 < 2 ^ 64" using unat_plus_one [OF False] unat_less_2p64 [of "?h + 1"] by simp
    note b = log2_nat_bounds [of "unat ?h + 1"] log2_nat_less [of "unat ?h + 1"]
    have "real (unat (L slot salt)) = 2 ^ 38 - real (log2_nat (unat ?h + 1))"
      using False b(3) lt by (simp add: unat_L of_nat_diff)
    with b lt show ?thesis using L_le [of slot salt] by (simp add: sc add.commute)
  qed
qed

text \<open>
  The murmur finalizer is a bijection of the 64-bit words: distinct salts give distinct
  hashes in every slot.
\<close>

theorem Fmix64_bijective: "bij Fmix64 \<and> (Fmix64 (ucast slot XOR a) = Fmix64 (ucast (slot :: u32) XOR b) \<longleftrightarrow> a = b)"
proof -
  have "Fmix64 (ucast slot XOR a) = Fmix64 (ucast slot XOR b) \<longleftrightarrow> ucast slot XOR a = ucast slot XOR b"
    by (rule inj_eq [OF bij_is_inj [OF Fmix64_bij]])
  also have "\<dots> \<longleftrightarrow> a = b"
  proof
    assume "ucast slot XOR a = ucast slot XOR b"
    then have "ucast slot XOR (ucast slot XOR a) = ucast slot XOR (ucast slot XOR b)" by simp
    then show "a = b" by (simp only: xor.assoc [symmetric] xor_self_eq xor.left_neutral)
  qed simp
  finally show ?thesis using Fmix64_bij by simp
qed

text \<open>
  C40: The comment of \<^verbatim>\<open>Log2Fix\<close> promises the floor of the logarithm; for this argument the
  result is one less.
\<close>

theorem Log2Fix_not_floor:
  "Log2Fix 9223372039831820281 = Some 270582939649 \<and>
    \<lfloor>2 ^ 32 * log 2 (9223372039831820281 :: real)\<rfloor> = 270582939650"
proof
  show "Log2Fix 9223372039831820281 = Some 270582939649"
    by (rule Log2Fix_eqI) (simp_all add: log2_nat_example)
  have "2 ^ 32 * log 2 (real 9223372039831820281) < real (log2_nat 9223372039831820281) + 1 + 1 / 2 ^ 30"
    by (rule log2_nat_bounds) simp_all
  with log2_example show "\<lfloor>2 ^ 32 * log 2 (9223372039831820281 :: real)\<rfloor> = 270582939650"
    unfolding log2_nat_example by (simp add: floor_eq_iff)
qed

end
