(* ===== verification/Placement_Rank.thy ===== *)
theory Placement_Rank
  imports Placement_Log
begin

text \<open>
  What \<^verbatim>\<open>Set.Rank\<close>, \<^verbatim>\<open>Set.Owners\<close> and \<^verbatim>\<open>Table\<close> of
  \<^verbatim>\<open>placement/placement.go\<close> compute. The comparison \<^verbatim>\<open>less\<close> is shown to be the order of
  the exact quotients \<open>L / weight\<close> with ties by id, which makes it an instance of the
  comparator contract \<open>strict_key_order\<close>; the ranking of a set then inherits its facts.
\<close>

section \<open>Definitions\<close>

text \<open>The comparison of two members for a slot, and the ranking as a list of members.\<close>

definition member_L :: "(bytes \<Rightarrow> bytes) \<Rightarrow> u32 \<Rightarrow> member \<Rightarrow> u64" where
  "member_L blake3 slot m = L slot (Salt blake3 (ID m))"

definition rank_less :: "(bytes \<Rightarrow> bytes) \<Rightarrow> u32 \<Rightarrow> member \<Rightarrow> member \<Rightarrow> bool" where
  "rank_less blake3 slot a b = less a b (member_L blake3 slot a) (member_L blake3 slot b)"

definition id_less :: "member \<Rightarrow> member \<Rightarrow> bool" where
  "id_less a b = (compareID (ID a) (ID b) < 0)"

definition rank_members :: "(bytes \<Rightarrow> bytes) \<Rightarrow> member list \<Rightarrow> u32 \<Rightarrow> member list" where
  "rank_members blake3 ms slot = map (\<lambda>i. ms ! i) (Rank (NewSet blake3 ms) slot)"

definition owner_members :: "(bytes \<Rightarrow> bytes) \<Rightarrow> member list \<Rightarrow> u32 \<Rightarrow> nat \<Rightarrow> member list" where
  "owner_members blake3 ms slot r = map (\<lambda>i. ms ! i) (Owners (NewSet blake3 ms) slot r)"

text \<open>The exact score of a member that the integer products compare: smaller is better.\<close>

definition quotient :: "member \<Rightarrow> u64 \<Rightarrow> real" where
  "quotient m l = real (unat l) / real (unat (Weight m))"

text \<open>Members as the program builds them: ids have 32 bytes.\<close>

definition ids_ok :: "member list \<Rightarrow> bool" where
  "ids_ok ms \<longleftrightarrow> (\<forall>m \<in> set ms. length (ID m) = 32)"

text \<open>Queries on a table and their answers.\<close>

datatype table_query = QOwners u32 | QRank u32 | QOwnerIDs obj_key | QRankIDs obj_key
  | QIsOwner obj_key node_id

datatype table_answer = AIndexes "nat list" | AIDs "node_id list" | ABool bool

fun table_step :: "table \<Rightarrow> table_query \<Rightarrow> table_answer \<times> table" where
  "table_step t (QOwners slot) = apfst AIndexes (Table_Owners t slot)"
| "table_step t (QRank slot) = apfst AIndexes (Table_Rank t slot)"
| "table_step t (QOwnerIDs key) = apfst AIDs (OwnerIDs t key)"
| "table_step t (QRankIDs key) = apfst AIDs (RankIDs t key)"
| "table_step t (QIsOwner key nid) = apfst ABool (IsOwner t key nid)"

fun table_run :: "table \<Rightarrow> table_query list \<Rightarrow> table_answer list" where
  "table_run t [] = []"
| "table_run t (q # qs) = (let (a, t) = table_step t q in a # table_run t qs)"

fun direct_answer :: "placement_set \<Rightarrow> nat \<Rightarrow> table_query \<Rightarrow> table_answer" where
  "direct_answer s r (QOwners slot) = AIndexes (Owners s slot r)"
| "direct_answer s r (QRank slot) = AIndexes (Rank s slot)"
| "direct_answer s r (QOwnerIDs key) = AIDs (map (\<lambda>j. ID (Members s ! j)) (Owners s (Slot key) r))"
| "direct_answer s r (QRankIDs key) = AIDs (map (\<lambda>j. ID (Members s ! j)) (Rank s (Slot key)))"
| "direct_answer s r (QIsOwner key nid) =
    ABool (nid \<in> set (map (\<lambda>j. ID (Members s ! j)) (Owners s (Slot key) r)))"

definition table_ok :: "placement_set \<Rightarrow> nat \<Rightarrow> table \<Rightarrow> bool" where
  "table_ok s r t \<longleftrightarrow> t_set t = s \<and> t_r t = r \<and>
    (\<forall>slot os. t_owners t slot = Some os \<longrightarrow> os = Owners s slot r) \<and>
    (\<forall>slot rs. t_rank t slot = Some rs \<longrightarrow> rs = Rank s slot)"

text \<open>Two nodes for the examples.\<close>

definition zero_31 :: bytes where
  "zero_31 = replicate 31 CHR 0x00"

definition node1 :: member where
  "node1 = \<lparr> ID = CHR 0x01 # zero_31, Weight = 100, Zone = '''' \<rparr>"

definition node2 :: member where
  "node2 = \<lparr> ID = CHR 0x02 # zero_31, Weight = 250, Zone = ''b'' \<rparr>"

lemmas node_defs = node1_def node2_def zero_31_def

section \<open>The comparison\<close>

lemma compareID_less: "length a = length b \<Longrightarrow> (compareID a b < 0) = (a < b)"
  by (induction a b rule: list_induct2) auto

lemma compareID_compare3: "length a = length b \<Longrightarrow> compareID a b = compare3 a b"
  by (induction a b rule: list_induct2) (auto simp: compare3_def)

lemma unat_ucast_32_64: "unat (ucast (w :: u32) :: u64) = unat w"
proof -
  have "unat w < 2 ^ LENGTH(32)" by (rule unsigned_less)
  then show ?thesis by (simp add: unsigned_ucast_eq take_bit_nat_eq_self_iff)
qed

lemma div_mod_compare:
  "(a div c > b div c \<or> a div c = b div c \<and> a mod c > b mod c) = (a > (b :: nat))"
proof
  assume "a div c > b div c \<or> a div c = b div c \<and> a mod c > b mod c"
  then show "a > b"
    by (metis add_less_cancel_left div_le_mono leD mult_div_mod_eq not_less)
next
  assume "a > b"
  then show "a div c > b div c \<or> a div c = b div c \<and> a mod c > b mod c"
    by (metis add_less_cancel_left div_le_mono le_neq_implies_less less_imp_le_nat mult_div_mod_eq)
qed

lemma less_products:
  "less a b la lb \<longleftrightarrow>
    unat (Weight a) * unat lb > unat (Weight b) * unat la \<or>
    unat (Weight a) * unat lb = unat (Weight b) * unat la \<and> compareID (ID a) (ID b) < 0"
proof -
  let ?A = "unat (Weight a) * unat lb" and ?B = "unat (Weight b) * unat la"
  have "less a b la lb \<longleftrightarrow>
      (?A div 2 ^ 64 > ?B div 2 ^ 64 \<or> ?A div 2 ^ 64 = ?B div 2 ^ 64 \<and> ?A mod 2 ^ 64 > ?B mod 2 ^ 64) \<or>
      (?A div 2 ^ 64 = ?B div 2 ^ 64 \<and> ?A mod 2 ^ 64 = ?B mod 2 ^ 64) \<and> compareID (ID a) (ID b) < 0"
    unfolding less_def split_beta Let_def word_less_nat_alt word_unat_eq_iff Mul64_parts unat_ucast_32_64
    by auto
  also have "(?A div 2 ^ 64 = ?B div 2 ^ 64 \<and> ?A mod 2 ^ 64 = ?B mod 2 ^ 64) = (?A = ?B)"
    by (metis mult_div_mod_eq)
  finally show ?thesis unfolding div_mod_compare .
qed

lemma less_quotient:
  assumes "Weight a \<noteq> 0" "Weight b \<noteq> 0" "length (ID a) = length (ID b)"
  shows "less a b la lb \<longleftrightarrow>
    quotient a la < quotient b lb \<or> quotient a la = quotient b lb \<and> ID a < ID b"
proof -
  have "0 < unat (Weight a)" "0 < unat (Weight b)" using assms by (auto simp: unat_gt_0)
  then have w: "0 < real (unat (Weight a))" "0 < real (unat (Weight b))" by (simp_all del: of_nat_unat)
  then have "(quotient a la < quotient b lb) =
      (real (unat (Weight b) * unat la) < real (unat (Weight a) * unat lb))"
    unfolding quotient_def of_nat_mult by (simp add: divide_simps mult.commute del: of_nat_unat)
  moreover have "(quotient a la = quotient b lb) =
      (real (unat (Weight b) * unat la) = real (unat (Weight a) * unat lb))"
    unfolding quotient_def of_nat_mult using w
    by (simp add: frac_eq_eq mult.commute del: of_nat_unat)
  ultimately show ?thesis
    unfolding less_products of_nat_less_iff of_nat_eq_iff compareID_less [OF assms(3)] by auto
qed

lemma rank_less_quotient:
  assumes "a \<in> {m. Weight m \<noteq> 0 \<and> length (ID m) = 32}" "b \<in> {m. Weight m \<noteq> 0 \<and> length (ID m) = 32}"
  shows "rank_less blake3 slot a b \<longleftrightarrow>
    quotient a (member_L blake3 slot a) < quotient b (member_L blake3 slot b) \<or>
    quotient a (member_L blake3 slot a) = quotient b (member_L blake3 slot b) \<and> ID a < ID b"
  using assms by (simp add: rank_less_def less_quotient)

interpretation rank_order: strict_key_order
  "rank_less blake3 slot" "{m. Weight m \<noteq> 0 \<and> length (ID m) = 32}" ID for blake3 slot
  by unfold_locales (simp_all only: rank_less_quotient, auto)

interpretation id_order: strict_key_order id_less "{m. length (ID m) = 32}" ID
  by unfold_locales (auto simp: id_less_def compareID_less)

section \<open>The ranking\<close>

lemma map_insert_by: "map f (insert_by (\<lambda>i j. lt (f i) (f j)) x ys) = insert_by lt (f x) (map f ys)"
  by (induction ys) auto

lemma map_sort_by: "map f (sort_by (\<lambda>i j. lt (f i) (f j)) xs) = sort_by lt (map f xs)"
  by (induction xs) (auto simp: map_insert_by)

lemma insert_by_cong:
  "(\<And>y. y \<in> set ys \<Longrightarrow> lt y x = lt' y x) \<Longrightarrow> insert_by lt x ys = insert_by lt' x ys"
  by (induction ys) auto

lemma sort_by_cong:
  "(\<And>x y. x \<in> set xs \<Longrightarrow> y \<in> set xs \<Longrightarrow> lt x y = lt' x y) \<Longrightarrow> sort_by lt xs = sort_by lt' xs"
  by (induction xs) (auto intro!: insert_by_cong)

lemma map_nth_filter: "map (\<lambda>i. xs ! i) (filter (\<lambda>i. P (xs ! i)) [0..<length xs]) = filter P xs"
  by (metis (mono_tags) filter_cong filter_map map_nth o_def)

lemma rank_members_sort:
  "rank_members blake3 ms slot =
    sort_by (rank_less blake3 slot) (filter (\<lambda>m. Weight m \<noteq> 0) ms) @
    sort_by id_less (filter (\<lambda>m. Weight m = 0) ms)"
proof -
  let ?is = "\<lambda>P. filter (\<lambda>i. P (Weight (ms ! i))) [0..<length ms]"
  have rank: "Rank (NewSet blake3 ms) slot =
      sort_by (\<lambda>i j. rank_less blake3 slot (ms ! i) (ms ! j)) (?is (\<lambda>w. w \<noteq> 0)) @
      sort_by (\<lambda>i j. id_less (ms ! i) (ms ! j)) (?is (\<lambda>w. w = 0))"
    unfolding Rank_def Let_def NewSet_def
    by (auto intro!: arg_cong2 [where f = append] sort_by_cong
        simp: rank_less_def member_L_def id_less_def)
  show ?thesis
    unfolding rank_members_def rank map_append map_sort_by
    by (simp only: map_nth_filter [of ms "\<lambda>m. Weight m \<noteq> 0"] map_nth_filter [of ms "\<lambda>m. Weight m = 0"])
qed

lemma mset_Rank: "mset (Rank s slot) = mset [0..<length (Members s)]"
  unfolding Rank_def Let_def mset_append mset_sort_by mset_filter
  using multiset_partition [of "mset [0..<length (Members s)]" "\<lambda>i. Weight (Members s ! i) \<noteq> 0"]
  by (simp del: mset_upt)

lemma rank_members_cong:
  assumes "mset ms = mset ms'" "ids_ok ms" "distinct (map ID ms)"
  shows "rank_members blake3 ms slot = rank_members blake3 ms' slot"
proof -
  have filt: "mset (filter P ms) = mset (filter P ms')" for P
    using assms(1) by (metis mset_filter)
  have inj: "inj_on ID (set (filter P ms))" for P
    using assms(3) by (auto simp: distinct_map intro: inj_on_subset)
  have "sort_by (rank_less blake3 slot) (filter (\<lambda>m. Weight m \<noteq> 0) ms) =
      sort_by (rank_less blake3 slot) (filter (\<lambda>m. Weight m \<noteq> 0) ms')"
    using assms(2) by (intro rank_order.sort_by_unique filt inj) (auto simp: ids_ok_def)
  moreover have "sort_by id_less (filter (\<lambda>m. Weight m = 0) ms) =
      sort_by id_less (filter (\<lambda>m. Weight m = 0) ms')"
    using assms(2) by (intro id_order.sort_by_unique filt inj) (auto simp: ids_ok_def)
  ultimately show ?thesis by (simp only: rank_members_sort)
qed

lemma rank_members_filter:
  assumes "ids_ok ms"
  shows "rank_members blake3 (filter P ms) slot = filter P (rank_members blake3 ms slot)"
proof -
  have "set (filter Q ms) \<subseteq> {m. Q m \<and> length (ID m) = 32}" for Q
    using assms by (auto simp: ids_ok_def)
  then have "sort_by (rank_less blake3 slot) (filter P (filter (\<lambda>m. Weight m \<noteq> 0) ms)) =
      filter P (sort_by (rank_less blake3 slot) (filter (\<lambda>m. Weight m \<noteq> 0) ms))"
    by (intro rank_order.sort_by_filter) auto
  moreover have "sort_by id_less (filter P (filter (\<lambda>m. Weight m = 0) ms)) =
      filter P (sort_by id_less (filter (\<lambda>m. Weight m = 0) ms))"
    using assms by (intro id_order.sort_by_filter) (auto simp: ids_ok_def)
  moreover have "filter Q (filter P ms) = filter P (filter Q ms)" for Q
    by (simp add: conj_commute)
  ultimately show ?thesis
    by (simp only: rank_members_sort filter_append)
qed

lemma rank_members_weighted:
  "filter (\<lambda>m. Weight m \<noteq> 0) (rank_members blake3 ms slot) =
    sort_by (rank_less blake3 slot) (filter (\<lambda>m. Weight m \<noteq> 0) ms)"
proof -
  have "filter Q xs = xs" if "set xs \<subseteq> Collect Q" for Q and xs :: "member list"
    using that by (induction xs) auto
  moreover have "filter Q xs = []" if "set xs \<inter> Collect Q = {}" for Q and xs :: "member list"
    using that by (induction xs) auto
  ultimately show ?thesis by (auto simp: rank_members_sort)
qed

section \<open>Owners\<close>

lemma owners_loop_nub:
  assumes "length out \<le> r"
  shows "map (\<lambda>i. ms ! i) (owners_loop ms r rank zones out) =
    map (\<lambda>i. ms ! i) out @ take (r - length out)
      (filter (\<lambda>m. zone_of m \<notin> set zones)
        (nub_by zone_of (takeWhile (\<lambda>m. Weight m \<noteq> 0) (map (\<lambda>i. ms ! i) rank))))"
  using assms
proof (induction rank arbitrary: zones out)
  case Nil
  then show ?case by simp
next
  case (Cons i rank)
  let ?xs = "nub_by zone_of (takeWhile (\<lambda>m. Weight m \<noteq> 0) (map (\<lambda>i. ms ! i) rank))"
  have sub: "r - length out = Suc (r - Suc (length out))" if "length out < r"
    using that by simp
  have drop: "filter (\<lambda>m. zone_of m \<notin> set zones) (filter (\<lambda>y. zone_of y \<noteq> zone_of (ms ! i)) ?xs) =
      (if zone_of (ms ! i) \<in> set zones then filter (\<lambda>m. zone_of m \<notin> set zones) ?xs
       else filter (\<lambda>m. zone_of m \<notin> set (zone_of (ms ! i) # zones)) ?xs)"
    by (auto intro: filter_cong)
  show ?case
    using Cons.IH [of out zones] Cons.IH [of "out @ [i]" "zone_of (ms ! i) # zones"] Cons.prems
    by (auto simp: drop sub simp del: filter_filter)
qed

lemma owner_members_nub:
  "owner_members blake3 ms slot r =
    take r (nub_by zone_of (filter (\<lambda>m. Weight m \<noteq> 0) (rank_members blake3 ms slot)))"
proof -
  have tw: "takeWhile Q (xs @ ys) = filter Q (xs @ ys)"
    if "set xs \<subseteq> Collect Q" "set ys \<inter> Collect Q = {}" for Q and xs ys :: "member list"
  proof -
    have "takeWhile Q ys = []" using that(2) by (cases ys) auto
    moreover have "filter Q ys = []" using that(2) by (auto simp: filter_empty_conv)
    moreover have "filter Q xs = xs" using that(1) by (auto simp: filter_id_conv)
    moreover have "takeWhile Q (xs @ ys) = xs @ takeWhile Q ys"
      using that(1) by (intro takeWhile_append2) auto
    ultimately show ?thesis by simp
  qed
  have "takeWhile (\<lambda>m. Weight m \<noteq> 0) (rank_members blake3 ms slot) =
      filter (\<lambda>m. Weight m \<noteq> 0) (rank_members blake3 ms slot)"
    unfolding rank_members_sort by (rule tw) auto
  then show ?thesis
    using owners_loop_nub [of "[]" r ms "Rank (NewSet blake3 ms) slot" "[]"]
    by (simp add: owner_members_def Owners_def NewSet_def rank_members_def)
qed

lemma length_owner_members:
  "length (owner_members blake3 ms slot r) = min r (card (zone_of ` {m \<in> set ms. Weight m \<noteq> 0}))"
proof -
  let ?xs = "filter (\<lambda>m. Weight m \<noteq> 0) (rank_members blake3 ms slot)"
  have "set ?xs = {m \<in> set ms. Weight m \<noteq> 0}"
    unfolding rank_members_weighted by auto
  then have "card (zone_of ` {m \<in> set ms. Weight m \<noteq> 0}) = card (set (map zone_of (nub_by zone_of ?xs)))"
    by simp
  also have "\<dots> = length (nub_by zone_of ?xs)"
    by (simp only: distinct_card [OF distinct_map_nub_by] length_map)
  finally show ?thesis by (simp add: owner_members_nub)
qed

section \<open>The table\<close>

lemma table_ok_NewTable: "table_ok s r (NewTable s r)"
  by (simp add: table_ok_def NewTable_def)

lemma Table_Owners_ok:
  "table_ok s r t \<Longrightarrow> fst (Table_Owners t slot) = Owners s slot r \<and> table_ok s r (snd (Table_Owners t slot))"
  by (auto simp: table_ok_def Table_Owners_def Let_def split: option.splits)

lemma Table_Rank_ok:
  "table_ok s r t \<Longrightarrow> fst (Table_Rank t slot) = Rank s slot \<and> table_ok s r (snd (Table_Rank t slot))"
  by (auto simp: table_ok_def Table_Rank_def Let_def split: option.splits)

lemma table_ok_set:
  "table_ok s r t \<Longrightarrow> t_set (snd (Table_Owners t slot)) = s"
  "table_ok s r t \<Longrightarrow> t_set (snd (Table_Rank t slot)) = s"
  using Table_Owners_ok [of s r t slot] Table_Rank_ok [of s r t slot] by (auto simp: table_ok_def)

lemma table_step_ok:
  "table_ok s r t \<Longrightarrow> fst (table_step t q) = direct_answer s r q \<and> table_ok s r (snd (table_step t q))"
  by (cases q)
    (auto simp: OwnerIDs_def RankIDs_def IsOwner_def split_beta Let_def table_ok_set
      Table_Owners_ok Table_Rank_ok)

section \<open>Properties\<close>

text \<open>
  The 128-bit comparison of weight times score ranks members exactly by the quotient of
  score and weight, smaller first, with ties broken by id: no product overflows and no
  precision is lost.
\<close>

theorem less_exact:
  assumes "Weight a \<noteq> 0" "Weight b \<noteq> 0" "length (ID a) = 32" "length (ID b) = 32"
  shows "less a b la lb \<longleftrightarrow>
    real (unat la) / real (unat (Weight a)) < real (unat lb) / real (unat (Weight b)) \<or>
    real (unat la) / real (unat (Weight a)) = real (unat lb) / real (unat (Weight b)) \<and> ID a < ID b"
  using less_quotient [of a b la lb] assms by (simp add: quotient_def)

theorem less_exact_witness:
  "less \<lparr>ID = CHR 0x01 # zero_31, Weight = 3, Zone = ''''\<rparr>
    \<lparr>ID = CHR 0x02 # zero_31, Weight = 1, Zone = ''''\<rparr> 9 3"
  using less_exact [of "\<lparr>ID = CHR 0x01 # zero_31, Weight = 3, Zone = ''''\<rparr>"
      "\<lparr>ID = CHR 0x02 # zero_31, Weight = 1, Zone = ''''\<rparr>" 9 3]
  by (simp add: zero_31_def less_char_def)

text \<open>
  A ranking holds every member of the set once, owners or not.
\<close>

theorem Rank_permutation: "mset (Rank s slot) = mset [0..<length (Members s)]"
  by (rule mset_Rank)

text \<open>
  The ranking of a slot depends on the members and not on the order in which the view
  lists them, so every node and client computes the same one.
\<close>

theorem Rank_order_independent:
  assumes "mset ms = mset ms'" "ids_ok ms" "distinct (map ID ms)"
  shows "rank_members blake3 ms slot = rank_members blake3 ms' slot"
  using assms by (rule rank_members_cong)

theorem Rank_order_independent_witness:
  "rank_members (\<lambda>b. drop 24 b) [node1, node2] 5 = rank_members (\<lambda>b. drop 24 b) [node2, node1] 5"
  by (rule Rank_order_independent) (simp_all add: node_defs ids_ok_def)

text \<open>
  C22: Members that leave (or, read from right to left, join) displace nothing else: the ranking
  of the remaining members is the old ranking without those that left.
\<close>

theorem Rank_minimal_disruption:
  assumes "ids_ok ms"
  shows "rank_members blake3 (filter P ms) slot = filter P (rank_members blake3 ms slot)"
  using assms by (rule rank_members_filter)

theorem Rank_minimal_disruption_witness:
  "rank_members (\<lambda>b. drop 24 b) [node2] 5 =
    filter (\<lambda>m. ID m \<noteq> ID node1) (rank_members (\<lambda>b. drop 24 b) [node1, node2] 5)"
  using Rank_minimal_disruption [of "[node1, node2]" "\<lambda>b. drop 24 b" "\<lambda>m. ID m \<noteq> ID node1" 5]
  by (simp add: node_defs ids_ok_def)

text \<open>
  C24: The owners of a slot are the first \<open>r\<close> of the weighted ranking when from each zone only
  the best member counts: no two owners share a zone, there are at most \<open>r\<close>, and there are
  fewer only when there are not \<open>r\<close> zones with weight.
\<close>

theorem Owners_greedy:
  "map (\<lambda>i. ms ! i) (Owners (NewSet blake3 ms) slot r) =
      take r (nub_by zone_of (filter (\<lambda>m. Weight m \<noteq> 0) (rank_members blake3 ms slot))) \<and>
    distinct (map zone_of (owner_members blake3 ms slot r)) \<and>
    length (Owners (NewSet blake3 ms) slot r) =
      min r (card (zone_of ` {m \<in> set ms. Weight m \<noteq> 0}))"
proof -
  have "map (\<lambda>i. ms ! i) (Owners (NewSet blake3 ms) slot r) =
      take r (nub_by zone_of (filter (\<lambda>m. Weight m \<noteq> 0) (rank_members blake3 ms slot)))"
    using owner_members_nub [of blake3 ms slot r] by (simp add: owner_members_def)
  moreover have "distinct (map zone_of (owner_members blake3 ms slot r))"
    unfolding owner_members_nub take_map [symmetric] by (rule distinct_take [OF distinct_map_nub_by])
  moreover have "length (Owners (NewSet blake3 ms) slot r) = length (owner_members blake3 ms slot r)"
    by (simp add: owner_members_def)
  ultimately show ?thesis by (simp only: length_owner_members)
qed

text \<open>
  C23: When members leave, every owner that stays is still an owner: copies move only because
  the node that held them is gone.
\<close>

theorem Owners_minimal_disruption:
  assumes "ids_ok ms" "m \<in> set (owner_members blake3 ms slot r)" "P m"
  shows "m \<in> set (owner_members blake3 (filter P ms) slot r)"
proof -
  have "filter (\<lambda>m. Weight m \<noteq> 0) (rank_members blake3 (filter P ms) slot) =
      filter P (filter (\<lambda>m. Weight m \<noteq> 0) (rank_members blake3 ms slot))"
    by (simp add: rank_members_filter [OF assms(1)] conj_commute)
  with assms(2,3) show ?thesis by (simp add: owner_members_nub take_nub_by_mono del: filter_filter)
qed

theorem Owners_minimal_disruption_witness:
  "node1 \<in> set (owner_members (\<lambda>b. drop 24 b) [node1] 5 2)"
proof -
  have "node1 \<in> set (owner_members (\<lambda>b. drop 24 b) [node1, node2] 5 2)"
    by (simp add: owner_members_nub rank_members_weighted node_defs zone_of_def)
  from Owners_minimal_disruption [OF _ this, of "\<lambda>m. ID m = ID node1"] show ?thesis
    by (simp add: node_defs ids_ok_def)
qed

text \<open>
  The lazily filled table answers any sequence of queries as the computation on its set
  does: a cached entry is never stale.
\<close>

theorem Table_coherent: "table_run (NewTable s r) qs = map (direct_answer s r) qs"
proof -
  have "table_run t qs = map (direct_answer s r) qs" if "table_ok s r t" for t
    using that
  proof (induction qs arbitrary: t)
    case (Cons q qs)
    then show ?case using table_step_ok [of s r t q] by (simp add: split_beta Let_def)
  qed simp
  then show ?thesis using table_ok_NewTable by blast
qed

end
