(* ===== verification/View.thy ===== *)
theory View
  imports Placement_Rank
begin

text \<open>
  The cluster view and the placement functions over it: \<^verbatim>\<open>view/view.go\<close>. The structs become
  records (a \<^verbatim>\<open>nil\<close> pointer is \<open>None\<close>), each method a function of the same name; the
  placement tables of a view fill lazily, so the functions over them return the tables too.
  The lemmas show the write set and the read order of a key, the guarantee behind
  \<^verbatim>\<open>ValidateChange\<close>, the order of views, and the textual form of node ids.
\<close>

section \<open>Definitions\<close>

text \<open>\<^verbatim>\<open>encoding/hex\<close>.\<close>

definition hex_digit :: "nat \<Rightarrow> char" where
  "hex_digit n = ''0123456789abcdef'' ! n"

definition hex_encode :: "bytes \<Rightarrow> string" where
  "hex_encode bs = concat (map (\<lambda>c. [hex_digit (of_char c div 16), hex_digit (of_char c mod 16)]) bs)"

definition unhex :: "char \<Rightarrow> nat option" where
  "unhex c =
    (let n = of_char c :: nat in
     if 48 \<le> n \<and> n \<le> 57 then Some (n - 48)
     else if 97 \<le> n \<and> n \<le> 102 then Some (n - 87)
     else if 65 \<le> n \<and> n \<le> 70 then Some (n - 55)
     else None)"

fun hex_decode :: "string \<Rightarrow> bytes option" where
  "hex_decode [] = Some []"
| "hex_decode [x] = None"
| "hex_decode (x # y # s) =
    (case (unhex x, unhex y, hex_decode s) of
       (Some a, Some b, Some bs) \<Rightarrow> Some (char_of (16 * a + b) # bs)
     | _ \<Rightarrow> None)"

definition ParseNodeID :: "string \<Rightarrow> node_id option" where
  "ParseNodeID s =
    (case hex_decode s of
       None \<Rightarrow> None
     | Some b \<Rightarrow> if length b \<noteq> 32 then None else Some (to32 b))"

definition IDString :: "node_id \<Rightarrow> string" where
  "IDString nid = hex_encode nid"

definition ShortID :: "node_id \<Rightarrow> string" where
  "ShortID nid = hex_encode (take 4 nid)"

record voter =
  voID :: bytes
  voSince :: u64

record former =
  foID :: bytes
  foUntil :: int

record data_endpoint =
  deID :: bytes
  deAddrs :: "string list"

record node =
  nID :: bytes
  nWeight :: u32
  nAddrs :: "string list"
  nData :: "data_endpoint list"
  nToken :: bytes
  nZone :: string
  nIncarnation :: u64
  nWritable :: bool

definition NID :: "node \<Rightarrow> node_id" where
  "NID n = to32 (nID n)"

definition ZoneOrID :: "node \<Rightarrow> string" where
  "ZoneOrID n = (if nZone n \<noteq> '''' then nZone n else nID n)"

record ramp =
  raNode :: bytes
  raTarget :: u32
  raStep :: int

record pending =
  pNodes :: "node list"
  pReplicas :: u8
  pID :: u64
  pParticipantsAck :: "bytes list"
  pParticipants :: "bytes list"
  pFrozen :: bool
  pRound :: u32
  pPrimaryDone :: "bytes list"
  pDone :: "bytes list"
  pFrozenAt :: int
  pReason :: string
  pRamp :: "ramp option"
  pSince :: int

record acl =
  aAllowed :: "bytes list"
  aAdmins :: "bytes list"

record view =
  vClusterID :: bytes
  vIncarnation :: u64
  vEpoch :: u64
  vVersion :: u64
  vPlacementEpoch :: u64
  vReplicas :: u8
  vMinReplicas :: u8
  vVoters :: "voter list"
  vVoterSync :: int
  vVoterSyncCursor :: bytes
  vNodes :: "node list"
  vPending :: "pending option"
  vFormer :: "former list"
  vFenced :: "bytes list"
  vRecoveredInc :: u64
  vRecoveredEpoch :: u64
  vRebalancePause :: bool
  vRateCap :: u64
  vVoterSyncTarget :: bytes
  vVoterSyncAdd :: bool
  vDeferredVoters :: "bytes list"
  vACL :: "acl option"
  vRamps :: "ramp list"
  vRemoveVoters :: "bytes list"

definition VoterSyncDone :: int where
  "VoterSyncDone = 0"

definition VoterSyncPending :: int where
  "VoterSyncPending = 1"

text \<open>\<open>Compare v inc epoch\<close>: -1 when \<open>v\<close> is older, 0 when equal, 1 when newer.\<close>

definition Compare :: "view \<Rightarrow> u64 \<Rightarrow> u64 \<Rightarrow> int" where
  "Compare v inc epoch =
    (if vIncarnation v \<noteq> inc then if vIncarnation v < inc then - 1 else 1
     else if vEpoch v \<noteq> epoch then if vEpoch v < epoch then - 1 else 1
     else 0)"

definition find_node :: "node list \<Rightarrow> node_id \<Rightarrow> node option" where
  "find_node ns nid = List.find (\<lambda>n. nID n = nid) ns"

definition Node :: "view \<Rightarrow> node_id \<Rightarrow> node option" where
  "Node v nid =
    (case find_node (vNodes v) nid of
       Some n \<Rightarrow> Some n
     | None \<Rightarrow> (case vPending v of None \<Rightarrow> None | Some p \<Rightarrow> find_node (pNodes p) nid))"

fun endpoint_owner :: "node list \<Rightarrow> node_id \<Rightarrow> node_id option" where
  "endpoint_owner [] nid = None"
| "endpoint_owner (n # ns) nid =
    (if \<exists>d \<in> set (nData n). deID d = nid then Some (NID n) else endpoint_owner ns nid)"

definition DataEndpointOwner :: "view \<Rightarrow> node_id \<Rightarrow> node_id option" where
  "DataEndpointOwner v nid =
    (case endpoint_owner (vNodes v) nid of
       Some r \<Rightarrow> Some r
     | None \<Rightarrow> (case vPending v of None \<Rightarrow> None | Some p \<Rightarrow> endpoint_owner (pNodes p) nid))"

definition IsMember :: "view \<Rightarrow> node_id \<Rightarrow> bool" where
  "IsMember v nid = (if Node v nid \<noteq> None then True else DataEndpointOwner v nid \<noteq> None)"

definition IsFormer :: "view \<Rightarrow> node_id \<Rightarrow> bool" where
  "IsFormer v nid = (\<exists>f \<in> set (vFormer v). foID f = nid)"

definition IsVoter :: "view \<Rightarrow> node_id \<Rightarrow> bool" where
  "IsVoter v nid = (\<exists>vo \<in> set (vVoters v). voID vo = nid)"

definition VoterIDs :: "view \<Rightarrow> node_id list" where
  "VoterIDs v = map (\<lambda>vo. to32 (voID vo)) (vVoters v)"

definition Quorum :: "view \<Rightarrow> nat" where
  "Quorum v = length (vVoters v) div 2 + 1"

text \<open>The two passes of \<^verbatim>\<open>AllMembers\<close> over one \<open>seen\<close> set; \<open>out\<close> holds what was seen.\<close>

fun add_members :: "node list \<Rightarrow> node_id list \<Rightarrow> node_id list" where
  "add_members [] out = out"
| "add_members (n # ns) out =
    (if NID n \<in> set out then add_members ns out else add_members ns (out @ [NID n]))"

definition AllMembers :: "view \<Rightarrow> node_id list" where
  "AllMembers v =
    (let out = add_members (vNodes v) []
     in case vPending v of None \<Rightarrow> out | Some p \<Rightarrow> add_members (pNodes p) out)"

record placement =
  plView :: view
  plCur :: table
  plPending :: "table option"

definition members :: "node list \<Rightarrow> member list" where
  "members ns = map (\<lambda>n. \<lparr> ID = NID n, Weight = nWeight n, Zone = ZoneOrID n \<rparr>) ns"

definition NewPlacement :: "(bytes \<Rightarrow> bytes) \<Rightarrow> view \<Rightarrow> placement" where
  "NewPlacement blake3 v =
    \<lparr> plView = v,
      plCur = NewTable (NewSet blake3 (members (vNodes v))) (unat (vReplicas v)),
      plPending = (case vPending v of
         None \<Rightarrow> None
       | Some p \<Rightarrow> Some (NewTable (NewSet blake3 (members (pNodes p))) (unat (pReplicas p)))) \<rparr>"

definition Placement_Owners :: "placement \<Rightarrow> obj_key \<Rightarrow> node_id list \<times> placement" where
  "Placement_Owners p key = (let (r, t) = OwnerIDs (plCur p) key in (r, p\<lparr>plCur := t\<rparr>))"

definition PendingOwners :: "placement \<Rightarrow> obj_key \<Rightarrow> node_id list \<times> placement" where
  "PendingOwners p key =
    (case plPending p of
       None \<Rightarrow> ([], p)
     | Some t \<Rightarrow> (let (r, t) = OwnerIDs t key in (r, p\<lparr>plPending := Some t\<rparr>)))"

text \<open>Appending what is not yet there, as \<^verbatim>\<open>WriteSet\<close> and \<^verbatim>\<open>ReadOrder\<close> do.\<close>

definition append_new :: "node_id list \<Rightarrow> node_id list \<Rightarrow> node_id list" where
  "append_new out ids = out @ filter (\<lambda>i. i \<notin> set out) ids"

definition WriteSet :: "placement \<Rightarrow> obj_key \<Rightarrow> node_id list \<times> placement" where
  "WriteSet p key =
    (let (out, p) = Placement_Owners p key
     in case plPending p of
          None \<Rightarrow> (out, p)
        | Some _ \<Rightarrow> (let (ids, p) = PendingOwners p key in (append_new out ids, p)))"

definition ReadOrder :: "placement \<Rightarrow> obj_key \<Rightarrow> node_id list \<times> placement" where
  "ReadOrder p key =
    (let (out, t) = RankIDs (plCur p) key; p = p\<lparr>plCur := t\<rparr>
     in case plPending p of
          None \<Rightarrow> (out, p)
        | Some t \<Rightarrow> (let (ids, t) = RankIDs t key in (append_new out ids, p\<lparr>plPending := Some t\<rparr>)))"

definition Placement_IsOwner :: "placement \<Rightarrow> obj_key \<Rightarrow> node_id \<Rightarrow> bool \<times> placement" where
  "Placement_IsOwner p key nid = (let (r, t) = IsOwner (plCur p) key nid in (r, p\<lparr>plCur := t\<rparr>))"

definition IsPendingOwner :: "placement \<Rightarrow> obj_key \<Rightarrow> node_id \<Rightarrow> bool \<times> placement" where
  "IsPendingOwner p key nid =
    (case plPending p of
       None \<Rightarrow> (False, p)
     | Some t \<Rightarrow> (let (r, t) = IsOwner t key nid in (r, p\<lparr>plPending := Some t\<rparr>)))"

definition InWriteSet :: "placement \<Rightarrow> obj_key \<Rightarrow> node_id \<Rightarrow> bool \<times> placement" where
  "InWriteSet p key nid =
    (let (r, p) = Placement_IsOwner p key nid
     in if r then (True, p) else IsPendingOwner p key nid)"

definition Contains :: "bytes list \<Rightarrow> node_id \<Rightarrow> bool" where
  "Contains ids nid = (nid \<in> set ids)"

definition AddID :: "bytes list \<Rightarrow> node_id \<Rightarrow> bytes list" where
  "AddID ids nid = (if Contains ids nid then ids else ids @ [nid])"

definition IDsOf :: "bytes list \<Rightarrow> node_id list" where
  "IDsOf raw = map to32 raw"

definition SortNodes :: "node list \<Rightarrow> node list" where
  "SortNodes ns = sort_by (\<lambda>a b. nID a < nID b) ns"

definition DefaultMinReplicas :: "u8 \<Rightarrow> u8" where
  "DefaultMinReplicas r =
    (let m = int (unat r) - 1;
         m = (if m < 2 then 2 else m);
         m = (if m > int (unat r) then int (unat r) else m)
     in of_int m)"

text \<open>
  Every state of the placement tables of a view: as built, and after any of the queries.
\<close>

inductive pl_reach :: "(bytes \<Rightarrow> bytes) \<Rightarrow> view \<Rightarrow> placement \<Rightarrow> bool" for blake3 v where
  new: "pl_reach blake3 v (NewPlacement blake3 v)"
| owners: "pl_reach blake3 v p \<Longrightarrow> pl_reach blake3 v (snd (Placement_Owners p key))"
| pending_owners: "pl_reach blake3 v p \<Longrightarrow> pl_reach blake3 v (snd (PendingOwners p key))"
| write_set: "pl_reach blake3 v p \<Longrightarrow> pl_reach blake3 v (snd (WriteSet p key))"
| read_order: "pl_reach blake3 v p \<Longrightarrow> pl_reach blake3 v (snd (ReadOrder p key))"
| is_owner: "pl_reach blake3 v p \<Longrightarrow> pl_reach blake3 v (snd (Placement_IsOwner p key nid))"
| is_pending_owner: "pl_reach blake3 v p \<Longrightarrow> pl_reach blake3 v (snd (IsPendingOwner p key nid))"
| in_write_set: "pl_reach blake3 v p \<Longrightarrow> pl_reach blake3 v (snd (InWriteSet p key nid))"

text \<open>What the tables hold: nothing stale.\<close>

definition cur_set :: "(bytes \<Rightarrow> bytes) \<Rightarrow> view \<Rightarrow> placement_set" where
  "cur_set blake3 v = NewSet blake3 (members (vNodes v))"

definition pl_ok :: "(bytes \<Rightarrow> bytes) \<Rightarrow> view \<Rightarrow> placement \<Rightarrow> bool" where
  "pl_ok blake3 v p \<longleftrightarrow>
    table_ok (cur_set blake3 v) (unat (vReplicas v)) (plCur p) \<and>
    (case vPending v of
       None \<Rightarrow> plPending p = None
     | Some q \<Rightarrow> (\<exists>t. plPending p = Some t \<and>
         table_ok (NewSet blake3 (members (pNodes q))) (unat (pReplicas q)) t))"

text \<open>The owners under the current and under the pending nodes, computed directly.\<close>

definition owner_ids :: "(bytes \<Rightarrow> bytes) \<Rightarrow> node list \<Rightarrow> nat \<Rightarrow> obj_key \<Rightarrow> node_id list" where
  "owner_ids blake3 ns r key = map ID (owner_members blake3 (members ns) (Slot key) r)"

definition rank_ids :: "(bytes \<Rightarrow> bytes) \<Rightarrow> node list \<Rightarrow> obj_key \<Rightarrow> node_id list" where
  "rank_ids blake3 ns key = map ID (rank_members blake3 (members ns) (Slot key))"

definition pending_owner_ids :: "(bytes \<Rightarrow> bytes) \<Rightarrow> view \<Rightarrow> obj_key \<Rightarrow> node_id list" where
  "pending_owner_ids blake3 v key =
    (case vPending v of None \<Rightarrow> [] | Some q \<Rightarrow> owner_ids blake3 (pNodes q) (unat (pReplicas q)) key)"

text \<open>The node lists of a view name no node twice.\<close>

definition view_ids_ok :: "view \<Rightarrow> bool" where
  "view_ids_ok v \<longleftrightarrow> distinct (map NID (vNodes v)) \<and>
    (case vPending v of None \<Rightarrow> True | Some q \<Rightarrow> distinct (map NID (pNodes q)))"

text \<open>A node and two views for the examples: one at rest, one with a transition pending.\<close>

definition example_node :: "char \<Rightarrow> u32 \<Rightarrow> node" where
  "example_node c w = \<lparr> nID = c # zero_31, nWeight = w, nAddrs = [], nData = [], nToken = [],
     nZone = '''', nIncarnation = 1, nWritable = True \<rparr>"

definition example_view :: view where
  "example_view = \<lparr> vClusterID = [CHR 0x01], vIncarnation = 1, vEpoch = 3, vVersion = 9,
     vPlacementEpoch = 2, vReplicas = 2, vMinReplicas = 2,
     vVoters = [\<lparr> voID = CHR 0x01 # zero_31, voSince = 1 \<rparr>, \<lparr> voID = CHR 0x02 # zero_31, voSince = 1 \<rparr>,
       \<lparr> voID = CHR 0x03 # zero_31, voSince = 1 \<rparr>],
     vVoterSync = VoterSyncDone, vVoterSyncCursor = [],
     vNodes = [example_node CHR 0x01 100, example_node CHR 0x02 100, example_node CHR 0x03 100],
     vPending = None, vFormer = [], vFenced = [], vRecoveredInc = 0, vRecoveredEpoch = 0,
     vRebalancePause = False, vRateCap = 0, vVoterSyncTarget = [], vVoterSyncAdd = False,
     vDeferredVoters = [], vACL = None, vRamps = [], vRemoveVoters = [] \<rparr>"

definition example_pending :: pending where
  "example_pending = \<lparr> pNodes = [example_node CHR 0x01 100, example_node CHR 0x02 100,
       example_node CHR 0x03 100, example_node CHR 0x04 300],
     pReplicas = 2, pID = 1, pParticipantsAck = [], pParticipants = [], pFrozen = False, pRound = 0,
     pPrimaryDone = [], pDone = [], pFrozenAt = 0, pReason = ''join'', pRamp = None, pSince = 5 \<rparr>"

text \<open>The nodes a change drops; \<open>None\<close> is the refusal, \<open>Some ()\<close> the absence of an error.\<close>

definition kept_by :: "node list \<Rightarrow> node \<Rightarrow> bool" where
  "kept_by target n = (\<exists>t \<in> set target. nID n = nID t \<and> nWeight t > 0)"

definition dropped_nodes :: "node list \<Rightarrow> node list \<Rightarrow> node list" where
  "dropped_nodes cur target = filter (\<lambda>n. \<not> kept_by target n \<and> nWeight n > 0) cur"

definition ValidateChange :: "node list \<Rightarrow> node list \<Rightarrow> int \<Rightarrow> bool \<Rightarrow> unit option" where
  "ValidateChange cur target replicas force =
    (if force then Some ()
     else let dropped = int (length (dropped_nodes cur target))
          in if dropped \<ge> replicas \<and> replicas > 0 then None else Some ())"

section \<open>The tables of a view\<close>

lemma IsOwner_OwnerIDs: "IsOwner t key nid = apfst (\<lambda>ids. nid \<in> set ids) (OwnerIDs t key)"
  by (auto simp: IsOwner_def OwnerIDs_def split_beta Let_def)

lemma OwnerIDs_ok:
  assumes "table_ok (NewSet blake3 ms) r t"
  shows "fst (OwnerIDs t key) = map ID (owner_members blake3 ms (Slot key) r)"
    "table_ok (NewSet blake3 ms) r (snd (OwnerIDs t key))"
  using Table_Owners_ok [OF assms] table_ok_set [OF assms]
  by (auto simp: OwnerIDs_def owner_members_def NewSet_def split_beta Let_def)

lemma RankIDs_ok:
  assumes "table_ok (NewSet blake3 ms) r t"
  shows "fst (RankIDs t key) = map ID (rank_members blake3 ms (Slot key))"
    "table_ok (NewSet blake3 ms) r (snd (RankIDs t key))"
  using Table_Rank_ok [OF assms] table_ok_set [OF assms]
  by (auto simp: RankIDs_def rank_members_def NewSet_def split_beta Let_def)

lemma pl_ok_NewPlacement: "pl_ok blake3 v (NewPlacement blake3 v)"
  by (auto simp: pl_ok_def NewPlacement_def cur_set_def table_ok_NewTable split: option.splits)

lemma Placement_Owners_ok:
  assumes "pl_ok blake3 v p"
  shows "fst (Placement_Owners p key) = owner_ids blake3 (vNodes v) (unat (vReplicas v)) key"
    "pl_ok blake3 v (snd (Placement_Owners p key))"
    "plPending (snd (Placement_Owners p key)) = plPending p"
proof -
  have t: "table_ok (NewSet blake3 (members (vNodes v))) (unat (vReplicas v)) (plCur p)"
    using assms by (simp add: pl_ok_def cur_set_def)
  show "fst (Placement_Owners p key) = owner_ids blake3 (vNodes v) (unat (vReplicas v)) key"
    using OwnerIDs_ok(1) [OF t] by (simp add: Placement_Owners_def owner_ids_def split_beta Let_def)
  show "pl_ok blake3 v (snd (Placement_Owners p key))"
    using OwnerIDs_ok(2) [OF t] assms
    by (auto simp: Placement_Owners_def pl_ok_def cur_set_def split_beta Let_def split: option.splits)
  show "plPending (snd (Placement_Owners p key)) = plPending p"
    by (simp add: Placement_Owners_def split_beta Let_def)
qed

lemma PendingOwners_ok:
  assumes "pl_ok blake3 v p"
  shows "fst (PendingOwners p key) = pending_owner_ids blake3 v key"
    "pl_ok blake3 v (snd (PendingOwners p key))"
  using assms OwnerIDs_ok
  by (fastforce simp: PendingOwners_def pending_owner_ids_def owner_ids_def pl_ok_def cur_set_def
      split_beta Let_def split: option.splits)+

lemma Placement_IsOwner_ok:
  assumes "pl_ok blake3 v p"
  shows "fst (Placement_IsOwner p key nid) \<longleftrightarrow>
      nid \<in> set (owner_ids blake3 (vNodes v) (unat (vReplicas v)) key)"
    "pl_ok blake3 v (snd (Placement_IsOwner p key nid))"
  using Placement_Owners_ok [OF assms, of key]
  by (simp_all add: Placement_IsOwner_def Placement_Owners_def IsOwner_OwnerIDs split_beta Let_def)

lemma IsPendingOwner_ok:
  assumes "pl_ok blake3 v p"
  shows "fst (IsPendingOwner p key nid) \<longleftrightarrow> nid \<in> set (pending_owner_ids blake3 v key)"
    "pl_ok blake3 v (snd (IsPendingOwner p key nid))"
  using PendingOwners_ok [OF assms, of key]
  by (auto simp: IsPendingOwner_def PendingOwners_def IsOwner_OwnerIDs split_beta Let_def
      split: option.splits)

lemma InWriteSet_ok:
  assumes "pl_ok blake3 v p"
  shows "fst (InWriteSet p key nid) \<longleftrightarrow>
      nid \<in> set (owner_ids blake3 (vNodes v) (unat (vReplicas v)) key) \<or>
      nid \<in> set (pending_owner_ids blake3 v key)"
    "pl_ok blake3 v (snd (InWriteSet p key nid))"
  using Placement_IsOwner_ok [OF assms, of key nid]
    IsPendingOwner_ok [OF Placement_IsOwner_ok(2) [OF assms], of key nid key nid]
  by (auto simp: InWriteSet_def split_beta Let_def)

lemma WriteSet_ok:
  assumes "pl_ok blake3 v p"
  shows "fst (WriteSet p key) =
      append_new (owner_ids blake3 (vNodes v) (unat (vReplicas v)) key) (pending_owner_ids blake3 v key)"
    "pl_ok blake3 v (snd (WriteSet p key))"
proof -
  note o = Placement_Owners_ok [OF assms, of key]
  have none: "pending_owner_ids blake3 v key = []" if "plPending p = None"
    using that assms by (auto simp: pl_ok_def pending_owner_ids_def split: option.splits)
  show "fst (WriteSet p key) =
      append_new (owner_ids blake3 (vNodes v) (unat (vReplicas v)) key) (pending_owner_ids blake3 v key)"
    "pl_ok blake3 v (snd (WriteSet p key))"
    using o PendingOwners_ok [OF o(2), of key] none
    by (auto simp: WriteSet_def append_new_def split_beta Let_def split: option.splits)
qed

lemma ReadOrder_ok:
  assumes "pl_ok blake3 v p"
  shows "fst (ReadOrder p key) =
      (case vPending v of
         None \<Rightarrow> rank_ids blake3 (vNodes v) key
       | Some q \<Rightarrow> append_new (rank_ids blake3 (vNodes v) key) (rank_ids blake3 (pNodes q) key))"
    "pl_ok blake3 v (snd (ReadOrder p key))"
proof -
  have t: "table_ok (NewSet blake3 (members (vNodes v))) (unat (vReplicas v)) (plCur p)"
    using assms by (simp add: pl_ok_def cur_set_def)
  note c = RankIDs_ok [OF t, of key]
  show "fst (ReadOrder p key) =
      (case vPending v of
         None \<Rightarrow> rank_ids blake3 (vNodes v) key
       | Some q \<Rightarrow> append_new (rank_ids blake3 (vNodes v) key) (rank_ids blake3 (pNodes q) key))"
    "pl_ok blake3 v (snd (ReadOrder p key))"
    using assms c RankIDs_ok
    by (fastforce simp: ReadOrder_def rank_ids_def pl_ok_def cur_set_def split_beta Let_def
        split: option.splits)+
qed

lemma pl_reach_ok: "pl_reach blake3 v p \<Longrightarrow> pl_ok blake3 v p"
  by (induction rule: pl_reach.induct)
    (auto intro: pl_ok_NewPlacement Placement_Owners_ok PendingOwners_ok WriteSet_ok ReadOrder_ok
      Placement_IsOwner_ok IsPendingOwner_ok InWriteSet_ok)

section \<open>Members and ids\<close>

lemma map_ID_members [simp]: "map ID (members ns) = map NID ns"
  by (simp add: members_def)

lemma ids_ok_members [simp]: "ids_ok (members ns)"
  by (auto simp: ids_ok_def members_def NID_def)

lemma set_rank_members [simp]: "set (rank_members blake3 ms slot) = set ms"
  by (auto simp: rank_members_sort)

lemma mset_rank_members [simp]: "mset (rank_members blake3 ms slot) = mset ms"
  by (simp add: rank_members_sort)

lemma set_rank_ids [simp]: "set (rank_ids blake3 ns key) = NID ` set ns"
  by (simp add: rank_ids_def members_def image_image)

lemma distinct_rank_ids: "distinct (map NID ns) \<Longrightarrow> distinct (rank_ids blake3 ns key)"
  by (metis (no_types, lifting) map_ID_members mset_eq_imp_distinct_iff mset_map mset_rank_members rank_ids_def)

lemma set_owner_members_subset: "set (owner_members blake3 ms slot r) \<subseteq> {m \<in> set ms. Weight m \<noteq> 0}"
  unfolding owner_members_nub
  by (rule order_trans [OF set_take_subset order_trans [OF set_nub_by_subset]]) auto

lemma distinct_owner_members: "distinct (owner_members blake3 ms slot r)"
  unfolding owner_members_nub by (rule distinct_take [OF distinct_nub_by])

lemma distinct_ID_owner_members:
  assumes "distinct (map NID ns)"
  shows "distinct (map ID (owner_members blake3 (members ns) slot r))"
proof -
  have "inj_on ID (set (members ns))"
    using assms by (metis distinct_map map_ID_members)
  then have "inj_on ID (set (owner_members blake3 (members ns) slot r))"
    by (rule inj_on_subset) (use set_owner_members_subset in blast)
  then show ?thesis by (simp add: distinct_map distinct_owner_members)
qed

lemma distinct_owner_ids: "distinct (map NID ns) \<Longrightarrow> distinct (owner_ids blake3 ns r key)"
  unfolding owner_ids_def by (rule distinct_ID_owner_members)

lemma owner_ids_subset: "set (owner_ids blake3 ns r key) \<subseteq> NID ` set ns"
  using set_owner_members_subset [of blake3 "members ns" "Slot key" r]
  by (auto simp: owner_ids_def members_def)

lemma set_append_new [simp]: "set (append_new a b) = set a \<union> set b"
  by (auto simp: append_new_def)

lemma distinct_append_new: "distinct a \<Longrightarrow> distinct b \<Longrightarrow> distinct (append_new a b)"
  by (auto simp: append_new_def)

lemma add_members_set: "set (add_members ns out) = set out \<union> NID ` set ns"
  by (induction ns arbitrary: out) auto

lemma add_members_distinct: "distinct out \<Longrightarrow> distinct (add_members ns out)"
  by (induction ns arbitrary: out) auto

lemma set_AllMembers:
  "set (AllMembers v) = NID ` set (vNodes v) \<union> (case vPending v of None \<Rightarrow> {} | Some q \<Rightarrow> NID ` set (pNodes q))"
  by (auto simp: AllMembers_def Let_def add_members_set split: option.splits)

lemma distinct_AllMembers: "distinct (AllMembers v)"
  by (auto simp: AllMembers_def Let_def add_members_distinct split: option.splits)

section \<open>Order of views\<close>

lemma Compare_iff:
  "(Compare v inc ep < 0) = (vIncarnation v < inc \<or> vIncarnation v = inc \<and> vEpoch v < ep)"
  "(Compare v inc ep > 0) = (inc < vIncarnation v \<or> vIncarnation v = inc \<and> ep < vEpoch v)"
  "(Compare v inc ep = 0) = (vIncarnation v = inc \<and> vEpoch v = ep)"
  by (auto simp: Compare_def)

section \<open>Hex\<close>

lemma unhex_hex_digit: "n < 16 \<Longrightarrow> unhex (hex_digit n) = Some n"
proof -
  have "\<forall>n \<in> set [0..<16]. unhex (hex_digit n) = Some n" by code_simp
  then show "n < 16 \<Longrightarrow> unhex (hex_digit n) = Some n" by simp
qed

lemma hex_decode_encode: "hex_decode (hex_encode bs) = Some bs"
proof (induction bs)
  case (Cons c bs)
  have "(of_char c :: nat) div 16 < 16" using of_char_less_256 [of c] by (simp add: less_mult_imp_div_less)
  with Cons show ?case by (simp add: hex_encode_def unhex_hex_digit)
qed (simp add: hex_encode_def)

section \<open>Changes of the node set\<close>

lemma owners_of_nodes:
  assumes "m \<in> set (owner_members blake3 (members ns) slot r)"
  shows "\<exists>n \<in> set ns. NID n = ID m \<and> nWeight n > 0"
proof -
  from assms have "m \<in> set (members ns)" "Weight m \<noteq> 0"
    using set_owner_members_subset by blast+
  then show ?thesis by (auto simp: members_def word_gt_0)
qed

lemma kept_owner:
  assumes "length (dropped_nodes cur target) < length (owner_members blake3 (members cur) slot r)"
    "distinct (map NID cur)"
  shows "\<exists>n \<in> set cur. NID n \<in> ID ` set (owner_members blake3 (members cur) slot r) \<and> kept_by target n"
proof (rule ccontr)
  let ?O = "owner_members blake3 (members cur) slot r"
  assume none: "\<not> ?thesis"
  have "ID ` set ?O \<subseteq> NID ` set (dropped_nodes cur target)"
  proof
    fix i assume "i \<in> ID ` set ?O"
    then obtain n where "n \<in> set cur" "NID n = i" "nWeight n > 0"
      using owners_of_nodes by fastforce
    with none \<open>i \<in> _\<close> show "i \<in> NID ` set (dropped_nodes cur target)"
      by (auto simp: dropped_nodes_def)
  qed
  then have "card (ID ` set ?O) \<le> card (NID ` set (dropped_nodes cur target))"
    by (intro card_mono) auto
  also have "\<dots> \<le> length (dropped_nodes cur target)"
    by (metis card_image_le card_length finite_set le_trans)
  finally have "card (ID ` set ?O) \<le> length (dropped_nodes cur target)" .
  moreover have "card (set (map ID ?O)) = length ?O"
    using distinct_card [OF distinct_ID_owner_members [OF assms(2)]] by simp
  ultimately show False using assms(1) by simp
qed

lemmas example_defs = example_node_def example_view_def example_pending_def zero_31_def

lemma example_weights:
  "zone_of ` {m \<in> set (members (vNodes example_view)). Weight m \<noteq> 0} =
    {CHR 0x01 # zero_31, CHR 0x02 # zero_31, CHR 0x03 # zero_31}"
proof -
  have eq: "zone_of ` {m \<in> set ms. Weight m \<noteq> 0} = set (map zone_of (filter (\<lambda>m. Weight m \<noteq> 0) ms))" for ms
    by auto
  show ?thesis
    unfolding eq by (simp add: members_def example_view_def example_node_def zone_of_def ZoneOrID_def)
qed

lemma example_ids_distinct [simp]:
  "CHR 0x01 # zero_31 \<noteq> CHR 0x02 # zero_31" "CHR 0x01 # zero_31 \<noteq> CHR 0x03 # zero_31"
  "CHR 0x02 # zero_31 \<noteq> CHR 0x03 # zero_31"
  by simp_all

section \<open>Properties\<close>

text \<open>
  The write set of a key is the union of its owners under the current and under the pending
  nodes, without duplicates, and \<^verbatim>\<open>InWriteSet\<close> decides membership in it, whatever queries
  have filled the tables before.
\<close>

theorem WriteSet_exact:
  assumes "pl_reach blake3 v p" "view_ids_ok v"
  shows "set (fst (WriteSet p key)) =
      set (owner_ids blake3 (vNodes v) (unat (vReplicas v)) key) \<union> set (pending_owner_ids blake3 v key) \<and>
    distinct (fst (WriteSet p key)) \<and>
    (fst (InWriteSet p key nid) \<longleftrightarrow> nid \<in> set (fst (WriteSet p key)))"
proof -
  note ok = pl_reach_ok [OF assms(1)]
  have "distinct (pending_owner_ids blake3 v key)"
    using assms(2) by (auto simp: pending_owner_ids_def view_ids_ok_def distinct_owner_ids split: option.splits)
  then show ?thesis
    using assms(2) by (auto simp: WriteSet_ok [OF ok] InWriteSet_ok [OF ok] view_ids_ok_def
        intro!: distinct_append_new distinct_owner_ids)
qed

theorem WriteSet_exact_witness:
  "distinct (fst (WriteSet (NewPlacement (\<lambda>b. drop 24 b) (example_view\<lparr>vPending := Some example_pending\<rparr>)) (replicate 32 CHR 0x07)))"
  using WriteSet_exact [OF pl_reach.new [of "\<lambda>b. drop 24 b" "example_view\<lparr>vPending := Some example_pending\<rparr>"]]
  by (simp add: view_ids_ok_def example_defs NID_def)

text \<open>
  The read order of a key names every member of the view once, current and pending, and so
  reaches every node of the write set.
\<close>

theorem ReadOrder_complete:
  assumes "pl_reach blake3 v p" "view_ids_ok v"
  shows "set (fst (ReadOrder p key)) = set (AllMembers v) \<and> distinct (fst (ReadOrder p key)) \<and>
    set (fst (WriteSet p key)) \<subseteq> set (fst (ReadOrder p key))"
proof -
  note ok = pl_reach_ok [OF assms(1)]
  have all: "set (fst (ReadOrder p key)) = set (AllMembers v)"
    by (auto simp: ReadOrder_ok [OF ok] set_AllMembers split: option.splits)
  moreover have "distinct (fst (ReadOrder p key))"
    using assms(2) by (auto simp: ReadOrder_ok [OF ok] view_ids_ok_def distinct_rank_ids
        intro!: distinct_append_new split: option.splits)
  moreover have "set (fst (WriteSet p key)) \<subseteq> set (AllMembers v)"
    using owner_ids_subset
    by (fastforce simp: WriteSet_ok [OF ok] set_AllMembers pending_owner_ids_def split: option.splits)
  ultimately show ?thesis by simp
qed

theorem ReadOrder_complete_witness:
  "set (fst (ReadOrder (NewPlacement (\<lambda>b. drop 24 b) example_view) (replicate 32 CHR 0x07))) =
    {CHR 0x01 # zero_31, CHR 0x02 # zero_31, CHR 0x03 # zero_31}"
  using ReadOrder_complete [OF pl_reach.new [of "\<lambda>b. drop 24 b" example_view], of "replicate 32 CHR 0x07"]
  by (auto simp: view_ids_ok_def example_defs NID_def set_AllMembers)

text \<open>
  C28: A change of the node set that \<^verbatim>\<open>ValidateChange\<close> lets pass without force leaves every
  slot that has all \<open>R\<close> owners at least one that the target keeps with weight: no object of such a
  slot is owned only by dropped nodes. A slot with fewer owners, as when there are fewer zones than
  \<open>R\<close>, can lose all of them.
\<close>

theorem ValidateChange_keeps_owner:
  assumes "ValidateChange cur target (int r) False = Some ()" "0 < r"
    "distinct (map NID cur)" "length (Owners (NewSet blake3 (members cur)) slot r) = r"
  shows "\<exists>n \<in> set cur. NID n \<in> ID ` set (owner_members blake3 (members cur) slot r) \<and>
    (\<exists>t \<in> set target. nID t = nID n \<and> nWeight t > 0)"
proof -
  have "length (dropped_nodes cur target) < r"
    using assms(1,2) by (auto simp: ValidateChange_def Let_def split: if_splits)
  then have "length (dropped_nodes cur target) < length (owner_members blake3 (members cur) slot r)"
    using assms(4) by (simp add: owner_members_def)
  from kept_owner [OF this assms(3)] show ?thesis by (fastforce simp: kept_by_def)
qed

theorem ValidateChange_keeps_owner_witness:
  "\<exists>n \<in> set (vNodes example_view). nID n \<noteq> CHR 0x01 # zero_31 \<and>
    NID n \<in> ID ` set (owner_members (\<lambda>b. drop 24 b) (members (vNodes example_view)) 5 2)"
proof -
  let ?cur = "vNodes example_view" and ?tgt = "tl (vNodes example_view)"
  have "length (Owners (NewSet (\<lambda>b. drop 24 b) (members ?cur)) 5 2) = 2"
    using length_owner_members [of "\<lambda>b. drop 24 b" "members ?cur" 5 2]
    by (simp add: owner_members_def example_weights)
  then show ?thesis
    using ValidateChange_keeps_owner [of ?cur ?tgt 2 "\<lambda>b. drop 24 b" 5]
    by (fastforce simp: ValidateChange_def dropped_nodes_def kept_by_def example_defs NID_def)
qed

text \<open>
  The default durability floor is \<open>R - 1\<close> raised to two and capped at \<open>R\<close>; the narrowing
  to a byte loses nothing.
\<close>

theorem DefaultMinReplicas_exact: "unat (DefaultMinReplicas r) = min (unat r) (max (unat r - 1) 2)"
proof -
  have lt: "unat r < 256" using unsigned_less [of r, where 'a = nat] by simp
  have m: "(if (if int n - 1 < 2 then 2 else int n - 1) > int n then int n
      else if int n - 1 < 2 then 2 else int n - 1) = int (min n (max (n - 1) 2))" for n :: nat
    by (auto simp: min_def max_def)
  have "DefaultMinReplicas r = of_nat (min (unat r) (max (unat r - 1) 2))"
    unfolding DefaultMinReplicas_def Let_def m by (rule of_int_of_nat_eq)
  moreover have "min (unat r) (max (unat r - 1) 2) < 256" using lt by simp
  ultimately show ?thesis by (simp add: unsigned_of_nat take_bit_nat_eq_self_iff)
qed

text \<open>
  Parsing the text of a node id gives the id back.\<close>

theorem ParseNodeID_IDString:
  assumes "length nid = 32"
  shows "ParseNodeID (IDString nid) = Some nid"
  using assms by (simp add: ParseNodeID_def IDString_def hex_decode_encode)

theorem ParseNodeID_IDString_witness: "ParseNodeID (IDString zero_id) = Some zero_id"
  by (rule ParseNodeID_IDString) simp

end
