(* ===== verification/Ballot.thy ===== *)
theory Ballot
  imports View
begin

text \<open>
  Ballots: \<^verbatim>\<open>paxos/ballot.go\<close>. A ballot is a counter and a proposer id, ordered
  lexicographically; the zero ballot stands for none. The lemmas show that \<^verbatim>\<open>Compare\<close> is the
  three-way comparison of a linear order, that the encoding round-trips, and that encodings
  order as the ballots do.
\<close>

section \<open>Definitions\<close>

datatype ballot = Ballot (Counter: u64) (Proposer: node_id)

definition BallotSize :: nat where
  "BallotSize = 40"

definition zero_ballot :: ballot where
  "zero_ballot = Ballot 0 zero_id"

definition IsZero :: "ballot \<Rightarrow> bool" where
  "IsZero b = (Counter b = 0 \<and> Proposer b = zero_id)"

definition Ballot_Compare :: "ballot \<Rightarrow> ballot \<Rightarrow> int" where
  "Ballot_Compare b c =
    (if Counter b \<noteq> Counter c then if Counter b < Counter c then - 1 else 1
     else compare3 (Proposer b) (Proposer c))"

definition Ballot_Less :: "ballot \<Rightarrow> ballot \<Rightarrow> bool" where
  "Ballot_Less b c = (Ballot_Compare b c < 0)"

text \<open>\<^verbatim>\<open>nil\<close> and the empty slice are both \<open>[]\<close>.\<close>

definition Bytes :: "ballot \<Rightarrow> bytes" where
  "Bytes b = (if IsZero b then [] else put_u64 (Counter b) @ Proposer b)"

definition ParseBallot :: "bytes \<Rightarrow> ballot option" where
  "ParseBallot b =
    (if length b = 0 then Some zero_ballot
     else if length b \<noteq> BallotSize then None
     else Some (Ballot (get_u64 (take 8 b)) (to32 (drop 8 b))))"

text \<open>\<^verbatim>\<open>b, _ := ParseBallot(x)\<close>: the zero ballot stands in for one that does not parse.\<close>

definition parse_ballot0 :: "bytes \<Rightarrow> ballot" where
  "parse_ballot0 b = (case ParseBallot b of Some x \<Rightarrow> x | None \<Rightarrow> zero_ballot)"

text \<open>\<^verbatim>\<open>Proposer\<close> is an array of 32 bytes.\<close>

definition ballot_wf :: "ballot \<Rightarrow> bool" where
  "ballot_wf b = (length (Proposer b) = 32)"

instantiation ballot :: linorder
begin

definition less_eq_ballot :: "ballot \<Rightarrow> ballot \<Rightarrow> bool" where
  "less_eq_ballot b c \<longleftrightarrow> Counter b < Counter c \<or> Counter b = Counter c \<and> Proposer b \<le> Proposer c"

definition less_ballot :: "ballot \<Rightarrow> ballot \<Rightarrow> bool" where
  "less_ballot b c \<longleftrightarrow> Counter b < Counter c \<or> Counter b = Counter c \<and> Proposer b < Proposer c"

instance
  by standard (auto simp: less_eq_ballot_def less_ballot_def intro: ballot.expand)

end

section \<open>Order\<close>

lemma Ballot_Compare_compare3: "Ballot_Compare b c = compare3 b c"
  by (cases b; cases c) (auto simp: Ballot_Compare_def compare3_def less_ballot_def)

lemma Ballot_Compare_simps [simp]:
  "(Ballot_Compare b c < 0) = (b < c)" "(Ballot_Compare b c > 0) = (c < b)"
  "(Ballot_Compare b c \<le> 0) = (b \<le> c)" "(Ballot_Compare b c \<ge> 0) = (c \<le> b)"
  "(Ballot_Compare b c = 0) = (b = c)"
  by (simp_all add: Ballot_Compare_compare3)

lemma IsZero_iff [simp]: "IsZero b \<longleftrightarrow> b = zero_ballot"
  by (cases b) (simp add: IsZero_def zero_ballot_def)

lemma of_char_pos: "c \<noteq> CHR 0x00 \<Longrightarrow> 0 < (of_char c :: nat)"
proof (rule ccontr)
  assume "c \<noteq> CHR 0x00" "\<not> 0 < (of_char c :: nat)"
  then have "char_of (of_char c :: nat) = char_of (0 :: nat)" by simp
  moreover have "char_of (0 :: nat) = CHR 0x00" by code_simp
  ultimately show False using \<open>c \<noteq> CHR 0x00\<close> by simp
qed

lemma zero_id_least: "length i = 32 \<Longrightarrow> zero_id \<le> i"
proof -
  have "replicate n (CHR 0x00) \<le> i" if "length i = n" for n i
    using that
  proof (induction n arbitrary: i)
    case (Suc n)
    then obtain c cs where "i = c # cs" "length cs = n" by (cases i) auto
    with Suc.IH [of cs] show ?case
      by (cases "c = CHR 0x00") (auto simp: less_char_def le_less of_char_pos)
  qed simp
  then show "length i = 32 \<Longrightarrow> zero_id \<le> i" unfolding zero_id_def by blast
qed

lemma zero_ballot_least: "ballot_wf b \<Longrightarrow> zero_ballot \<le> b"
  by (auto simp: zero_ballot_def less_eq_ballot_def ballot_wf_def word_gt_0 intro: zero_id_least)

lemma ballot_wf_zero [simp]: "ballot_wf zero_ballot"
  by (simp add: ballot_wf_def zero_ballot_def)

section \<open>Encoding\<close>

lemma length_Bytes: "ballot_wf b \<Longrightarrow> length (Bytes b) = (if b = zero_ballot then 0 else 40)"
  by (simp add: Bytes_def ballot_wf_def)

lemma ParseBallot_Bytes [simp]: "ballot_wf b \<Longrightarrow> ParseBallot (Bytes b) = Some b"
  by (auto simp: ParseBallot_def Bytes_def BallotSize_def ballot_wf_def)

lemma parse_ballot0_Bytes [simp]: "ballot_wf b \<Longrightarrow> parse_ballot0 (Bytes b) = b"
  by (simp add: parse_ballot0_def)

lemma ParseBallot_wf: "ParseBallot x = Some b \<Longrightarrow> ballot_wf b"
  by (auto simp: ParseBallot_def ballot_wf_def zero_ballot_def split: if_splits)

lemma parse_ballot0_wf [simp]: "ballot_wf (parse_ballot0 x)"
  by (auto simp: parse_ballot0_def ParseBallot_wf split: option.splits)

lemma parse_ballot0_Nil [simp]: "parse_ballot0 [] = zero_ballot"
  by (simp add: parse_ballot0_def ParseBallot_def)

lemma append_less_append:
  "length a = length b \<Longrightarrow> (a @ x < b @ y) = (a < b \<or> a = b \<and> x < (y :: bytes))"
  by (induction a b rule: list_induct2) auto

lemma Bytes_less_iff:
  assumes "ballot_wf b" "ballot_wf c"
  shows "(Bytes b < Bytes c) = (b < c)"
proof (cases "b = zero_ballot \<or> c = zero_ballot")
  case True
  have pos: "[] < Bytes x" if "x \<noteq> zero_ballot" "ballot_wf x" for x
    using length_Bytes [OF that(2)] that(1) by (cases "Bytes x") auto
  have zero: "Bytes zero_ballot = []" by (simp add: Bytes_def)
  show ?thesis
    using True assms zero_ballot_least [of b] zero_ballot_least [of c] pos [of b] pos [of c]
    by (cases "b = zero_ballot"; cases "c = zero_ballot") (auto simp: zero)
next
  case False
  then have "(Bytes b < Bytes c) =
      (put_u64 (Counter b) < put_u64 (Counter c) \<or>
       put_u64 (Counter b) = put_u64 (Counter c) \<and> Proposer b < Proposer c)"
    by (simp add: Bytes_def append_less_append)
  also have "\<dots> = (b < c)"
    by (auto simp: put_u64_less_iff less_ballot_def put_u64_inj)
  finally show ?thesis .
qed

section \<open>Properties\<close>

text \<open>
  C29: The encoding of a ballot parses back to it, and encodings compare as byte strings as the
  ballots compare, the empty encoding of the zero ballot lowest.
\<close>

theorem Ballot_encoding:
  assumes "ballot_wf b" "ballot_wf c"
  shows "ParseBallot (Bytes b) = Some b \<and> compare3 (Bytes b) (Bytes c) = Ballot_Compare b c"
  using assms Bytes_less_iff [OF assms] Bytes_less_iff [OF assms(2,1)]
  by (auto simp: Ballot_Compare_compare3 compare3_def dest: arg_cong [of _ _ ParseBallot])

theorem Ballot_encoding_witness:
  "compare3 (Bytes (Ballot 255 zero_id)) (Bytes (Ballot 256 zero_id)) = Ballot_Compare (Ballot 255 zero_id) (Ballot 256 zero_id)"
  using Ballot_encoding [of "Ballot 255 zero_id" "Ballot 256 zero_id"] by (simp add: ballot_wf_def)

end
