(* ===== verification/Codec.thy ===== *)
theory Codec
  imports Prelude
begin

text \<open>
  A concrete family of codecs. The repository encodes with CBOR through the two functions of
  \<^verbatim>\<open>codec/codec.go\<close>, which are a parameter wherever they are used (\<open>codec_ok\<close> of the
  prelude is the round trip they promise). The self-delimiting encodings below show that the
  promise can be kept for every type the program encodes: the codecs built from them are the
  instances the examples use.
\<close>

section \<open>Definitions\<close>

text \<open>A pickler writes a value and reads one back from the front of a byte string.\<close>

record 'a pickler =
  pput :: "'a \<Rightarrow> bytes"
  pget :: "bytes \<Rightarrow> ('a \<times> bytes) option"

definition codec_of :: "'a pickler \<Rightarrow> 'a codec" where
  "codec_of p = \<lparr> Marshal = pput p,
     Unmarshal = (\<lambda>b. case pget p b of Some (x, []) \<Rightarrow> Some x | _ \<Rightarrow> None) \<rparr>"

text \<open>The interface: what is written is read back, and the rest is left.\<close>

locale pickling =
  fixes p :: "'a pickler"
  assumes pget_pput: "pget p (pput p x @ rest) = Some (x, rest)"
begin

lemma codec_ok: "codec_ok (codec_of p)"
  using pget_pput [of _ "[]"] by (simp add: codec_ok_def codec_of_def)

lemma pput_inj: "pput p x = pput p y \<Longrightarrow> x = y"
  using pget_pput [of x "[]"] pget_pput [of y "[]"] by simp

end

fun get_nat_p :: "bytes \<Rightarrow> (nat \<times> bytes) option" where
  "get_nat_p [] = None"
| "get_nat_p (c # b) = (if c = CHR 0x00 then Some (0, b) else map_option (apfst Suc) (get_nat_p b))"

definition nat_p :: "nat pickler" where
  "nat_p = \<lparr> pput = (\<lambda>n. replicate n CHR 0x01 @ [CHR 0x00]), pget = get_nat_p \<rparr>"

definition char_p :: "char pickler" where
  "char_p = \<lparr> pput = (\<lambda>c. [c]), pget = (\<lambda>b. case b of [] \<Rightarrow> None | c # r \<Rightarrow> Some (c, r)) \<rparr>"

definition pair_p :: "'a pickler \<Rightarrow> 'b pickler \<Rightarrow> ('a \<times> 'b) pickler" where
  "pair_p p q = \<lparr> pput = (\<lambda>(x, y). pput p x @ pput q y),
     pget = (\<lambda>b. case pget p b of None \<Rightarrow> None
       | Some (x, r) \<Rightarrow> (case pget q r of None \<Rightarrow> None | Some (y, r) \<Rightarrow> Some ((x, y), r))) \<rparr>"

text \<open>A pickler for a type in bijection with another one.\<close>

definition map_p :: "('b \<Rightarrow> 'a) \<Rightarrow> ('a \<Rightarrow> 'b) \<Rightarrow> 'a pickler \<Rightarrow> 'b pickler" where
  "map_p f g p = \<lparr> pput = (\<lambda>y. pput p (f y)), pget = (\<lambda>b. map_option (apfst g) (pget p b)) \<rparr>"

fun get_many :: "'a pickler \<Rightarrow> nat \<Rightarrow> bytes \<Rightarrow> ('a list \<times> bytes) option" where
  "get_many p 0 b = Some ([], b)"
| "get_many p (Suc n) b =
    (case pget p b of None \<Rightarrow> None | Some (x, r) \<Rightarrow> map_option (apfst (Cons x)) (get_many p n r))"

definition list_p :: "'a pickler \<Rightarrow> 'a list pickler" where
  "list_p p = \<lparr> pput = (\<lambda>xs. pput nat_p (length xs) @ concat (map (pput p) xs)),
     pget = (\<lambda>b. case pget nat_p b of None \<Rightarrow> None | Some (n, r) \<Rightarrow> get_many p n r) \<rparr>"

definition bytes_p :: "bytes pickler" where
  "bytes_p = list_p char_p"

definition int_p :: "int pickler" where
  "int_p = map_p (\<lambda>i. (nat i, nat (- i))) (\<lambda>(a, b). int a - int b) (pair_p nat_p nat_p)"

definition bool_p :: "bool pickler" where
  "bool_p = map_p (\<lambda>b. if b then 1 else 0) (\<lambda>n. n \<noteq> 0) nat_p"

definition u64_p :: "u64 pickler" where
  "u64_p = map_p unat of_nat nat_p"

definition u32_p :: "u32 pickler" where
  "u32_p = map_p unat of_nat nat_p"

definition u8_p :: "u8 pickler" where
  "u8_p = map_p unat of_nat nat_p"

definition option_p :: "'a pickler \<Rightarrow> 'a option pickler" where
  "option_p p = map_p (\<lambda>x. case x of None \<Rightarrow> [] | Some y \<Rightarrow> [y])
     (\<lambda>xs. case xs of [] \<Rightarrow> None | y # _ \<Rightarrow> Some y) (list_p p)"

section \<open>Round trips\<close>

interpretation nat_p: pickling nat_p
proof
  show "pget nat_p (pput nat_p n @ rest) = Some (n, rest)" for n rest
    by (induction n) (auto simp: nat_p_def)
qed

interpretation char_p: pickling char_p
  by unfold_locales (simp add: char_p_def)

lemma pickling_pair: "pickling p \<Longrightarrow> pickling q \<Longrightarrow> pickling (pair_p p q)"
  by (auto simp: pickling_def pair_p_def)

lemma pickling_map: "pickling p \<Longrightarrow> (\<And>y. g (f y) = y) \<Longrightarrow> pickling (map_p f g p)"
  by (auto simp: pickling_def map_p_def)

lemma get_many_ok: "pickling p \<Longrightarrow> get_many p (length xs) (concat (map (pput p) xs) @ rest) = Some (xs, rest)"
  by (induction xs) (auto simp: pickling_def)

lemma pickling_list: "pickling p \<Longrightarrow> pickling (list_p p)"
  using nat_p.pget_pput get_many_ok by (auto simp: pickling_def list_p_def)

lemma pickling_option: "pickling p \<Longrightarrow> pickling (option_p p)"
  unfolding option_p_def by (intro pickling_map pickling_list) (auto split: option.splits)

interpretation bytes_p: pickling bytes_p
  unfolding bytes_p_def by (intro pickling_list char_p.pickling_axioms)

interpretation int_p: pickling int_p
  unfolding int_p_def by (intro pickling_map pickling_pair nat_p.pickling_axioms) auto

interpretation bool_p: pickling bool_p
  unfolding bool_p_def by (intro pickling_map nat_p.pickling_axioms) auto

interpretation u64_p: pickling u64_p
  unfolding u64_p_def by (intro pickling_map nat_p.pickling_axioms) simp

interpretation u32_p: pickling u32_p
  unfolding u32_p_def by (intro pickling_map nat_p.pickling_axioms) simp

interpretation u8_p: pickling u8_p
  unfolding u8_p_def by (intro pickling_map nat_p.pickling_axioms) simp

lemmas pickling_intros = pickling_pair pickling_list pickling_option nat_p.pickling_axioms
  bytes_p.pickling_axioms int_p.pickling_axioms bool_p.pickling_axioms u64_p.pickling_axioms
  u32_p.pickling_axioms u8_p.pickling_axioms

end
