(* ===== verification/Wire.thy ===== *)
theory Wire
  imports Codec
begin

text \<open>
  Frames: \<^verbatim>\<open>wire/wire.go\<close>. The payload type \<^verbatim>\<open>Msg\<close> is modelled with the fields that the
  catalog operations read and write (the others stay at their zero value in those messages);
  a stream is the byte string still to be read. The lemmas show that frames written one after
  the other are read back, that a cut stream never yields a frame, and the size limit.
\<close>

section \<open>Definitions\<close>

definition MaxFrame :: nat where "MaxFrame = 16 * 2 ^ 20"
definition MaxPageBytes :: nat where "MaxPageBytes = 4 * 2 ^ 20"

definition TErr :: int where "TErr = 10"
definition TOK :: int where "TOK = 53"
definition TPrepare :: int where "TPrepare = 64"
definition TAccept :: int where "TAccept = 65"
definition TRead :: int where "TRead = 66"
definition TScan :: int where "TScan = 67"
definition TInstall :: int where "TInstall = 68"
definition TPurge :: int where "TPurge = 69"
definition TMarker :: int where "TMarker = 70"
definition TSeed :: int where "TSeed = 71"
definition TPromise :: int where "TPromise = 80"
definition TConflict :: int where "TConflict = 81"
definition TAccepted :: int where "TAccepted = 82"
definition TReadReply :: int where "TReadReply = 83"
definition TScanReply :: int where "TScanReply = 84"
definition TInstalled :: int where "TInstalled = 85"

definition CodeStaleView :: string where "CodeStaleView = ''stale-view''"
definition CodeBadRequest :: string where "CodeBadRequest = ''bad-request''"
definition CodeInternal :: string where "CodeInternal = ''internal''"
definition CodeNeedView :: string where "CodeNeedView = ''need-view''"
definition CodeExpired :: string where "CodeExpired = ''expired''"
definition CodeAmnesiac :: string where "CodeAmnesiac = ''amnesiac''"
definition CodeRetired :: string where "CodeRetired = ''retired''"

record scan_row =
  srReg :: bytes
  srPromised :: bytes
  srAccepted :: bytes
  srValue :: bytes
  srHasValue :: bool

record msg =
  mType :: int
  mClusterID :: bytes
  mIncarnation :: u64
  mEpoch :: u64
  mCode :: string
  mText :: string
  mView :: bytes
  mPrefix :: bytes
  mAfter :: bytes
  mLimit :: int
  mNext :: bytes
  mRetryAfter :: int
  mReg :: bytes
  mBallot :: bytes
  mValue :: bytes
  mHasValue :: bool
  mAccepted :: bytes
  mPromised :: bytes
  mNotAfter :: int
  mRows :: "scan_row list"
  mMore :: bool
  mSince :: u64

text \<open>\<^verbatim>\<open>&Msg{Type: t}\<close>: every other field is zero.\<close>

definition Msg :: "int \<Rightarrow> msg" where
  "Msg t = \<lparr> mType = t, mClusterID = [], mIncarnation = 0, mEpoch = 0, mCode = [], mText = [],
     mView = [], mPrefix = [], mAfter = [], mLimit = 0, mNext = [], mRetryAfter = 0, mReg = [],
     mBallot = [], mValue = [], mHasValue = False, mAccepted = [], mPromised = [], mNotAfter = 0,
     mRows = [], mMore = False, mSince = 0 \<rparr>"

text \<open>\<open>ShortFrame\<close> carries the error it wraps.\<close>

datatype wire_error = EOF | UnexpectedEOF | TooLarge nat | ShortFrame wire_error | DecodeFrame

definition WriteMsg :: "msg codec \<Rightarrow> msg \<Rightarrow> (wire_error, bytes) res" where
  "WriteMsg c m =
    (let payload = Marshal c m
     in if length payload > MaxFrame then Inl (TooLarge (length payload))
        else Inr (be_bytes 4 (length payload) @ payload))"

text \<open>\<^verbatim>\<open>io.ReadFull\<close> of \<open>n\<close> bytes; what is left of the stream comes with the result.\<close>

definition ReadFull :: "nat \<Rightarrow> bytes \<Rightarrow> (wire_error, bytes) res \<times> bytes" where
  "ReadFull n s =
    (if n \<le> length s then (Inr (take n s), drop n s)
     else if s = [] then (Inl EOF, []) else (Inl UnexpectedEOF, []))"

definition ReadMsg :: "msg codec \<Rightarrow> bytes \<Rightarrow> (wire_error, msg) res \<times> bytes" where
  "ReadMsg c s =
    (case ReadFull 4 s of
       (Inl e, s) \<Rightarrow> (Inl e, s)
     | (Inr hdr, s) \<Rightarrow>
         (let n = be_nat hdr
          in if n > MaxFrame then (Inl (TooLarge n), s)
             else case ReadFull n s of
                    (Inl e, s) \<Rightarrow> (Inl (ShortFrame e), s)
                  | (Inr payload, s) \<Rightarrow>
                      (case Unmarshal c payload of
                         None \<Rightarrow> (Inl DecodeFrame, s)
                       | Some m \<Rightarrow> (Inr m, s))))"

record remote_error =
  reCode :: string
  reText :: string
  reView :: bytes
  reRetryAfter :: int

definition Error_Is :: "remote_error \<Rightarrow> remote_error \<Rightarrow> bool" where
  "Error_Is e t = (reCode t = reCode e \<and> (reText t = [] \<or> reText t = reText e))"

text \<open>Durations are nanoseconds.\<close>

definition ErrorFromMsg :: "msg \<Rightarrow> remote_error" where
  "ErrorFromMsg m = \<lparr> reCode = mCode m, reText = mText m, reView = mView m,
     reRetryAfter = mRetryAfter m * 1000000 \<rparr>"

definition ErrMsg :: "string \<Rightarrow> string \<Rightarrow> msg" where
  "ErrMsg code text = (Msg TErr)\<lparr>mCode := code, mText := text\<rparr>"

definition WriteErr :: "msg codec \<Rightarrow> string \<Rightarrow> string \<Rightarrow> (wire_error, bytes) res" where
  "WriteErr c code text = WriteMsg c (ErrMsg code text)"

datatype expect_error = ReadError wire_error | Remote remote_error | Protocol int int

definition Expect :: "msg codec \<Rightarrow> bytes \<Rightarrow> int \<Rightarrow> (expect_error, msg) res \<times> bytes" where
  "Expect c s want =
    (case ReadMsg c s of
       (Inl e, s) \<Rightarrow> (Inl (ReadError e), s)
     | (Inr m, s) \<Rightarrow>
         if mType m = TErr then (Inl (Remote (ErrorFromMsg m)), s)
         else if want \<noteq> 0 \<and> mType m \<noteq> want then (Inl (Protocol (mType m) want), s)
         else (Inr m, s))"

text \<open>\<open>Inl i\<close>: the key at position \<open>i\<close> has the wrong length.\<close>

fun keys32_from :: "nat \<Rightarrow> bytes list \<Rightarrow> (nat, obj_key list) res" where
  "keys32_from i [] = Inr []"
| "keys32_from i (b # bs) =
    (if length b \<noteq> 32 then Inl i
     else case keys32_from (Suc i) bs of Inl e \<Rightarrow> Inl e | Inr ks \<Rightarrow> Inr (to32 b # ks))"

definition Keys32 :: "bytes list \<Rightarrow> (nat, obj_key list) res" where
  "Keys32 raw = keys32_from 0 raw"

definition RawKeys :: "obj_key list \<Rightarrow> bytes list" where
  "RawKeys keys = keys"

text \<open>Reading a whole stream: frames until it ends, and how it ends.\<close>

fun write_all :: "msg codec \<Rightarrow> msg list \<Rightarrow> (wire_error, bytes) res" where
  "write_all c [] = Inr []"
| "write_all c (m # ms) =
    (case WriteMsg c m of
       Inl e \<Rightarrow> Inl e
     | Inr b \<Rightarrow> (case write_all c ms of Inl e \<Rightarrow> Inl e | Inr bs \<Rightarrow> Inr (b @ bs)))"

text \<open>A frame consumes at least its header, so the stream's length bounds the number of frames.\<close>

fun read_frames :: "nat \<Rightarrow> msg codec \<Rightarrow> bytes \<Rightarrow> msg list \<times> wire_error" where
  "read_frames 0 c s = ([], EOF)"
| "read_frames (Suc k) c s =
    (case ReadMsg c s of
       (Inl e, s) \<Rightarrow> ([], e)
     | (Inr m, s) \<Rightarrow> apfst (Cons m) (read_frames k c s))"

definition read_all :: "msg codec \<Rightarrow> bytes \<Rightarrow> msg list \<times> wire_error" where
  "read_all c s = read_frames (Suc (length s)) c s"

text \<open>A concrete codec of messages.\<close>

definition scan_row_p :: "scan_row pickler" where
  "scan_row_p = map_p (\<lambda>r. (srReg r, srPromised r, srAccepted r, srValue r, srHasValue r))
     (\<lambda>(a, b, c, d, e). \<lparr> srReg = a, srPromised = b, srAccepted = c, srValue = d, srHasValue = e \<rparr>)
     (pair_p bytes_p (pair_p bytes_p (pair_p bytes_p (pair_p bytes_p bool_p))))"

definition msg_p :: "msg pickler" where
  "msg_p = map_p
     (\<lambda>m. ((mType m, mClusterID m, mIncarnation m, mEpoch m, mCode m, mText m, mView m),
           (mPrefix m, mAfter m, mLimit m, mNext m, mRetryAfter m, mReg m, mBallot m),
           (mValue m, mHasValue m, mAccepted m, mPromised m, mNotAfter m, mRows m, mMore m, mSince m)))
     (\<lambda>((a, b, c, d, e, f, g), (h, i, j, k, l, m, n), (o', p, q, r, s, t, u, v)).
        \<lparr> mType = a, mClusterID = b, mIncarnation = c, mEpoch = d, mCode = e, mText = f, mView = g,
          mPrefix = h, mAfter = i, mLimit = j, mNext = k, mRetryAfter = l, mReg = m, mBallot = n,
          mValue = o', mHasValue = p, mAccepted = q, mPromised = r, mNotAfter = s, mRows = t,
          mMore = u, mSince = v \<rparr>)
     (pair_p (pair_p int_p (pair_p bytes_p (pair_p u64_p (pair_p u64_p (pair_p bytes_p (pair_p bytes_p bytes_p))))))
       (pair_p (pair_p bytes_p (pair_p bytes_p (pair_p int_p (pair_p bytes_p (pair_p int_p (pair_p bytes_p bytes_p))))))
         (pair_p bytes_p (pair_p bool_p (pair_p bytes_p (pair_p bytes_p (pair_p int_p
           (pair_p (list_p scan_row_p) (pair_p bool_p u64_p)))))))))"

definition msg_codec :: "msg codec" where
  "msg_codec = codec_of msg_p"

lemmas wire_types [simp] = TErr_def TOK_def TPrepare_def TAccept_def TRead_def TScan_def
  TInstall_def TPurge_def TMarker_def TSeed_def TPromise_def TConflict_def TAccepted_def
  TReadReply_def TScanReply_def TInstalled_def

lemmas wire_codes = CodeStaleView_def CodeBadRequest_def CodeInternal_def CodeNeedView_def
  CodeExpired_def CodeAmnesiac_def CodeRetired_def

section \<open>Round trips\<close>

interpretation scan_row_p: pickling scan_row_p
  unfolding scan_row_p_def by (intro pickling_map pickling_intros) simp

interpretation msg_p: pickling msg_p
  unfolding msg_p_def by (intro pickling_map pickling_intros scan_row_p.pickling_axioms) simp

lemma msg_codec_ok [simp]: "codec_ok msg_codec"
  unfolding msg_codec_def by (rule msg_p.codec_ok)

lemma MaxFrame_header: "n \<le> MaxFrame \<Longrightarrow> be_nat (be_bytes 4 n) = n"
  by (rule be_nat_be_bytes_id) (simp add: MaxFrame_def)

lemma ReadFull_append [simp]: "length a = n \<Longrightarrow> ReadFull n (a @ s) = (Inr a, s)"
  by (simp add: ReadFull_def)

lemma ReadMsg_WriteMsg:
  assumes "codec_ok c" "WriteMsg c m = Inr b"
  shows "ReadMsg c (b @ rest) = (Inr m, rest)"
proof -
  let ?p = "Marshal c m"
  have b: "b = be_bytes 4 (length ?p) @ ?p" "length ?p \<le> MaxFrame"
    using assms(2) by (auto simp: WriteMsg_def Let_def split: if_splits)
  then show ?thesis using assms(1) by (simp add: ReadMsg_def Let_def MaxFrame_header)
qed

lemma length_WriteMsg: "WriteMsg c m = Inr b \<Longrightarrow> 4 \<le> length b"
  by (auto simp: WriteMsg_def Let_def split: if_splits)

lemma ReadMsg_prefix:
  assumes "WriteMsg c m = Inr b" "strict_prefix s b"
  shows "ReadMsg c s = (Inl (if s = [] then EOF else if length s < 4 then UnexpectedEOF
      else if length s = 4 then ShortFrame EOF else ShortFrame UnexpectedEOF), [])"
proof -
  obtain p where b: "b = be_bytes 4 (length p) @ p" "length p \<le> MaxFrame"
    using assms(1) by (auto simp: WriteMsg_def Let_def split: if_splits)
  obtain t where t: "b = s @ t" "t \<noteq> []"
    using assms(2) by (auto elim: strict_prefixE')
  show ?thesis
  proof (cases "length s < 4")
    case True
    then show ?thesis by (auto simp: ReadMsg_def ReadFull_def)
  next
    case False
    then have hd: "take 4 s = be_bytes 4 (length p)"
      using arg_cong [OF t(1), of "take 4"] b(1) by simp
    have "length s < length b" using t by simp
    moreover have "length b = 4 + length p" by (simp add: b(1))
    ultimately have "length (drop 4 s) < length p" using False by simp
    then show ?thesis
      using False hd b(2) by (auto simp: ReadMsg_def ReadFull_def Let_def MaxFrame_header)
  qed
qed

lemma read_frames_write_all:
  assumes "codec_ok c" "write_all c ms = Inr bs" "strict_prefix s b" "WriteMsg c m = Inr b"
    "length bs + length s < k"
  shows "read_frames k c (bs @ s) =
    (ms, if s = [] then EOF else if length s < 4 then UnexpectedEOF
      else if length s = 4 then ShortFrame EOF else ShortFrame UnexpectedEOF)"
  using assms(2,5)
proof (induction ms arbitrary: bs k)
  case Nil
  then obtain j where "k = Suc j" by (cases k) auto
  moreover have "ReadMsg c s = (Inl (if s = [] then EOF else if length s < 4 then UnexpectedEOF
      else if length s = 4 then ShortFrame EOF else ShortFrame UnexpectedEOF), [])"
    by (rule ReadMsg_prefix [OF assms(4,3)])
  ultimately show ?case using Nil by simp
next
  case (Cons a ms)
  then obtain b1 b2 where b: "WriteMsg c a = Inr b1" "write_all c ms = Inr b2" "bs = b1 @ b2"
    by (auto split: sum.splits)
  obtain j where "k = Suc j" using Cons.prems(2) by (cases k) auto
  moreover have "length b2 + length s < j"
    using Cons.prems(2) b(3) length_WriteMsg [OF b(1)] \<open>k = Suc j\<close> by simp
  ultimately show ?case
    using Cons.IH [OF b(2)] ReadMsg_WriteMsg [OF assms(1) b(1), of "b2 @ s"] b(3) by simp
qed

section \<open>Properties\<close>

text \<open>
  C30: Frames written one after the other to a stream are read back in order and nothing else,
  and a stream that is cut in the middle of a further frame yields the frames before the cut
  and then an error. The error is a clean end when the cut is at a frame boundary, an unexpected
  end within the header, a short frame that wraps an unexpected end within the payload, and, against
  the comment of \<^verbatim>\<open>ReadMsg\<close>, a short frame that wraps a clean end right after the header. The codec's
  round trip is the only assumption.
\<close>

theorem frames_roundtrip:
  assumes "codec_ok c" "write_all c ms = Inr bs" "WriteMsg c m = Inr b" "strict_prefix s b"
  shows "read_all c (bs @ s) =
    (ms, if s = [] then EOF else if length s < 4 then UnexpectedEOF
      else if length s = 4 then ShortFrame EOF else ShortFrame UnexpectedEOF)"
  unfolding read_all_def using assms by (intro read_frames_write_all) auto

theorem frames_roundtrip_witness:
  "\<exists>b. write_all msg_codec [Msg TOK] = Inr b \<and> read_all msg_codec (b @ take 3 b) = ([Msg TOK], UnexpectedEOF) \<and>
    read_all msg_codec (b @ take 4 b) = ([Msg TOK], ShortFrame EOF)"
proof -
  let ?p = "Marshal msg_codec (Msg TOK)"
  have p: "0 < length ?p" "length ?p \<le> MaxFrame"
    by (simp_all add: msg_codec_def codec_of_def msg_p_def Msg_def map_p_def pair_p_def
        list_p_def int_p_def bytes_p_def u64_p_def bool_p_def nat_p_def MaxFrame_def)
  then obtain b where b: "WriteMsg msg_codec (Msg TOK) = Inr b" and "b = be_bytes 4 (length ?p) @ ?p"
    by (simp add: WriteMsg_def Let_def)
  then have "length b = 4 + length ?p" by simp
  with p(1) have len: "4 < length b" by linarith
  have "write_all msg_codec [Msg TOK] = Inr b" using b by simp
  moreover have "strict_prefix (take n b) b" "take n b \<noteq> []" "length (take n b) = n" if "n \<in> {3, 4}" for n
    using len that by (auto simp: strict_prefix_def take_is_prefix)
  ultimately show ?thesis
    using frames_roundtrip [OF msg_codec_ok _ b, of "[Msg TOK]" b "take 3 b"]
      frames_roundtrip [OF msg_codec_ok _ b, of "[Msg TOK]" b "take 4 b"] by auto
qed

text \<open>
  A frame whose payload exceeds the limit is never written, and one whose header claims
  more than the limit is refused before any of its payload is read.
\<close>

theorem frame_limit:
  "(length (Marshal c m) > MaxFrame \<longleftrightarrow> WriteMsg c m = Inl (TooLarge (length (Marshal c m)))) \<and>
    (length hdr = 4 \<and> be_nat hdr > MaxFrame \<longrightarrow> ReadMsg c (hdr @ s) = (Inl (TooLarge (be_nat hdr)), s))"
  by (auto simp: WriteMsg_def ReadMsg_def Let_def)

theorem frame_limit_witness:
  "ReadMsg msg_codec (replicate 4 CHR 0xff @ s) = (Inl (TooLarge 4294967295), s)"
proof -
  have "be_nat (replicate 4 CHR 0xff) = 4294967295" by code_simp
  then show ?thesis
    using frame_limit [of msg_codec "Msg TOK" "replicate 4 CHR 0xff" s] by (simp add: MaxFrame_def)
qed

text \<open>
  \<^verbatim>\<open>Keys32\<close> accepts exactly the lists of 32-byte keys and returns them unchanged.\<close>

theorem Keys32_exact: "Keys32 raw = Inr keys \<longleftrightarrow> RawKeys keys = raw \<and> (\<forall>k \<in> set raw. length k = 32)"
proof -
  have "keys32_from i raw = Inr raw" if "\<forall>k \<in> set raw. length k = 32" for i
    using that by (induction raw arbitrary: i) auto
  moreover have "\<exists>j. keys32_from i raw = Inl j" if "\<exists>k \<in> set raw. length k \<noteq> 32" for i
    using that
  proof (induction raw arbitrary: i)
    case (Cons b raw)
    show ?case
    proof (cases "length b = 32")
      case True
      with Cons.prems Cons.IH obtain j where "keys32_from (Suc i) raw = Inl j" by auto
      with True show ?thesis by simp
    qed simp
  qed simp
  ultimately show ?thesis unfolding Keys32_def RawKeys_def by (metis sum.distinct(1) sum.inject(2))
qed

theorem Keys32_exact_witness: "Keys32 [zero_id] = Inr [zero_id]"
  using Keys32_exact [of "[zero_id]" "[zero_id]"] by (simp add: RawKeys_def)

end
