(* ===== verification/Store.thy ===== *)
theory Store
  imports Prelude
begin

text \<open>
  The ordered key-value store under the acceptor and the node's metadata. Pebble is not part of
  the repository; what the program uses of it is an ordered map from byte strings to byte
  strings with point reads, atomic batches and iteration over a key range in key order. The
  interface is the locale \<open>kv_store\<close>; the sorted association list below implements it and is
  the database of the model.
\<close>

section \<open>Definitions\<close>

type_synonym db = "(bytes \<times> bytes) list"

definition db_get :: "bytes \<Rightarrow> db \<Rightarrow> bytes option" where
  "db_get k d = map_of d k"

fun db_set :: "bytes \<Rightarrow> bytes \<Rightarrow> db \<Rightarrow> db" where
  "db_set k v [] = [(k, v)]"
| "db_set k v ((k', v') # d) =
    (if k < k' then (k, v) # (k', v') # d
     else if k = k' then (k, v) # d
     else (k', v') # db_set k v d)"

definition db_delete :: "bytes \<Rightarrow> db \<Rightarrow> db" where
  "db_delete k d = filter (\<lambda>kv. fst kv \<noteq> k) d"

text \<open>Iteration with a lower bound (inclusive) and an upper bound (exclusive).\<close>

definition db_range :: "bytes \<Rightarrow> bytes \<Rightarrow> db \<Rightarrow> (bytes \<times> bytes) list" where
  "db_range lo up d = filter (\<lambda>kv. lo \<le> fst kv \<and> fst kv < up) d"

definition db_ok :: "db \<Rightarrow> bool" where
  "db_ok d = sorted_wrt (<) (map fst d)"

datatype batch_op = BSet bytes bytes | BDelete bytes

fun batch_apply :: "batch_op \<Rightarrow> db \<Rightarrow> db" where
  "batch_apply (BSet k v) d = db_set k v d"
| "batch_apply (BDelete k) d = db_delete k d"

fun op_key :: "batch_op \<Rightarrow> bytes" where
  "op_key (BSet k v) = k"
| "op_key (BDelete k) = k"

definition batch_commit :: "batch_op list \<Rightarrow> db \<Rightarrow> db" where
  "batch_commit ops d = fold batch_apply ops d"

text \<open>What a call meets: the time, and whether database reads and writes succeed.\<close>

record env =
  now :: int
  read_ok :: bool
  write_ok :: bool

section \<open>The interface\<close>

locale kv_store =
  fixes get :: "bytes \<Rightarrow> 's \<Rightarrow> bytes option"
    and set :: "bytes \<Rightarrow> bytes \<Rightarrow> 's \<Rightarrow> 's"
    and delete :: "bytes \<Rightarrow> 's \<Rightarrow> 's"
    and range :: "bytes \<Rightarrow> bytes \<Rightarrow> 's \<Rightarrow> (bytes \<times> bytes) list"
    and ok :: "'s \<Rightarrow> bool"
  assumes get_set: "ok s \<Longrightarrow> get k (set k' v s) = (if k = k' then Some v else get k s)"
    and get_delete: "ok s \<Longrightarrow> get k (delete k' s) = (if k = k' then None else get k s)"
    and set_range: "ok s \<Longrightarrow> List.set (range lo up s) = {(k, v). get k s = Some v \<and> lo \<le> k \<and> k < up}"
    and sorted_range: "ok s \<Longrightarrow> sorted_wrt (<) (map fst (range lo up s))"
    and ok_set: "ok s \<Longrightarrow> ok (set k v s)"
    and ok_delete: "ok s \<Longrightarrow> ok (delete k s)"
begin

text \<open>Two iterations over the same range of stores that agree there give the same pairs.\<close>

lemma range_cong:
  assumes "ok s" "ok t" "\<And>k. lo \<le> k \<Longrightarrow> k < up \<Longrightarrow> get k s = get k t"
  shows "range lo up s = range lo up t"
proof (rule map_sorted_distinct_set_unique [of fst])
  show "inj_on fst (List.set (range lo up s) \<union> List.set (range lo up t))"
    using assms by (auto simp: inj_on_def set_range)
  show "sorted (map fst (range lo up s))" "distinct (map fst (range lo up s))"
    "sorted (map fst (range lo up t))" "distinct (map fst (range lo up t))"
    using sorted_range [OF assms(1), of lo up] sorted_range [OF assms(2), of lo up]
    by (auto simp: strict_sorted_iff)
  show "List.set (range lo up s) = List.set (range lo up t)"
    using assms by (auto simp: set_range)
qed

lemma range_get: "ok s \<Longrightarrow> (k, v) \<in> List.set (range lo up s) \<Longrightarrow> get k s = Some v"
  by (simp add: set_range)

lemma distinct_range: "ok s \<Longrightarrow> distinct (map fst (range lo up s))"
  using sorted_range [of s lo up] by (simp add: strict_sorted_iff)

end

section \<open>The sorted list implements it\<close>

lemma db_get_set: "db_get k (db_set k' v d) = (if k = k' then Some v else db_get k d)"
  by (induction k' v d rule: db_set.induct) (auto simp: db_get_def)

lemma map_of_filter_fst: "map_of (filter (\<lambda>kv. P (fst kv)) d) k = (if P k then map_of d k else None)"
  by (induction d) auto

lemma db_get_delete: "db_get k (db_delete k' d) = (if k = k' then None else db_get k d)"
  by (simp add: db_get_def db_delete_def map_of_filter_fst [of "\<lambda>x. x \<noteq> k'"])

lemma fst_set_db_set: "fst ` set (db_set k v d) = insert k (fst ` set d)"
  by (induction k v d rule: db_set.induct) auto

lemma db_ok_set: "db_ok d \<Longrightarrow> db_ok (db_set k v d)"
proof (induction k v d rule: db_set.induct)
  case (2 k v k' v' d)
  then have "\<forall>y \<in> fst ` set (db_set k v d). k' < y" if "\<not> k < k'" "k \<noteq> k'"
    using that unfolding fst_set_db_set db_ok_def by auto
  with 2 show ?case by (auto simp: db_ok_def dest: less_trans)
qed (simp add: db_ok_def)

lemma db_ok_delete: "db_ok d \<Longrightarrow> db_ok (db_delete k d)"
  by (auto simp: db_ok_def db_delete_def sorted_wrt_map sorted_wrt_filter)

lemma set_db_range:
  assumes "db_ok d"
  shows "set (db_range lo up d) = {(k, v). db_get k d = Some v \<and> lo \<le> k \<and> k < up}"
proof -
  have "distinct (map fst d)" using assms by (simp add: db_ok_def strict_sorted_iff)
  then show ?thesis by (auto simp: db_range_def db_get_def)
qed

lemma sorted_db_range: "db_ok d \<Longrightarrow> sorted_wrt (<) (map fst (db_range lo up d))"
  by (auto simp: db_ok_def db_range_def sorted_wrt_map sorted_wrt_filter)

interpretation kv: kv_store db_get db_set db_delete db_range db_ok
  by unfold_locales (simp_all add: db_get_set db_get_delete set_db_range sorted_db_range db_ok_set db_ok_delete)

section \<open>Batches\<close>

lemma db_ok_batch: "db_ok d \<Longrightarrow> db_ok (batch_commit ops d)"
proof (induction ops arbitrary: d)
  case (Cons x ops)
  have "db_ok (batch_apply x d)" using Cons.prems by (cases x) (auto intro: kv.ok_set kv.ok_delete)
  with Cons.IH show ?case by (simp add: batch_commit_def)
qed (simp add: batch_commit_def)

lemma batch_commit_Nil [simp]: "batch_commit [] d = d"
  by (simp add: batch_commit_def)

lemma batch_commit_Cons [simp]: "batch_commit (x # ops) d = batch_commit ops (batch_apply x d)"
  by (simp add: batch_commit_def)

lemma batch_commit_append [simp]: "batch_commit (a @ b) d = batch_commit b (batch_commit a d)"
  by (simp add: batch_commit_def)

lemma db_get_deletes: "db_get k (batch_commit (map BDelete ks) d) = (if k \<in> set ks then None else db_get k d)"
  by (induction ks arbitrary: d) (auto simp: db_get_delete)

lemma db_get_untouched:
  "k \<notin> op_key ` set ops \<Longrightarrow> db_get k (batch_commit ops d) = db_get k d"
proof (induction ops arbitrary: d)
  case (Cons x ops)
  then show ?case by (cases x) (auto simp: db_get_set db_get_delete)
qed simp

end
