(* ===== verification/Acceptor.thy ===== *)
theory Acceptor
  imports Ballot Wire Store
begin

text \<open>
  The CASPaxos acceptor: \<^verbatim>\<open>paxos/acceptor.go\<close>. The state is the ordered database and the
  fields kept in memory; each handler maps a request to a reply and the next state. The clock
  and the outcome of database reads and writes are inputs (\<open>env\<close>), the codecs of rows, views
  and markers are a parameter (\<open>codecs\<close>). A handler is one step
  here. The source takes its mutex more than once in a request: for the epoch gate, for the check
  of retirement or amnesia, and for the update of the row, which is atomic; an install by another
  request between two of these is outside the model. The mutexes, the callbacks \<^verbatim>\<open>OnInstall\<close> and \<^verbatim>\<open>Alert\<close> and the error texts of
  the codec and the database are left out.
\<close>

section \<open>Definitions\<close>

definition rowPrefix :: bytes where "rowPrefix = ''r/''"
definition metaFloor :: bytes where "metaFloor = ''m/floor''"
definition metaMarker :: bytes where "metaMarker = ''m/marker''"
definition metaView :: bytes where "metaView = ''m/view''"
definition metaRetired :: bytes where "metaRetired = ''m/retired''"

record row =
  rPromised :: bytes
  rAccepted :: bytes
  rValue :: bytes
  rHasValue :: bool

definition empty_row :: row where
  "empty_row = \<lparr> rPromised = [], rAccepted = [], rValue = [], rHasValue = False \<rparr>"

record codecs =
  row_codec :: "row codec"
  view_codec :: "view codec"
  marker_codec :: "u64 codec"

definition codecs_ok :: "codecs \<Rightarrow> bool" where
  "codecs_ok cs \<longleftrightarrow> codec_ok (row_codec cs) \<and> codec_ok (view_codec cs) \<and> codec_ok (marker_codec cs)"

record acceptor =
  aSelf :: node_id
  aDB :: db
  aClosed :: bool
  aInstalled :: "view option"
  aMarker :: u64
  aHasMarker :: bool
  aRetired :: bool
  aFloor :: ballot

text \<open>
  \<^verbatim>\<open>Acceptor.get\<close>: \<open>rd\<close> tells for each key whether the database can read it. An error of the read
  is not reported and looks like an absent key.
\<close>

definition acc_get :: "(bytes \<Rightarrow> bool) \<Rightarrow> db \<Rightarrow> bytes \<Rightarrow> bytes option" where
  "acc_get rd db k = (if rd k then db_get k db else None)"

abbreviation reads_ok :: "bytes \<Rightarrow> bool" where "reads_ok \<equiv> (\<lambda>_. True)"

text \<open>\<open>None\<close>: the stored view does not decode and opening fails.\<close>

definition OpenAcceptor :: "codecs \<Rightarrow> (bytes \<Rightarrow> bool) \<Rightarrow> node_id \<Rightarrow> db \<Rightarrow> acceptor option" where
  "OpenAcceptor cs rd self db =
    (let a = \<lparr> aSelf = self, aDB = db, aClosed = False, aInstalled = None, aMarker = 0,
               aHasMarker = False, aRetired = False, aFloor = zero_ballot \<rparr>;
         a = (case acc_get rd db metaMarker of
                None \<Rightarrow> a
              | Some b \<Rightarrow> (case Unmarshal (marker_codec cs) b of
                  None \<Rightarrow> a
                | Some since \<Rightarrow> a\<lparr>aMarker := since, aHasMarker := True\<rparr>));
         a = (case acc_get rd db metaFloor of None \<Rightarrow> a | Some b \<Rightarrow> a\<lparr>aFloor := parse_ballot0 b\<rparr>);
         a = (case acc_get rd db metaRetired of None \<Rightarrow> a | Some b \<Rightarrow> a\<lparr>aRetired := True\<rparr>)
     in case acc_get rd db metaView of
          None \<Rightarrow> Some a
        | Some b \<Rightarrow> (case Unmarshal (view_codec cs) b of
            None \<Rightarrow> None
          | Some v \<Rightarrow> Some (a\<lparr>aInstalled := Some v\<rparr>)))"

definition Close :: "acceptor \<Rightarrow> acceptor" where
  "Close a = a\<lparr>aClosed := True\<rparr>"

text \<open>The boolean of a result says whether the call succeeded.\<close>

definition SetMarker :: "codecs \<Rightarrow> env \<Rightarrow> acceptor \<Rightarrow> u64 \<Rightarrow> bool \<times> acceptor" where
  "SetMarker cs e a since =
    (if \<not> write_ok e then (False, a)
     else (True, a\<lparr>aDB := batch_commit [BSet metaMarker (Marshal (marker_codec cs) since), BDelete metaRetired] (aDB a),
                   aMarker := since, aHasMarker := True, aRetired := False\<rparr>))"

definition row_keys :: "db \<Rightarrow> bytes list" where
  "row_keys d = map fst (db_range rowPrefix (rowPrefix @ [CHR 0xff]) d)"

text \<open>The guard of \<^verbatim>\<open>Install\<close>: the view is older, or the same epoch at no newer version.\<close>

definition not_newer :: "acceptor \<Rightarrow> view \<Rightarrow> bool" where
  "not_newer a v =
    (case aInstalled a of
       None \<Rightarrow> False
     | Some cur \<Rightarrow> (let c = Compare cur (vIncarnation v) (vEpoch v)
                   in c > 0 \<or> c = 0 \<and> vVersion v \<le> vVersion cur))"

definition Install :: "codecs \<Rightarrow> env \<Rightarrow> acceptor \<Rightarrow> view \<Rightarrow> bool \<times> acceptor" where
  "Install cs e a v =
    (if not_newer a v then (True, a)
     else let retire = (\<not> IsVoter v (aSelf a) \<and> \<not> aRetired a \<and> aHasMarker a);
              batch = [BSet metaView (Marshal (view_codec cs) v)] @
                (if retire
                 then [BSet metaRetired [CHR 0x01]] @
                      (if read_ok e then map BDelete (row_keys (aDB a)) else []) @
                      [BDelete metaFloor]
                 else [])
          in if \<not> write_ok e then (False, a)
             else let a = a\<lparr>aDB := batch_commit batch (aDB a), aInstalled := Some v\<rparr>
                  in (True, if retire then a\<lparr>aRetired := True, aFloor := zero_ballot\<rparr> else a))"

definition Amnesiac :: "acceptor \<Rightarrow> bool" where
  "Amnesiac a =
    (case aInstalled a of
       None \<Rightarrow> False
     | Some v \<Rightarrow> (case List.find (\<lambda>vo. voID vo = aSelf a) (vVoters v) of
         None \<Rightarrow> False
       | Some vo \<Rightarrow> \<not> aHasMarker a \<or> aMarker a \<noteq> voSince vo))"

text \<open>A row that is absent reads as the empty row; \<open>Inl ()\<close> is a failed read.\<close>

definition readRow :: "codecs \<Rightarrow> env \<Rightarrow> acceptor \<Rightarrow> bytes \<Rightarrow> (unit, row \<times> bool) res" where
  "readRow cs e a reg =
    (if \<not> read_ok e then Inl ()
     else case db_get (rowPrefix @ reg) (aDB a) of
            None \<Rightarrow> Inr (empty_row, False)
          | Some b \<Rightarrow> (case Unmarshal (row_codec cs) b of
              None \<Rightarrow> Inl ()
            | Some r \<Rightarrow> Inr (r, True)))"

definition writeRow :: "codecs \<Rightarrow> acceptor \<Rightarrow> bytes \<Rightarrow> row \<Rightarrow> acceptor" where
  "writeRow cs a reg r = a\<lparr>aDB := db_set (rowPrefix @ reg) (Marshal (row_codec cs) r) (aDB a)\<rparr>"

definition refuseIfForgetful :: "acceptor \<Rightarrow> msg option" where
  "refuseIfForgetful a =
    (if aRetired a then Some (ErrMsg CodeRetired ''acceptor retired'')
     else if Amnesiac a then Some (ErrMsg CodeAmnesiac ''acceptor state does not match the view'')
     else None)"

text \<open>The promise a request is held against: the floor stands in for an absent row.\<close>

definition held_promise :: "acceptor \<Rightarrow> row \<Rightarrow> bool \<Rightarrow> ballot" where
  "held_promise a r found =
    (let promised = parse_ballot0 (rPromised r)
     in if \<not> found \<and> Ballot_Compare (aFloor a) promised > 0 then aFloor a else promised)"

definition prepare :: "codecs \<Rightarrow> env \<Rightarrow> acceptor \<Rightarrow> msg \<Rightarrow> msg \<times> acceptor" where
  "prepare cs e a m =
    (case refuseIfForgetful a of
       Some r \<Rightarrow> (r, a)
     | None \<Rightarrow>
    (case ParseBallot (mBallot m) of
       None \<Rightarrow> (ErrMsg CodeBadRequest ''bad ballot'', a)
     | Some b \<Rightarrow>
       if IsZero b then (ErrMsg CodeBadRequest ''bad ballot'', a)
       else
    (case readRow cs e a (mReg m) of
       Inl _ \<Rightarrow> (ErrMsg CodeInternal '''', a)
     | Inr (r, found) \<Rightarrow>
       let promised = held_promise a r found
       in if Ballot_Compare b promised \<le> 0 then ((Msg TConflict)\<lparr>mBallot := Bytes promised\<rparr>, a)
          else let r = r\<lparr>rPromised := Bytes b\<rparr>
               in if \<not> write_ok e then (ErrMsg CodeInternal '''', a)
                  else ((Msg TPromise)\<lparr>mAccepted := rAccepted r, mValue := rValue r, mHasValue := rHasValue r\<rparr>,
                        writeRow cs a (mReg m) r))))"

definition accept :: "codecs \<Rightarrow> env \<Rightarrow> acceptor \<Rightarrow> msg \<Rightarrow> msg \<times> acceptor" where
  "accept cs e a m =
    (if aRetired a then (ErrMsg CodeRetired ''acceptor retired'', a)
     else
    (case ParseBallot (mBallot m) of
       None \<Rightarrow> (ErrMsg CodeBadRequest ''bad ballot'', a)
     | Some b \<Rightarrow>
       if IsZero b then (ErrMsg CodeBadRequest ''bad ballot'', a)
       else if mNotAfter m \<noteq> 0 \<and> now e > mNotAfter m then (ErrMsg CodeExpired ''accept past not_after'', a)
       else
    (case readRow cs e a (mReg m) of
       Inl _ \<Rightarrow> (ErrMsg CodeInternal '''', a)
     | Inr (r, found) \<Rightarrow>
       let promised = held_promise a r found; accepted = parse_ballot0 (rAccepted r)
       in if Ballot_Compare b promised < 0 then ((Msg TConflict)\<lparr>mBallot := Bytes promised\<rparr>, a)
          else if Ballot_Compare b accepted < 0 then ((Msg TConflict)\<lparr>mBallot := Bytes accepted\<rparr>, a)
          else let r = \<lparr> rPromised = Bytes b, rAccepted = Bytes b, rValue = mValue m, rHasValue = mHasValue m \<rparr>
               in if \<not> write_ok e then (ErrMsg CodeInternal '''', a)
                  else (Msg TAccepted, writeRow cs a (mReg m) r))))"

definition read :: "codecs \<Rightarrow> env \<Rightarrow> acceptor \<Rightarrow> msg \<Rightarrow> msg" where
  "read cs e a m =
    (case refuseIfForgetful a of
       Some r \<Rightarrow> r
     | None \<Rightarrow>
    (case readRow cs e a (mReg m) of
       Inl _ \<Rightarrow> ErrMsg CodeInternal ''''
     | Inr (r, _) \<Rightarrow> (Msg TReadReply)\<lparr>mAccepted := rAccepted r, mPromised := rPromised r,
                        mValue := rValue r, mHasValue := rHasValue r\<rparr>))"

text \<open>The loop of \<^verbatim>\<open>scan\<close>: the rows so far, their size, and whether there is more.\<close>

fun scan_loop :: "codecs \<Rightarrow> nat \<Rightarrow> (bytes \<times> bytes) list \<Rightarrow> scan_row list \<Rightarrow> nat \<Rightarrow> scan_row list \<times> bool" where
  "scan_loop cs limit [] rows sz = (rows, False)"
| "scan_loop cs limit ((k, b) # kvs) rows sz =
    (if length rows \<ge> limit \<or> sz \<ge> MaxPageBytes then (rows, True)
     else case Unmarshal (row_codec cs) b of
            None \<Rightarrow> scan_loop cs limit kvs rows sz
          | Some r \<Rightarrow>
              (let reg = drop (length rowPrefix) k
               in scan_loop cs limit kvs
                    (rows @ [\<lparr> srReg = reg, srPromised = rPromised r, srAccepted = rAccepted r,
                               srValue = rValue r, srHasValue = rHasValue r \<rparr>])
                    (sz + length reg + length (rValue r) + 2 * BallotSize)))"

definition scan_limit :: "int \<Rightarrow> nat" where
  "scan_limit limit = nat (if limit \<le> 0 \<or> limit > 100000 then 100000 else limit)"

definition scan_lower :: "msg \<Rightarrow> bytes" where
  "scan_lower m =
    (if length (mAfter m) > 0 then rowPrefix @ mAfter m @ [CHR 0x00] else rowPrefix @ mPrefix m)"

definition scan_upper :: "msg \<Rightarrow> bytes" where
  "scan_upper m =
    (if length (mPrefix m) = 0 then rowPrefix @ [CHR 0xff]
     else rowPrefix @ mPrefix m @ [CHR 0xff, CHR 0xff, CHR 0xff, CHR 0xff])"

definition scan :: "codecs \<Rightarrow> env \<Rightarrow> acceptor \<Rightarrow> msg \<Rightarrow> msg" where
  "scan cs e a m =
    (case refuseIfForgetful a of
       Some r \<Rightarrow> r
     | None \<Rightarrow>
       if \<not> read_ok e then ErrMsg CodeInternal ''''
       else let (rows, more) =
                  scan_loop cs (scan_limit (mLimit m)) (db_range (scan_lower m) (scan_upper m) (aDB a)) [] 0
            in (Msg TScanReply)\<lparr>mRows := rows, mMore := more,
                 mNext := (if length rows > 0 then srReg (last rows) else [])\<rparr>)"

definition purge :: "codecs \<Rightarrow> env \<Rightarrow> acceptor \<Rightarrow> msg \<Rightarrow> msg \<times> acceptor" where
  "purge cs e a m =
    (case ParseBallot (mBallot m) of
       None \<Rightarrow> (ErrMsg CodeBadRequest ''bad ballot'', a)
     | Some b \<Rightarrow>
       if IsZero b then (ErrMsg CodeBadRequest ''bad ballot'', a)
       else
    (case readRow cs e a (mReg m) of
       Inl _ \<Rightarrow> (ErrMsg CodeInternal '''', a)
     | Inr (r, found) \<Rightarrow>
       if \<not> found then (Msg TOK, a)
       else if Ballot_Compare (parse_ballot0 (rAccepted r)) b \<noteq> 0 then (Msg TOK, a)
       else let promised = parse_ballot0 (rPromised r);
                raise = (Ballot_Compare b (aFloor a) > 0);
                key = rowPrefix @ mReg m;
                batch = (if Ballot_Compare promised b = 0
                         then [BDelete key] @ (if raise then [BSet metaFloor (Bytes b)] else [])
                         else [BSet key (Marshal (row_codec cs) (r\<lparr>rAccepted := [], rValue := [], rHasValue := False\<rparr>))])
            in if \<not> write_ok e then (ErrMsg CodeInternal '''', a)
               else let a = a\<lparr>aDB := batch_commit batch (aDB a)\<rparr>
                    in (Msg TOK, if Ballot_Compare promised b = 0 \<and> raise then a\<lparr>aFloor := b\<rparr> else a)))"

text \<open>The batch of \<^verbatim>\<open>seed\<close>; the rows are read from the database before the batch is written.\<close>

fun seed_batch :: "codecs \<Rightarrow> env \<Rightarrow> acceptor \<Rightarrow> scan_row list \<Rightarrow> (unit, batch_op list) res" where
  "seed_batch cs e a [] = Inr []"
| "seed_batch cs e a (sr # srs) =
    (case readRow cs e a (srReg sr) of
       Inl _ \<Rightarrow> Inl ()
     | Inr (cur, _) \<Rightarrow>
         (let newAcc = parse_ballot0 (srAccepted sr)
          in if IsZero newAcc \<or> Ballot_Compare newAcc (parse_ballot0 (rAccepted cur)) \<le> 0
             then seed_batch cs e a srs
             else let cur = cur\<lparr>rAccepted := srAccepted sr, rValue := srValue sr, rHasValue := srHasValue sr\<rparr>;
                      cur = (if Ballot_Compare newAcc (parse_ballot0 (rPromised cur)) > 0
                             then cur\<lparr>rPromised := srAccepted sr\<rparr> else cur)
                  in case seed_batch cs e a srs of
                       Inl _ \<Rightarrow> Inl ()
                     | Inr ops \<Rightarrow> Inr (BSet (rowPrefix @ srReg sr) (Marshal (row_codec cs) cur) # ops)))"

definition seed :: "codecs \<Rightarrow> env \<Rightarrow> acceptor \<Rightarrow> msg \<Rightarrow> msg \<times> acceptor" where
  "seed cs e a m =
    (case seed_batch cs e a (mRows m) of
       Inl _ \<Rightarrow> (ErrMsg CodeInternal '''', a)
     | Inr batch \<Rightarrow>
         if \<not> write_ok e then (ErrMsg CodeInternal '''', a)
         else (Msg TOK, a\<lparr>aDB := batch_commit batch (aDB a)\<rparr>))"

text \<open>\<^verbatim>\<open>handle\<close>: operations that change the acceptor itself, then the epoch gate, then the rest.\<close>

definition handle_gated :: "codecs \<Rightarrow> env \<Rightarrow> acceptor \<Rightarrow> msg \<Rightarrow> msg \<times> acceptor" where
  "handle_gated cs e a m =
    (case aInstalled a of
       None \<Rightarrow> (ErrMsg CodeNeedView ''no view installed'', a)
     | Some inst \<Rightarrow>
         (let c = Compare inst (mIncarnation m) (mEpoch m)
          in if c > 0 then ((Msg TErr)\<lparr>mCode := CodeStaleView, mView := Marshal (view_codec cs) inst\<rparr>, a)
             else if c < 0 then (ErrMsg CodeNeedView '''', a)
             else if mType m = TPrepare then prepare cs e a m
             else if mType m = TAccept then accept cs e a m
             else if mType m = TRead then (read cs e a m, a)
             else if mType m = TScan then (scan cs e a m, a)
             else (ErrMsg CodeBadRequest ''unknown catalog op'', a)))"

definition handle :: "codecs \<Rightarrow> env \<Rightarrow> acceptor \<Rightarrow> msg \<Rightarrow> msg \<times> acceptor" where
  "handle cs e a m =
    (if mType m = TInstall then
       (case Unmarshal (view_codec cs) (mView m) of
          None \<Rightarrow> (ErrMsg CodeBadRequest '''', a)
        | Some v \<Rightarrow> (let (ok, a) = Install cs e a v
                    in (if ok then Msg TInstalled else ErrMsg CodeInternal '''', a)))
     else if mType m = TMarker then
       (let (ok, a) = SetMarker cs e a (mSince m)
        in (if ok then Msg TOK else ErrMsg CodeInternal '''', a))
     else if mType m = TSeed then seed cs e a m
     else if mType m = TPurge then purge cs e a m
     else handle_gated cs e a m)"

text \<open>The reply carries the incarnation and epoch of the installed view.\<close>

definition Handle :: "codecs \<Rightarrow> env \<Rightarrow> acceptor \<Rightarrow> msg \<Rightarrow> msg \<times> acceptor" where
  "Handle cs e a m =
    (if aClosed a then (ErrMsg CodeInternal ''acceptor closed'', a)
     else let (reply, a) = handle cs e a m
          in (case aInstalled a of
                None \<Rightarrow> reply
              | Some v \<Rightarrow> reply\<lparr>mIncarnation := vIncarnation v, mEpoch := vEpoch v\<rparr>, a))"

definition LocalRead :: "codecs \<Rightarrow> env \<Rightarrow> acceptor \<Rightarrow> bytes \<Rightarrow> (unit, ballot \<times> bytes \<times> bool) res" where
  "LocalRead cs e a reg =
    (case readRow cs e a reg of
       Inl _ \<Rightarrow> Inl ()
     | Inr (r, _) \<Rightarrow> Inr (parse_ballot0 (rAccepted r), rValue r, rHasValue r))"

definition AllRows :: "codecs \<Rightarrow> env \<Rightarrow> acceptor \<Rightarrow> (unit, scan_row list) res" where
  "AllRows cs e a =
    (if \<not> read_ok e then Inl ()
     else Inr (List.map_filter (\<lambda>(k, b). map_option (\<lambda>r.
         \<lparr> srReg = drop (length rowPrefix) k, srPromised = rPromised r, srAccepted = rAccepted r,
           srValue = rValue r, srHasValue = rHasValue r \<rparr>) (Unmarshal (row_codec cs) b))
       (db_range rowPrefix (rowPrefix @ [CHR 0xff]) (aDB a))))"

section \<open>Concrete codecs\<close>

definition row_p :: "row pickler" where
  "row_p = map_p (\<lambda>r. (rPromised r, rAccepted r, rValue r, rHasValue r))
     (\<lambda>(a, b, c, d). \<lparr> rPromised = a, rAccepted = b, rValue = c, rHasValue = d \<rparr>)
     (pair_p bytes_p (pair_p bytes_p (pair_p bytes_p bool_p)))"

definition voter_p :: "voter pickler" where
  "voter_p = map_p (\<lambda>v. (voID v, voSince v)) (\<lambda>(a, b). \<lparr> voID = a, voSince = b \<rparr>) (pair_p bytes_p u64_p)"

definition former_p :: "former pickler" where
  "former_p = map_p (\<lambda>v. (foID v, foUntil v)) (\<lambda>(a, b). \<lparr> foID = a, foUntil = b \<rparr>) (pair_p bytes_p int_p)"

definition data_endpoint_p :: "data_endpoint pickler" where
  "data_endpoint_p = map_p (\<lambda>v. (deID v, deAddrs v)) (\<lambda>(a, b). \<lparr> deID = a, deAddrs = b \<rparr>)
     (pair_p bytes_p (list_p bytes_p))"

definition node_p :: "node pickler" where
  "node_p = map_p
     (\<lambda>n. (nID n, nWeight n, nAddrs n, nData n, nToken n, nZone n, nIncarnation n, nWritable n))
     (\<lambda>(a, b, c, d, e, f, g, h). \<lparr> nID = a, nWeight = b, nAddrs = c, nData = d, nToken = e, nZone = f,
        nIncarnation = g, nWritable = h \<rparr>)
     (pair_p bytes_p (pair_p u32_p (pair_p (list_p bytes_p) (pair_p (list_p data_endpoint_p)
       (pair_p bytes_p (pair_p bytes_p (pair_p u64_p bool_p)))))))"

definition ramp_p :: "ramp pickler" where
  "ramp_p = map_p (\<lambda>r. (raNode r, raTarget r, raStep r))
     (\<lambda>(a, b, c). \<lparr> raNode = a, raTarget = b, raStep = c \<rparr>) (pair_p bytes_p (pair_p u32_p int_p))"

definition pending_p :: "pending pickler" where
  "pending_p = map_p
     (\<lambda>p. ((pNodes p, pReplicas p, pID p, pParticipantsAck p, pParticipants p, pFrozen p),
           (pRound p, pPrimaryDone p, pDone p, pFrozenAt p, pReason p, pRamp p, pSince p)))
     (\<lambda>((a, b, c, d, e, f), (g, h, i, j, k, l, m)). \<lparr> pNodes = a, pReplicas = b, pID = c,
        pParticipantsAck = d, pParticipants = e, pFrozen = f, pRound = g, pPrimaryDone = h,
        pDone = i, pFrozenAt = j, pReason = k, pRamp = l, pSince = m \<rparr>)
     (pair_p (pair_p (list_p node_p) (pair_p u8_p (pair_p u64_p (pair_p (list_p bytes_p)
         (pair_p (list_p bytes_p) bool_p)))))
       (pair_p u32_p (pair_p (list_p bytes_p) (pair_p (list_p bytes_p) (pair_p int_p (pair_p bytes_p
         (pair_p (option_p ramp_p) int_p)))))))"

definition acl_p :: "acl pickler" where
  "acl_p = map_p (\<lambda>a. (aAllowed a, aAdmins a)) (\<lambda>(a, b). \<lparr> aAllowed = a, aAdmins = b \<rparr>)
     (pair_p (list_p bytes_p) (list_p bytes_p))"

definition view_p :: "view pickler" where
  "view_p = map_p
     (\<lambda>v. ((vClusterID v, vIncarnation v, vEpoch v, vVersion v, vPlacementEpoch v, vReplicas v,
            vMinReplicas v, vVoters v),
           (vVoterSync v, vVoterSyncCursor v, vNodes v, vPending v, vFormer v, vFenced v,
            vRecoveredInc v, vRecoveredEpoch v),
           (vRebalancePause v, vRateCap v, vVoterSyncTarget v, vVoterSyncAdd v, vDeferredVoters v,
            vACL v, vRamps v, vRemoveVoters v)))
     (\<lambda>((a, b, c, d, e, f, g, h), (i, j, k, l, m, n, o', p), (q, r, s, t, u, v, w, x)).
        \<lparr> vClusterID = a, vIncarnation = b, vEpoch = c, vVersion = d, vPlacementEpoch = e,
          vReplicas = f, vMinReplicas = g, vVoters = h, vVoterSync = i, vVoterSyncCursor = j,
          vNodes = k, vPending = l, vFormer = m, vFenced = n, vRecoveredInc = o',
          vRecoveredEpoch = p, vRebalancePause = q, vRateCap = r, vVoterSyncTarget = s,
          vVoterSyncAdd = t, vDeferredVoters = u, vACL = v, vRamps = w, vRemoveVoters = x \<rparr>)
     (pair_p (pair_p bytes_p (pair_p u64_p (pair_p u64_p (pair_p u64_p (pair_p u64_p (pair_p u8_p
         (pair_p u8_p (list_p voter_p))))))))
       (pair_p (pair_p int_p (pair_p bytes_p (pair_p (list_p node_p) (pair_p (option_p pending_p)
           (pair_p (list_p former_p) (pair_p (list_p bytes_p) (pair_p u64_p u64_p)))))))
         (pair_p bool_p (pair_p u64_p (pair_p bytes_p (pair_p bool_p (pair_p (list_p bytes_p)
           (pair_p (option_p acl_p) (pair_p (list_p ramp_p) (list_p bytes_p))))))))))"

definition std_codecs :: codecs where
  "std_codecs = \<lparr> row_codec = codec_of row_p, view_codec = codec_of view_p, marker_codec = codec_of u64_p \<rparr>"

interpretation row_p: pickling row_p
  unfolding row_p_def by (intro pickling_map pickling_intros) simp

interpretation voter_p: pickling voter_p
  unfolding voter_p_def by (intro pickling_map pickling_intros) simp

interpretation former_p: pickling former_p
  unfolding former_p_def by (intro pickling_map pickling_intros) simp

interpretation data_endpoint_p: pickling data_endpoint_p
  unfolding data_endpoint_p_def by (intro pickling_map pickling_intros) simp

interpretation node_p: pickling node_p
  unfolding node_p_def by (intro pickling_map pickling_intros data_endpoint_p.pickling_axioms) simp

interpretation ramp_p: pickling ramp_p
  unfolding ramp_p_def by (intro pickling_map pickling_intros) simp

interpretation pending_p: pickling pending_p
  unfolding pending_p_def
  by (intro pickling_map pickling_intros node_p.pickling_axioms ramp_p.pickling_axioms) simp

interpretation acl_p: pickling acl_p
  unfolding acl_p_def by (intro pickling_map pickling_intros) simp

interpretation view_p: pickling view_p
  unfolding view_p_def
  by (intro pickling_map pickling_intros voter_p.pickling_axioms former_p.pickling_axioms
      node_p.pickling_axioms pending_p.pickling_axioms acl_p.pickling_axioms ramp_p.pickling_axioms) simp

lemma std_codecs_ok [simp]: "codecs_ok std_codecs"
  by (simp add: codecs_ok_def std_codecs_def row_p.codec_ok view_p.codec_ok u64_p.codec_ok)

end
