(* ===== verification/Acceptor_Inv.thy ===== *)
theory Acceptor_Inv
  imports Acceptor
begin

text \<open>
  What the acceptor of \<^verbatim>\<open>paxos/acceptor.go\<close> promises: the states it can reach (messages,
  closing, restarting), the invariant that its database always determines the fields kept in
  memory, what each handler can answer and change, that promises never move back, and the epoch
  gate. A purge that is followed by a seed is the exception to the promises, and is shown.
\<close>

section \<open>Definitions\<close>

text \<open>The row of a register; \<open>None\<close> when there is none.\<close>

definition row_of :: "codecs \<Rightarrow> acceptor \<Rightarrow> bytes \<Rightarrow> row option" where
  "row_of cs a reg =
    (case db_get (rowPrefix @ reg) (aDB a) of None \<Rightarrow> None | Some b \<Rightarrow> Unmarshal (row_codec cs) b)"

text \<open>The ballot every prepare of the register is held against.\<close>

definition promise_of :: "codecs \<Rightarrow> acceptor \<Rightarrow> bytes \<Rightarrow> ballot" where
  "promise_of cs a reg =
    (case row_of cs a reg of
       None \<Rightarrow> held_promise a empty_row False
     | Some r \<Rightarrow> held_promise a r True)"

definition accepted_of :: "codecs \<Rightarrow> acceptor \<Rightarrow> bytes \<Rightarrow> ballot" where
  "accepted_of cs a reg =
    (case row_of cs a reg of None \<Rightarrow> zero_ballot | Some r \<Rightarrow> parse_ballot0 (rAccepted r))"

text \<open>A stored row: what is accepted was promised.\<close>

definition row_ok :: "row \<Rightarrow> bool" where
  "row_ok r \<longleftrightarrow> parse_ballot0 (rAccepted r) \<le> parse_ballot0 (rPromised r)"

definition rows_ok :: "codecs \<Rightarrow> db \<Rightarrow> bool" where
  "rows_ok cs d \<longleftrightarrow> (\<forall>reg b. db_get (rowPrefix @ reg) d = Some b \<longrightarrow>
    (\<exists>r. Unmarshal (row_codec cs) b = Some r \<and> row_ok r))"

text \<open>The fields in memory are the ones on disk.\<close>

definition meta_ok :: "codecs \<Rightarrow> acceptor \<Rightarrow> bool" where
  "meta_ok cs a \<longleftrightarrow>
    db_get metaView (aDB a) = map_option (Marshal (view_codec cs)) (aInstalled a) \<and>
    db_get metaMarker (aDB a) = (if aHasMarker a then Some (Marshal (marker_codec cs) (aMarker a)) else None) \<and>
    (aHasMarker a \<or> aMarker a = 0) \<and>
    (db_get metaRetired (aDB a) \<noteq> None \<longleftrightarrow> aRetired a) \<and>
    aFloor a = (case db_get metaFloor (aDB a) of None \<Rightarrow> zero_ballot | Some b \<Rightarrow> parse_ballot0 b)"

definition acc_inv :: "codecs \<Rightarrow> acceptor \<Rightarrow> bool" where
  "acc_inv cs a \<longleftrightarrow> db_ok (aDB a) \<and> rows_ok cs (aDB a) \<and> meta_ok cs a"

text \<open>The row that a seed writes over the row \<open>cur\<close>.\<close>

definition seeded_row :: "row \<Rightarrow> scan_row \<Rightarrow> row" where
  "seeded_row cur sr =
    (let cur = cur\<lparr>rAccepted := srAccepted sr, rValue := srValue sr, rHasValue := srHasValue sr\<rparr>
     in if Ballot_Compare (parse_ballot0 (srAccepted sr)) (parse_ballot0 (rPromised cur)) > 0
        then cur\<lparr>rPromised := srAccepted sr\<rparr> else cur)"

text \<open>
  Reachable acceptors: opened on an empty database, any message, closing, and restarts that can
  read the database. What a restart that cannot read it gives is \<open>OpenAcceptor_meta\<close>.
\<close>

inductive acc_reach :: "codecs \<Rightarrow> node_id \<Rightarrow> acceptor \<Rightarrow> bool" for cs self where
  opened: "OpenAcceptor cs rd self [] = Some a \<Longrightarrow> acc_reach cs self a"
| handled: "acc_reach cs self a \<Longrightarrow> Handle cs e a m = (r, a') \<Longrightarrow> acc_reach cs self a'"
| closed: "acc_reach cs self a \<Longrightarrow> acc_reach cs self (Close a)"
| restarted: "acc_reach cs self a \<Longrightarrow> OpenAcceptor cs reads_ok self (aDB a) = Some a' \<Longrightarrow> acc_reach cs self a'"

section \<open>Keys\<close>

lemma meta_key_neq_row [simp]:
  "rowPrefix @ reg \<noteq> metaView" "rowPrefix @ reg \<noteq> metaMarker" "rowPrefix @ reg \<noteq> metaFloor"
  "rowPrefix @ reg \<noteq> metaRetired" "metaView \<noteq> rowPrefix @ reg" "metaMarker \<noteq> rowPrefix @ reg"
  "metaFloor \<noteq> rowPrefix @ reg" "metaRetired \<noteq> rowPrefix @ reg"
  by (simp_all add: rowPrefix_def metaView_def metaMarker_def metaFloor_def metaRetired_def)

lemma meta_keys_distinct [simp]:
  "metaView \<noteq> metaMarker" "metaView \<noteq> metaFloor" "metaView \<noteq> metaRetired"
  "metaMarker \<noteq> metaView" "metaMarker \<noteq> metaFloor" "metaMarker \<noteq> metaRetired"
  "metaFloor \<noteq> metaView" "metaFloor \<noteq> metaMarker" "metaFloor \<noteq> metaRetired"
  "metaRetired \<noteq> metaView" "metaRetired \<noteq> metaMarker" "metaRetired \<noteq> metaFloor"
  by (simp_all add: metaView_def metaMarker_def metaFloor_def metaRetired_def)

lemma row_keys_rows: "db_ok d \<Longrightarrow> k \<in> set (row_keys d) \<Longrightarrow> \<exists>reg. k = rowPrefix @ reg"
proof -
  assume "db_ok d" "k \<in> set (row_keys d)"
  then have le: "rowPrefix \<le> k" "k < rowPrefix @ [CHR 0xff]"
    by (auto simp: row_keys_def kv.set_range)
  obtain x y z where k: "k = x # y # z"
    using le by (cases k; cases "tl k") (auto simp: rowPrefix_def less_char_def)
  then have "x = CHR ''r''" "y = CHR ''/''"
    using le by (auto simp: rowPrefix_def)
  with k show ?thesis by (simp add: rowPrefix_def)
qed

lemmas batch_gets = db_get_set db_get_delete db_get_deletes

lemma mType_simps [simp]: "mType (Msg t) = t" "mType (ErrMsg c s) = TErr" "mCode (ErrMsg c s) = c"
  by (simp_all add: Msg_def ErrMsg_def)

section \<open>Reading rows\<close>

lemma rows_okD: "rows_ok cs d \<Longrightarrow> db_get (rowPrefix @ reg) d = Some b \<Longrightarrow>
    Unmarshal (row_codec cs) b = Some r \<Longrightarrow> row_ok r"
  unfolding rows_ok_def by fastforce

lemma row_of_ok: "acc_inv cs a \<Longrightarrow> row_of cs a reg = Some r \<Longrightarrow> row_ok r"
  by (auto simp: acc_inv_def row_of_def split: option.splits intro: rows_okD)

lemma readRow_row_of:
  assumes "acc_inv cs a" "readRow cs e a reg = Inr (r, found)"
  shows "if found then row_of cs a reg = Some r \<and> row_ok r else row_of cs a reg = None \<and> r = empty_row"
    "held_promise a r found = promise_of cs a reg" "parse_ballot0 (rAccepted r) = accepted_of cs a reg"
  using assms
  by (auto simp: readRow_def row_of_def promise_of_def accepted_of_def acc_inv_def
      empty_row_def split: if_splits option.splits intro: rows_okD)

lemma readRow_total:
  "acc_inv cs a \<Longrightarrow> read_ok e \<Longrightarrow> \<exists>r found. readRow cs e a reg = Inr (r, found)"
  unfolding readRow_def acc_inv_def rows_ok_def by (fastforce split: option.splits)

lemma floor_wf: "acc_inv cs a \<Longrightarrow> ballot_wf (aFloor a)"
  by (auto simp: acc_inv_def meta_ok_def split: option.splits)

lemma promise_of_eq:
  assumes "acc_inv cs a"
  shows "promise_of cs a reg =
    (case row_of cs a reg of None \<Rightarrow> aFloor a | Some r \<Rightarrow> parse_ballot0 (rPromised r))"
  using zero_ballot_least [OF floor_wf [OF assms]]
  by (auto simp: promise_of_def held_promise_def empty_row_def Let_def split: option.splits)

lemma accepted_le_promise:
  assumes "acc_inv cs a"
  shows "accepted_of cs a reg \<le> promise_of cs a reg"
  using assms zero_ballot_least [OF floor_wf [OF assms]] unfolding promise_of_eq [OF assms]
  by (auto simp: accepted_of_def row_ok_def split: option.splits dest!: row_of_ok [OF assms])

section \<open>Opening\<close>

lemma OpenAcceptor_meta:
  assumes "codecs_ok cs" "meta_ok cs a"
  shows "OpenAcceptor cs rd (aSelf a) (aDB a) = Some (a\<lparr>aClosed := False,
    aInstalled := (if rd metaView then aInstalled a else None),
    aMarker := (if rd metaMarker then aMarker a else 0), aHasMarker := rd metaMarker \<and> aHasMarker a,
    aRetired := rd metaRetired \<and> aRetired a, aFloor := (if rd metaFloor then aFloor a else zero_ballot)\<rparr>)"
  using assms unfolding OpenAcceptor_def meta_ok_def codecs_ok_def acc_get_def
  by (cases "aInstalled a"; cases "aHasMarker a"; cases "aRetired a"; cases "db_get metaFloor (aDB a)")
    (auto simp: Let_def)

lemma OpenAcceptor_reads:
  assumes "codecs_ok cs" "meta_ok cs a"
  shows "OpenAcceptor cs reads_ok (aSelf a) (aDB a) = Some (a\<lparr>aClosed := False\<rparr>)"
  using OpenAcceptor_meta [OF assms, of reads_ok] by simp

lemma acc_inv_closed [simp]: "acc_inv cs (a\<lparr>aClosed := c\<rparr>) = acc_inv cs a"
  by (simp add: acc_inv_def meta_ok_def)

lemma acc_get_empty [simp]: "acc_get rd [] k = None"
  by (simp add: acc_get_def db_get_def)

lemma OpenAcceptor_empty: "OpenAcceptor cs rd self [] = Some a \<Longrightarrow> acc_inv cs a \<and> aSelf a = self"
  by (auto simp: OpenAcceptor_def Let_def db_get_def acc_inv_def meta_ok_def rows_ok_def db_ok_def)

section \<open>Every handler keeps the invariant\<close>

lemma acc_inv_writeRow:
  assumes "codecs_ok cs" "acc_inv cs a" "row_ok r"
  shows "acc_inv cs (writeRow cs a reg r)"
  using assms
  by (auto simp: acc_inv_def writeRow_def rows_ok_def meta_ok_def codecs_ok_def db_get_set db_ok_set)

lemma prepare_cases:
  assumes "prepare cs e a m = (rep, a')"
  obtains (refused) "a' = a" "mType rep = TErr \<or> mType rep = TConflict"
  | (promised) b r found where "ParseBallot (mBallot m) = Some b" "b \<noteq> zero_ballot"
      "readRow cs e a (mReg m) = Inr (r, found)" "held_promise a r found < b"
      "a' = writeRow cs a (mReg m) (r\<lparr>rPromised := Bytes b\<rparr>)" "\<not> aRetired a" "\<not> Amnesiac a"
      "rep = (Msg TPromise)\<lparr>mAccepted := rAccepted r, mValue := rValue r, mHasValue := rHasValue r\<rparr>"
proof (cases "refuseIfForgetful a")
  case (Some r)
  then have "mType r = TErr" by (auto simp: refuseIfForgetful_def split: if_splits)
  then show thesis using Some assms by (intro refused) (auto simp: prepare_def)
next
  case live: None
  then have flags: "\<not> aRetired a" "\<not> Amnesiac a" by (auto simp: refuseIfForgetful_def split: if_splits)
  show thesis
  proof (cases "ParseBallot (mBallot m)")
    case None
    then show thesis using live assms by (intro refused) (auto simp: prepare_def)
  next
    case b: (Some b)
    show thesis
    proof (cases "readRow cs e a (mReg m)")
      case (Inl _)
      then show thesis using live b assms
        by (intro refused) (auto simp: prepare_def split: if_splits)
    next
      case (Inr rf)
      obtain r found where rf: "rf = (r, found)" by fastforce
      show thesis
      proof (cases "b \<noteq> zero_ballot \<and> held_promise a r found < b \<and> write_ok e")
        case True
        then show thesis using live b Inr rf assms flags
          by (intro promised [of b r found]) (auto simp: prepare_def Let_def split: if_splits)
      next
        case False
        then show thesis using live b Inr rf assms
          by (intro refused) (auto simp: prepare_def Let_def not_less split: if_splits)
      qed
    qed
  qed
qed

lemma accept_cases:
  assumes "accept cs e a m = (rep, a')"
  obtains (refused) "a' = a" "mType rep = TErr \<or> mType rep = TConflict"
  | (accepted) b r found where "ParseBallot (mBallot m) = Some b" "b \<noteq> zero_ballot"
      "readRow cs e a (mReg m) = Inr (r, found)" "held_promise a r found \<le> b"
      "parse_ballot0 (rAccepted r) \<le> b" "rep = Msg TAccepted" "\<not> aRetired a"
      "a' = writeRow cs a (mReg m)
        \<lparr> rPromised = Bytes b, rAccepted = Bytes b, rValue = mValue m, rHasValue = mHasValue m \<rparr>"
proof (cases "aRetired a \<or> ParseBallot (mBallot m) = None")
  case True
  then show thesis using assms by (intro refused) (auto simp: accept_def split: if_splits option.splits)
next
  case False
  then obtain b where b: "ParseBallot (mBallot m) = Some b" "\<not> aRetired a" by auto
  show thesis
  proof (cases "readRow cs e a (mReg m)")
    case (Inl _)
    then show thesis using b assms by (intro refused) (auto simp: accept_def split: if_splits)
  next
    case (Inr rf)
    obtain r found where rf: "rf = (r, found)" by fastforce
    show thesis
    proof (cases "b \<noteq> zero_ballot \<and> \<not> (mNotAfter m \<noteq> 0 \<and> now e > mNotAfter m) \<and>
        held_promise a r found \<le> b \<and> parse_ballot0 (rAccepted r) \<le> b \<and> write_ok e")
      case True
      then show thesis using b Inr rf assms
        by (intro accepted [of b r found]) (auto simp: accept_def Let_def split: if_splits)
    next
      case False
      then show thesis using b Inr rf assms
        by (intro refused) (auto simp: accept_def Let_def not_less split: if_splits)
    qed
  qed
qed

lemma acc_inv_prepare:
  assumes "codecs_ok cs" "acc_inv cs a" "prepare cs e a m = (rep, a')"
  shows "acc_inv cs a'"
  using assms(3)
proof (cases rule: prepare_cases)
  case (promised b r found)
  have "parse_ballot0 (rAccepted r) \<le> held_promise a r found"
    using readRow_row_of [OF assms(2) promised(3)] accepted_le_promise [OF assms(2)] by simp
  then have "row_ok (r\<lparr>rPromised := Bytes b\<rparr>)"
    using promised(1,4) ParseBallot_wf [OF promised(1)] by (simp add: row_ok_def)
  with promised(5) show ?thesis using assms(1,2) by (simp add: acc_inv_writeRow)
qed (use assms in simp)

lemma acc_inv_accept:
  assumes "codecs_ok cs" "acc_inv cs a" "accept cs e a m = (rep, a')"
  shows "acc_inv cs a'"
  using assms(3)
  by (cases rule: accept_cases) (use assms in \<open>auto simp: row_ok_def intro!: acc_inv_writeRow\<close>)

lemma acc_inv_SetMarker:
  assumes "codecs_ok cs" "acc_inv cs a"
  shows "acc_inv cs (snd (SetMarker cs e a since))"
  using assms
  by (auto simp: SetMarker_def acc_inv_def rows_ok_def meta_ok_def batch_gets db_ok_set db_ok_delete
      split: option.splits)

lemma acc_inv_Install:
  assumes "codecs_ok cs" "acc_inv cs a"
  shows "acc_inv cs (snd (Install cs e a v))"
proof -
  have keys: "k \<notin> set (row_keys (aDB a))" if "\<And>reg. k \<noteq> rowPrefix @ reg" for k
    using row_keys_rows that assms(2) by (metis acc_inv_def)
  note not_row = keys [of metaView] keys [of metaMarker] keys [of metaFloor] keys [of metaRetired]
  show ?thesis
    using assms not_row
    by (auto simp: Install_def Let_def acc_inv_def rows_ok_def meta_ok_def batch_gets
        db_ok_set db_ok_delete db_ok_batch split: option.splits)
qed

lemma purge_cases:
  assumes "purge cs e a m = (rep, a')"
  obtains (same) "a' = a"
  | (deleted) b r where "ParseBallot (mBallot m) = Some b" "b \<noteq> zero_ballot"
      "readRow cs e a (mReg m) = Inr (r, True)" "parse_ballot0 (rAccepted r) = b"
      "parse_ballot0 (rPromised r) = b"
      "a' = (if aFloor a < b
        then a\<lparr>aDB := db_set metaFloor (Bytes b) (db_delete (rowPrefix @ mReg m) (aDB a)), aFloor := b\<rparr>
        else a\<lparr>aDB := db_delete (rowPrefix @ mReg m) (aDB a)\<rparr>)"
  | (stub) b r where "ParseBallot (mBallot m) = Some b" "b \<noteq> zero_ballot"
      "readRow cs e a (mReg m) = Inr (r, True)" "parse_ballot0 (rAccepted r) = b"
      "a' = writeRow cs a (mReg m) (r\<lparr>rAccepted := [], rValue := [], rHasValue := False\<rparr>)"
proof (cases "ParseBallot (mBallot m)")
  case None
  then show thesis using assms by (intro same) (auto simp: purge_def)
next
  case b: (Some b)
  show thesis
  proof (cases "readRow cs e a (mReg m)")
    case (Inl _)
    then show thesis using b assms by (intro same) (auto simp: purge_def split: if_splits)
  next
    case (Inr rf)
    obtain r found where rf: "rf = (r, found)" by fastforce
    show thesis
    proof (cases "b \<noteq> zero_ballot \<and> found \<and> parse_ballot0 (rAccepted r) = b \<and> write_ok e")
      case True
      show thesis
      proof (cases "parse_ballot0 (rPromised r) = b")
        case prom: True
        then show thesis using True b Inr rf assms
          by (intro deleted [of b r]) (auto simp: purge_def Let_def)
      next
        case prom: False
        then show thesis using True b Inr rf assms
          by (intro stub [of b r]) (auto simp: purge_def Let_def writeRow_def)
      qed
    next
      case False
      then show thesis using b Inr rf assms
        by (intro same) (auto simp: purge_def Let_def split: if_splits)
    qed
  qed
qed

lemma acc_inv_purge:
  assumes "codecs_ok cs" "acc_inv cs a" "purge cs e a m = (rep, a')"
  shows "acc_inv cs a'"
  using assms(3)
proof (cases rule: purge_cases)
  case (deleted b r)
  have wf: "ballot_wf b" using deleted(1) by (rule ParseBallot_wf)
  then show ?thesis using assms(2) deleted(6)
    by (auto simp: acc_inv_def rows_ok_def meta_ok_def batch_gets db_ok_set db_ok_delete)
next
  case (stub b r)
  have "row_ok (r\<lparr>rAccepted := [], rValue := [], rHasValue := False\<rparr>)"
    by (simp add: row_ok_def zero_ballot_least)
  then show ?thesis using assms stub(5) by (simp add: acc_inv_writeRow)
qed (use assms in simp)

text \<open>The row a seed writes for a register.\<close>

lemma row_ok_seeded: "row_ok (seeded_row cur sr)"
  by (auto simp: row_ok_def seeded_row_def Let_def)

lemma seed_batch_ops:
  assumes "seed_batch cs e a srs = Inr ops"
  shows "\<forall>x \<in> set ops. \<exists>sr \<in> set srs. \<exists>cur found. readRow cs e a (srReg sr) = Inr (cur, found) \<and>
    parse_ballot0 (rAccepted cur) < parse_ballot0 (srAccepted sr) \<and>
    x = BSet (rowPrefix @ srReg sr) (Marshal (row_codec cs) (seeded_row cur sr))"
  using assms
proof (induction srs arbitrary: ops)
  case (Cons sr srs)
  obtain cur found where rd: "readRow cs e a (srReg sr) = Inr (cur, found)"
    using Cons.prems by (auto split: sum.splits)
  obtain ops' where ops': "seed_batch cs e a srs = Inr ops'"
    using Cons.prems rd by (auto simp: Let_def split: sum.splits if_splits)
  have "ops = ops' \<or> ops = BSet (rowPrefix @ srReg sr) (Marshal (row_codec cs) (seeded_row cur sr)) # ops' \<and>
      parse_ballot0 (rAccepted cur) < parse_ballot0 (srAccepted sr)"
    using Cons.prems rd ops' by (auto simp: Let_def seeded_row_def not_le split: if_splits)
  with Cons.IH [OF ops'] rd show ?case by fastforce
qed simp

lemma rows_ok_batch:
  assumes "codecs_ok cs" "rows_ok cs d"
    "\<forall>x \<in> set ops. \<exists>reg r. x = BSet (rowPrefix @ reg) (Marshal (row_codec cs) r) \<and> row_ok r"
  shows "rows_ok cs (batch_commit ops d)"
  using assms(2,3)
proof (induction ops arbitrary: d)
  case (Cons x ops)
  then obtain reg r where x: "x = BSet (rowPrefix @ reg) (Marshal (row_codec cs) r)" "row_ok r" by auto
  have "rows_ok cs (batch_apply x d)"
    using x Cons.prems(1) assms(1) by (auto simp: rows_ok_def codecs_ok_def db_get_set)
  with Cons show ?case by simp
qed simp

lemma acc_inv_seed:
  assumes "codecs_ok cs" "acc_inv cs a"
  shows "acc_inv cs (snd (seed cs e a m))"
proof (cases "seed_batch cs e a (mRows m)")
  case (Inr ops)
  note o = seed_batch_ops [OF Inr]
  have "rows_ok cs (batch_commit ops (aDB a))"
    using o row_ok_seeded assms by (intro rows_ok_batch) (fastforce simp: acc_inv_def)+
  moreover have "db_get k (batch_commit ops (aDB a)) = db_get k (aDB a)" if "\<And>reg. k \<noteq> rowPrefix @ reg" for k
    using o that by (intro db_get_untouched) fastforce
  ultimately show ?thesis
    using assms Inr by (simp add: seed_def acc_inv_def meta_ok_def db_ok_batch)
qed (use assms in \<open>simp add: seed_def\<close>)

section \<open>All messages\<close>

lemma handle_gated_cases:
  assumes "handle_gated cs e a m = (rep, a')"
  obtains (same) "a' = a" "mType rep \<noteq> TPromise" "mType rep \<noteq> TAccepted"
  | (prepare) "mType m = TPrepare" "prepare cs e a m = (rep, a')"
  | (accept) "mType m = TAccept" "accept cs e a m = (rep, a')"
proof -
  have rd: "mType (read cs e a m) \<noteq> TPromise" "mType (read cs e a m) \<noteq> TAccepted"
    by (auto simp: read_def refuseIfForgetful_def split: option.splits sum.splits if_splits)
  have sc: "mType (scan cs e a m) \<noteq> TPromise" "mType (scan cs e a m) \<noteq> TAccepted"
    by (auto simp: scan_def refuseIfForgetful_def split: option.splits prod.splits if_splits)
  show thesis
  proof (cases "aInstalled a")
    case None
    then show thesis using assms by (intro same) (auto simp: handle_gated_def)
  next
    case (Some inst)
    let ?c = "Compare inst (mIncarnation m) (mEpoch m)"
    consider "?c = 0" "mType m = TPrepare" | "?c = 0" "mType m = TAccept"
      | "?c \<noteq> 0 \<or> mType m \<noteq> TPrepare \<and> mType m \<noteq> TAccept" by blast
    then show thesis
    proof cases
      case 1
      then show thesis using assms Some by (intro prepare) (auto simp: handle_gated_def Let_def)
    next
      case 2
      then show thesis using assms Some by (intro accept) (auto simp: handle_gated_def Let_def)
    next
      case 3
      then have "a' = a \<and> mType rep \<noteq> TPromise \<and> mType rep \<noteq> TAccepted"
        using assms Some rd sc unfolding handle_gated_def Let_def by (auto split: if_splits)
      then show thesis by (intro same) auto
    qed
  qed
qed

lemma handle_cases:
  assumes "handle cs e a m = (rep, a')"
  obtains (bad_view) "a' = a" "mType rep = TErr"
  | (install) v where "mType m = TInstall" "a' = snd (Install cs e a v)" "mType rep \<in> {TInstalled, TErr}"
  | (marker) "mType m = TMarker" "a' = snd (SetMarker cs e a (mSince m))" "mType rep \<in> {TOK, TErr}"
  | (seed) "mType m = TSeed" "seed cs e a m = (rep, a')"
  | (purge) "mType m = TPurge" "purge cs e a m = (rep, a')"
  | (gated) "handle_gated cs e a m = (rep, a')"
proof (cases "mType m = TInstall")
  case True
  show thesis
  proof (cases "Unmarshal (view_codec cs) (mView m)")
    case None
    with True assms show thesis by (intro bad_view) (auto simp: handle_def)
  next
    case (Some v)
    with True assms show thesis
      by (intro install [of v]) (auto simp: handle_def split_beta Let_def split: if_splits)
  qed
next
  case False
  with assms show thesis
    by (auto simp: handle_def split_beta Let_def split: if_splits intro: marker seed purge gated)
qed

lemma acc_inv_handle:
  assumes "codecs_ok cs" "acc_inv cs a" "handle cs e a m = (rep, a')"
  shows "acc_inv cs a'"
  using assms(3)
proof (cases rule: handle_cases)
  case seed
  then show ?thesis using acc_inv_seed [OF assms(1,2), of e m] by simp
next
  case gated
  then show ?thesis
  proof (cases rule: handle_gated_cases)
    case prepare
    then show ?thesis using acc_inv_prepare [OF assms(1,2)] by blast
  next
    case accept
    then show ?thesis using acc_inv_accept [OF assms(1,2)] by blast
  qed (use assms(2) in simp)
next
  case purge
  then show ?thesis using acc_inv_purge [OF assms(1,2)] by blast
qed (use assms(2) acc_inv_Install [OF assms(1,2)] acc_inv_SetMarker [OF assms(1,2)] in simp_all)

lemma Handle_handle:
  assumes "Handle cs e a m = (rep, a')" "\<not> aClosed a"
  shows "\<exists>rep0. handle cs e a m = (rep0, a') \<and>
    rep = (case aInstalled a' of None \<Rightarrow> rep0
      | Some v \<Rightarrow> rep0\<lparr>mIncarnation := vIncarnation v, mEpoch := vEpoch v\<rparr>)"
  using assms by (cases "handle cs e a m") (auto simp: Handle_def)

lemma acc_inv_Handle:
  assumes "codecs_ok cs" "acc_inv cs a" "Handle cs e a m = (rep, a')"
  shows "acc_inv cs a'"
proof (cases "aClosed a")
  case True
  with assms show ?thesis by (simp add: Handle_def)
next
  case False
  from Handle_handle [OF assms(3) False] acc_inv_handle [OF assms(1,2)] show ?thesis by blast
qed

lemma aSelf_handle:
  assumes "handle cs e a m = (rep, a')"
  shows "aSelf a' = aSelf a"
  using assms
proof (cases rule: handle_cases)
  case seed
  then show ?thesis by (auto simp: seed_def split: sum.splits if_splits)
next
  case purge
  then show ?thesis
    by (cases rule: purge_cases[consumes 1, OF purge(2)]) (auto simp: writeRow_def)
next
  case gated
  then show ?thesis
    by (cases rule: handle_gated_cases) (auto elim!: prepare_cases accept_cases simp: writeRow_def)
qed (auto simp: Install_def SetMarker_def Let_def)

lemma aSelf_Handle: "Handle cs e a m = (rep, a') \<Longrightarrow> aSelf a' = aSelf a"
  using Handle_handle [of cs e a m rep a'] aSelf_handle [of cs e a m _ a']
  by (cases "aClosed a") (auto simp: Handle_def)

lemma acc_reach_inv:
  assumes "codecs_ok cs" "acc_reach cs self a"
  shows "acc_inv cs a \<and> aSelf a = self"
  using assms(2)
proof (induction rule: acc_reach.induct)
  case (opened a)
  then show ?case by (rule OpenAcceptor_empty)
next
  case (handled a e m r a')
  then show ?case using acc_inv_Handle [OF assms(1)] aSelf_Handle by metis
next
  case (closed a)
  then show ?case by (simp add: Close_def)
next
  case (restarted a a')
  then have "a' = a\<lparr>aClosed := False\<rparr>"
    using OpenAcceptor_reads [OF assms(1), of a] by (simp add: acc_inv_def)
  with restarted show ?case by simp
qed

end
