(* ===== verification/Acceptor_Props.thy ===== *)
theory Acceptor_Props
  imports Acceptor_Inv
begin

text \<open>
  The properties of the acceptor: recovery after a restart, monotone promises, the exact answers
  of prepare and accept, the epoch gate, the order in which views are installed, retired and
  amnesiac acceptors, and paging through a scan.
\<close>

section \<open>Definitions\<close>

text \<open>The entry of a scan for a stored pair.\<close>

definition scan_entry :: "codecs \<Rightarrow> bytes \<times> bytes \<Rightarrow> scan_row" where
  "scan_entry cs kb =
    (let r = the (Unmarshal (row_codec cs) (snd kb))
     in \<lparr> srReg = drop (length rowPrefix) (fst kb), srPromised = rPromised r, srAccepted = rAccepted r,
          srValue = rValue r, srHasValue = rHasValue r \<rparr>)"

definition view_le :: "view \<Rightarrow> view \<Rightarrow> bool" where
  "view_le v w \<longleftrightarrow> v = w \<or> Compare v (vIncarnation w) (vEpoch w) < 0 \<or>
    Compare v (vIncarnation w) (vEpoch w) = 0 \<and> vVersion v < vVersion w"

text \<open>An environment where everything works, and messages for the examples.\<close>

definition env_ok :: "env \<Rightarrow> bool" where
  "env_ok e \<longleftrightarrow> read_ok e \<and> write_ok e"

text \<open>The requests a live acceptor takes up: current epoch, a real ballot, working storage.\<close>

definition live_request :: "acceptor \<Rightarrow> env \<Rightarrow> msg \<Rightarrow> ballot \<Rightarrow> bool" where
  "live_request a e m b \<longleftrightarrow> \<not> aClosed a \<and> \<not> aRetired a \<and> env_ok e \<and>
    (\<exists>v. aInstalled a = Some v \<and> mIncarnation m = vIncarnation v \<and> mEpoch m = vEpoch v) \<and>
    ParseBallot (mBallot m) = Some b \<and> b \<noteq> zero_ballot"

text \<open>The row that a reply to a prepare carries: the stored one, or the empty row.\<close>

definition shown_row :: "codecs \<Rightarrow> acceptor \<Rightarrow> bytes \<Rightarrow> row" where
  "shown_row cs a reg = (case row_of cs a reg of None \<Rightarrow> empty_row | Some r \<Rightarrow> r)"

text \<open>
  What may happen to an acceptor that is neither seeded nor retired: messages, closing, and
  restarts that can read the database.
\<close>

inductive quiet_step :: "codecs \<Rightarrow> node_id \<Rightarrow> acceptor \<Rightarrow> acceptor \<Rightarrow> bool" for cs self where
  message: "Handle cs e a m = (rep, a') \<Longrightarrow> mType m \<noteq> TSeed \<Longrightarrow> (aRetired a' \<longrightarrow> aRetired a) \<Longrightarrow> quiet_step cs self a a'"
| closing: "quiet_step cs self a (Close a)"
| restart: "OpenAcceptor cs reads_ok self (aDB a) = Some a' \<Longrightarrow> quiet_step cs self a a'"

definition good_env :: env where
  "good_env = \<lparr> now = 0, read_ok = True, write_ok = True \<rparr>"

definition voter1 :: node_id where
  "voter1 = CHR 0x01 # zero_31"

definition op_msg :: "int \<Rightarrow> bytes \<Rightarrow> ballot \<Rightarrow> msg" where
  "op_msg t reg b = (Msg t)\<lparr>mIncarnation := 1, mEpoch := 3, mReg := reg, mBallot := Bytes b\<rparr>"

definition fresh_acceptor :: acceptor where
  "fresh_acceptor = the (OpenAcceptor std_codecs reads_ok voter1 [])"

definition marked_acceptor :: acceptor where
  "marked_acceptor = snd (Handle std_codecs good_env fresh_acceptor ((Msg TMarker)\<lparr>mSince := 1\<rparr>))"

definition voting_acceptor :: acceptor where
  "voting_acceptor = snd (Handle std_codecs good_env marked_acceptor
     ((Msg TInstall)\<lparr>mView := Marshal (view_codec std_codecs) example_view\<rparr>))"

definition accepted_at :: "bytes \<Rightarrow> acceptor" where
  "accepted_at reg = snd (Handle std_codecs good_env voting_acceptor (op_msg TAccept reg (Ballot 9 voter1)))"

definition purged_at :: "bytes \<Rightarrow> acceptor" where
  "purged_at reg = snd (Handle std_codecs good_env (accepted_at reg) (op_msg TPurge reg (Ballot 9 voter1)))"

section \<open>Rows after a write\<close>

lemma row_of_writeRow:
  "codecs_ok cs \<Longrightarrow> row_of cs (writeRow cs a reg r) reg' = (if reg' = reg then Some r else row_of cs a reg')"
  by (auto simp: row_of_def writeRow_def db_get_set codecs_ok_def)

lemma aFloor_writeRow [simp]: "aFloor (writeRow cs a reg r) = aFloor a"
  by (simp add: writeRow_def)

lemma promise_of_writeRow:
  assumes "codecs_ok cs" "acc_inv cs a" "row_ok r"
  shows "promise_of cs (writeRow cs a reg r) reg' =
    (if reg' = reg then parse_ballot0 (rPromised r) else promise_of cs a reg')"
  using promise_of_eq [OF acc_inv_writeRow [OF assms], of reg reg'] promise_of_eq [OF assms(2), of reg']
  by (auto simp: row_of_writeRow [OF assms(1)] split: option.splits)

lemma accepted_of_writeRow:
  "codecs_ok cs \<Longrightarrow> accepted_of cs (writeRow cs a reg r) reg' =
    (if reg' = reg then parse_ballot0 (rAccepted r) else accepted_of cs a reg')"
  by (simp add: accepted_of_def row_of_writeRow)

lemma row_of_cong: "db_get (rowPrefix @ reg) (aDB a') = db_get (rowPrefix @ reg) (aDB a) \<Longrightarrow>
    row_of cs a' reg = row_of cs a reg"
  by (simp add: row_of_def)

lemma promise_of_cong:
  "(\<And>reg. db_get (rowPrefix @ reg) (aDB a') = db_get (rowPrefix @ reg) (aDB a)) \<Longrightarrow> aFloor a' = aFloor a \<Longrightarrow>
    promise_of cs a' reg = promise_of cs a reg"
  by (auto simp: promise_of_def row_of_def held_promise_def Let_def split: option.splits if_splits)

section \<open>Promises\<close>

lemma promise_mono_prepare:
  assumes "codecs_ok cs" "acc_inv cs a" "prepare cs e a m = (rep, a')"
  shows "promise_of cs a reg \<le> promise_of cs a' reg"
  using assms(3)
proof (cases rule: prepare_cases)
  case (promised b r found)
  note rd = readRow_row_of [OF assms(2) promised(3)]
  have wf: "ballot_wf b" using promised(1) by (rule ParseBallot_wf)
  have "parse_ballot0 (rAccepted r) \<le> b"
    using rd(2,3) promised(4) accepted_le_promise [OF assms(2), of "mReg m"] by simp
  then have "row_ok (r\<lparr>rPromised := Bytes b\<rparr>)" using wf by (simp add: row_ok_def)
  then show ?thesis
    using promised(4,5) rd(2) wf by (auto simp: promise_of_writeRow [OF assms(1,2)])
qed simp

lemma promise_mono_accept:
  assumes "codecs_ok cs" "acc_inv cs a" "accept cs e a m = (rep, a')"
  shows "promise_of cs a reg \<le> promise_of cs a' reg"
  using assms(3)
proof (cases rule: accept_cases)
  case (accepted b r found)
  note rd = readRow_row_of [OF assms(2) accepted(3)]
  have wf: "ballot_wf b" using accepted(1) by (rule ParseBallot_wf)
  then show ?thesis
    using accepted(4,8) rd(2) by (auto simp: promise_of_writeRow [OF assms(1,2)] row_ok_def)
qed simp

lemma promise_mono_purge:
  assumes "codecs_ok cs" "acc_inv cs a" "purge cs e a m = (rep, a')"
  shows "promise_of cs a reg \<le> promise_of cs a' reg"
  using assms(3)
proof (cases rule: purge_cases)
  case (deleted b r)
  have row: "row_of cs a' reg = (if reg = mReg m then None else row_of cs a reg)"
    using deleted(6) by (auto simp: row_of_def batch_gets)
  have floor: "aFloor a' = max (aFloor a) b" using deleted(6) by (auto simp: max_def)
  have "promise_of cs a (mReg m) = b"
    using readRow_row_of [OF assms(2) deleted(3)] deleted(5) promise_of_eq [OF assms(2), of "mReg m"] by simp
  then show ?thesis
    using promise_of_eq [OF acc_inv_purge [OF assms], of reg] promise_of_eq [OF assms(2), of reg] row floor
    by (cases "reg = mReg m") (auto split: option.splits)
next
  case (stub b r)
  have "row_ok (r\<lparr>rAccepted := [], rValue := [], rHasValue := False\<rparr>)"
    by (simp add: row_ok_def zero_ballot_least)
  moreover have "promise_of cs a (mReg m) = parse_ballot0 (rPromised r)"
    using readRow_row_of [OF assms(2) stub(3)] promise_of_eq [OF assms(2), of "mReg m"] by simp
  ultimately show ?thesis using stub(5) by (simp add: promise_of_writeRow [OF assms(1,2)])
qed simp

lemma promise_same_Install:
  assumes "aRetired (snd (Install cs e a v)) \<longrightarrow> aRetired a"
  shows "promise_of cs (snd (Install cs e a v)) reg = promise_of cs a reg"
proof (rule promise_of_cong)
  show "db_get (rowPrefix @ reg) (aDB (snd (Install cs e a v))) = db_get (rowPrefix @ reg) (aDB a)" for reg
    using assms by (auto simp: Install_def Let_def batch_gets)
  show "aFloor (snd (Install cs e a v)) = aFloor a"
    using assms by (auto simp: Install_def Let_def)
qed

lemma promise_same_SetMarker:
  "promise_of cs (snd (SetMarker cs e a since)) reg = promise_of cs a reg"
  by (rule promise_of_cong) (auto simp: SetMarker_def batch_gets)

lemma promise_mono_handle:
  assumes "codecs_ok cs" "acc_inv cs a" "handle cs e a m = (rep, a')" "mType m \<noteq> TSeed"
    "aRetired a' \<longrightarrow> aRetired a"
  shows "promise_of cs a reg \<le> promise_of cs a' reg"
  using assms(3)
proof (cases rule: handle_cases)
  case (install v)
  then show ?thesis using promise_same_Install [of cs e a v reg] assms(5) by simp
next
  case marker
  then show ?thesis using promise_same_SetMarker [of cs e a "mSince m" reg] by simp
next
  case purge
  then show ?thesis using promise_mono_purge [OF assms(1,2)] by blast
next
  case gated
  then show ?thesis
  proof (cases rule: handle_gated_cases)
    case prepare
    then show ?thesis using promise_mono_prepare [OF assms(1,2)] by blast
  next
    case accept
    then show ?thesis using promise_mono_accept [OF assms(1,2)] by blast
  qed simp
qed (use assms(4) in simp_all)

section \<open>Installing\<close>

lemma view_le_Install:
  assumes "aInstalled a = Some v"
  shows "\<exists>w. aInstalled (snd (Install cs e a x)) = Some w \<and> view_le v w"
proof (cases "not_newer a x \<or> \<not> write_ok e")
  case True
  then show ?thesis using assms by (auto simp: Install_def view_le_def Let_def)
next
  case False
  then have "aInstalled (snd (Install cs e a x)) = Some x" by (simp add: Install_def Let_def)
  moreover have "view_le v x"
    using False assms by (auto simp: not_newer_def view_le_def Let_def)
  ultimately show ?thesis by blast
qed

lemma aInstalled_gated: "handle_gated cs e a m = (rep, a') \<Longrightarrow> aInstalled a' = aInstalled a"
  by (erule handle_gated_cases) (auto elim!: prepare_cases accept_cases simp: writeRow_def)

lemma aInstalled_other:
  assumes "handle cs e a m = (rep, a')" "mType m \<noteq> TInstall"
  shows "aInstalled a' = aInstalled a"
  using assms(1)
proof (cases rule: handle_cases)
  case purge
  then show ?thesis by (cases rule: purge_cases [OF purge(2)]) (auto simp: writeRow_def)
next
  case gated
  then show ?thesis by (rule aInstalled_gated)
qed (use assms(2) in \<open>auto simp: SetMarker_def seed_def split: sum.splits if_splits\<close>)

section \<open>Scanning\<close>

lemma scan_loop_take:
  assumes "\<forall>kb \<in> set kvs. Unmarshal (row_codec cs) (snd kb) \<noteq> None"
  shows "\<exists>n \<le> length kvs. scan_loop cs limit kvs rows sz =
      (rows @ map (scan_entry cs) (take n kvs), n < length kvs) \<and>
    (length rows < limit \<and> sz < MaxPageBytes \<and> kvs \<noteq> [] \<longrightarrow> 0 < n)"
  using assms
proof (induction kvs arbitrary: rows sz)
  case (Cons kb kvs)
  obtain k b where kb: "kb = (k, b)" by fastforce
  from Cons.prems kb obtain r where r: "Unmarshal (row_codec cs) b = Some r" by auto
  show ?case
  proof (cases "length rows \<ge> limit \<or> sz \<ge> MaxPageBytes")
    case True
    then show ?thesis using kb by (intro exI [of _ 0]) auto
  next
    case False
    let ?row = "scan_entry cs kb" and ?sz = "sz + length (drop (length rowPrefix) k) + length (rValue r) + 2 * BallotSize"
    obtain n where n: "n \<le> length kvs" "scan_loop cs limit kvs (rows @ [?row]) ?sz =
        ((rows @ [?row]) @ map (scan_entry cs) (take n kvs), n < length kvs)"
      using Cons.IH [of "rows @ [?row]" ?sz] Cons.prems by auto
    have "scan_loop cs limit (kb # kvs) rows sz = scan_loop cs limit kvs (rows @ [?row]) ?sz"
      using False kb r by (simp add: scan_entry_def Let_def)
    with n show ?thesis by (intro exI [of _ "Suc n"]) auto
  qed
qed simp

lemma between_prefix: "p @ x \<le> k \<Longrightarrow> k < p @ y \<Longrightarrow> \<exists>z. k = p @ (z :: bytes)"
proof (induction p arbitrary: k)
  case (Cons c p)
  then obtain d k' where k: "k = d # k'" by (cases k) auto
  with Cons.prems have "d = c" "p @ x \<le> k'" "k' < p @ y" by auto
  with Cons.IH k show ?case by auto
qed simp

lemma scan_limit_pos: "0 < scan_limit l"
  by (auto simp: scan_limit_def)

lemma rows_decode:
  assumes "acc_inv cs a" "kb \<in> set (db_range (scan_lower m) (scan_upper m) (aDB a))"
  shows "Unmarshal (row_codec cs) (snd kb) \<noteq> None" "\<exists>reg. fst kb = rowPrefix @ reg"
proof -
  obtain x y where "scan_lower m = rowPrefix @ x" "scan_upper m = rowPrefix @ y"
    unfolding scan_lower_def scan_upper_def by (metis (full_types))
  moreover have kb: "db_get (fst kb) (aDB a) = Some (snd kb)" "scan_lower m \<le> fst kb" "fst kb < scan_upper m"
    using assms by (auto simp: acc_inv_def kv.set_range split: prod.splits)
  ultimately show reg: "\<exists>reg. fst kb = rowPrefix @ reg" by (metis between_prefix)
  then show "Unmarshal (row_codec cs) (snd kb) \<noteq> None"
    using kb(1) assms(1) unfolding acc_inv_def rows_ok_def by fastforce
qed

lemma append_zero_le_iff: "(l @ [CHR 0x00] \<le> k) = (l < (k :: bytes))"
proof (induction l arbitrary: k)
  case Nil
  show ?case
  proof (cases k)
    case (Cons c k')
    then show ?thesis using of_char_pos [of c] by (auto simp: less_char_def)
  qed simp
next
  case (Cons x l)
  then show ?case by (cases k) auto
qed

lemma filter_after_nth:
  assumes "sorted_wrt (<) (map fst K)" "0 < n" "n \<le> length K"
  shows "filter (\<lambda>kv. fst (K ! (n - 1)) < fst kv) K = drop n (K :: (bytes \<times> bytes) list)"
proof -
  let ?l = "fst (K ! (n - 1))"
  have nth: "fst (K ! i) < fst (K ! j)" if "i < j" "j < length K" for i j
    using assms(1) that by (simp add: sorted_wrt_iff_nth_less)
  have "\<not> ?l < fst kv" if "kv \<in> set (take n K)" for kv
  proof -
    from that obtain i where "i < n" "kv = K ! i" using assms(3) by (auto simp: in_set_conv_nth)
    moreover have "i < n - 1 \<or> i = n - 1" "n - 1 < length K" using \<open>i < n\<close> assms(2,3) by auto
    ultimately show ?thesis using nth [of i "n - 1"] by (auto dest: less_not_sym)
  qed
  moreover have "?l < fst kv" if "kv \<in> set (drop n K)" for kv
  proof -
    from that obtain i where "i < length K - n" "kv = K ! (n + i)" using assms(3) by (auto simp: in_set_conv_nth)
    then show ?thesis using nth [of "n - 1" "n + i"] assms(2) by simp
  qed
  ultimately have "filter (\<lambda>kv. ?l < fst kv) (take n K) = []" "filter (\<lambda>kv. ?l < fst kv) (drop n K) = drop n K"
    by (auto simp: filter_empty_conv filter_id_conv)
  then show ?thesis by (metis append_Nil append_take_drop_id filter_append)
qed

lemma scan_next_range:
  assumes "acc_inv cs a" "K = db_range (scan_lower m) (scan_upper m) (aDB a)" "0 < n" "n \<le> length K"
    "reg \<noteq> []" "fst (K ! (n - 1)) = rowPrefix @ reg"
  shows "db_range (scan_lower (m\<lparr>mAfter := reg\<rparr>)) (scan_upper m) (aDB a) = drop n K"
proof -
  let ?l = "rowPrefix @ reg"
  have "K ! (n - 1) \<in> set K" using assms(3,4) by simp
  then have low: "scan_lower m \<le> ?l" using assms(1,2,6) by (auto simp: db_range_def)
  have lower: "scan_lower (m\<lparr>mAfter := reg\<rparr>) = ?l @ [CHR 0x00]" using assms(5) by (simp add: scan_lower_def)
  have "db_range (scan_lower (m\<lparr>mAfter := reg\<rparr>)) (scan_upper m) (aDB a) = filter (\<lambda>kv. ?l < fst kv) K"
    unfolding lower assms(2) db_range_def filter_filter append_zero_le_iff
    using low by (intro filter_cong) (auto dest: order_le_less_trans)
  also have "\<dots> = drop n K"
    using filter_after_nth [of K n] assms kv.sorted_range [of "aDB a"] by (simp add: acc_inv_def)
  finally show ?thesis .
qed

section \<open>One request, every branch\<close>

lemma promise_of_wf: "acc_inv cs a \<Longrightarrow> ballot_wf (promise_of cs a reg)"
  using floor_wf [of cs a] promise_of_eq [of cs a reg] by (auto split: option.splits)

lemma Handle_prepare:
  assumes "acc_inv cs a" "live_request a e m b" "mType m = TPrepare" "\<not> Amnesiac a"
    "readRow cs e a (mReg m) = Inr (r, found)" "Handle cs e a m = (rep, a')"
  shows "if promise_of cs a (mReg m) < b
    then mType rep = TPromise \<and> mAccepted rep = rAccepted r \<and> mValue rep = rValue r \<and>
      mHasValue rep = rHasValue r \<and> a' = writeRow cs a (mReg m) (r\<lparr>rPromised := Bytes b\<rparr>)
    else mType rep = TConflict \<and> mBallot rep = Bytes (promise_of cs a (mReg m)) \<and> a' = a"
proof -
  obtain rep0 where h: "handle cs e a m = (rep0, a')" "rep = (case aInstalled a' of None \<Rightarrow> rep0
      | Some v \<Rightarrow> rep0\<lparr>mIncarnation := vIncarnation v, mEpoch := vEpoch v\<rparr>)"
    using Handle_handle [OF assms(6)] assms(2) by (auto simp: live_request_def)
  have "prepare cs e a m = (rep0, a')"
    using h(1) assms(2,3) by (auto simp: live_request_def handle_def handle_gated_def Compare_def)
  moreover have "refuseIfForgetful a = None"
    using assms(2,4) by (simp add: refuseIfForgetful_def live_request_def)
  ultimately have "if promise_of cs a (mReg m) < b
    then rep0 = (Msg TPromise)\<lparr>mAccepted := rAccepted r, mValue := rValue r, mHasValue := rHasValue r\<rparr> \<and>
      a' = writeRow cs a (mReg m) (r\<lparr>rPromised := Bytes b\<rparr>)
    else rep0 = (Msg TConflict)\<lparr>mBallot := Bytes (promise_of cs a (mReg m))\<rparr> \<and> a' = a"
    using assms(2,5) readRow_row_of(2) [OF assms(1,5)]
    by (auto simp: prepare_def Let_def live_request_def env_ok_def split: if_splits)
  then show ?thesis using h(2) by (auto split: if_splits option.splits)
qed

lemma Handle_accept:
  assumes "acc_inv cs a" "live_request a e m b" "mType m = TAccept" "mNotAfter m = 0 \<or> now e \<le> mNotAfter m"
    "Handle cs e a m = (rep, a')"
  shows "if promise_of cs a (mReg m) \<le> b
    then mType rep = TAccepted \<and> a' = writeRow cs a (mReg m)
      \<lparr> rPromised = Bytes b, rAccepted = Bytes b, rValue = mValue m, rHasValue = mHasValue m \<rparr>
    else mType rep = TConflict \<and> mBallot rep = Bytes (promise_of cs a (mReg m)) \<and> a' = a"
proof -
  obtain rep0 where h: "handle cs e a m = (rep0, a')" "rep = (case aInstalled a' of None \<Rightarrow> rep0
      | Some v \<Rightarrow> rep0\<lparr>mIncarnation := vIncarnation v, mEpoch := vEpoch v\<rparr>)"
    using Handle_handle [OF assms(5)] assms(2) by (auto simp: live_request_def)
  have p: "accept cs e a m = (rep0, a')"
    using h(1) assms(2,3) by (auto simp: live_request_def handle_def handle_gated_def Compare_def)
  obtain r found where rd: "readRow cs e a (mReg m) = Inr (r, found)"
    using readRow_total [OF assms(1)] assms(2) unfolding live_request_def env_ok_def by blast
  note rr = readRow_row_of [OF assms(1) rd]
  have acc: "parse_ballot0 (rAccepted r) \<le> promise_of cs a (mReg m)"
    using rr(3) accepted_le_promise [OF assms(1), of "mReg m"] by simp
  have "if promise_of cs a (mReg m) \<le> b
    then rep0 = Msg TAccepted \<and> a' = writeRow cs a (mReg m)
      \<lparr> rPromised = Bytes b, rAccepted = Bytes b, rValue = mValue m, rHasValue = mHasValue m \<rparr>
    else rep0 = (Msg TConflict)\<lparr>mBallot := Bytes (promise_of cs a (mReg m))\<rparr> \<and> a' = a"
    using p rd rr(2) acc assms(2,4)
    by (auto simp: accept_def Let_def live_request_def env_ok_def split: if_splits)
  then show ?thesis using h(2) by (auto split: if_splits option.splits)
qed

lemma row_ok_prepared:
  assumes "acc_inv cs a" "readRow cs e a reg = Inr (r, found)" "promise_of cs a reg < b" "ballot_wf b"
  shows "row_ok (r\<lparr>rPromised := Bytes b\<rparr>)"
  using assms readRow_row_of(3) [OF assms(1,2)] accepted_le_promise [OF assms(1), of reg]
  by (simp add: row_ok_def)

section \<open>The states of the examples\<close>

lemma reach_fresh: "acc_reach std_codecs voter1 fresh_acceptor"
  unfolding fresh_acceptor_def
  by (rule acc_reach.opened) (simp add: OpenAcceptor_def acc_get_def db_get_def)

lemma reach_marked: "acc_reach std_codecs voter1 marked_acceptor"
  unfolding marked_acceptor_def by (rule acc_reach.handled [OF reach_fresh]) (rule prod.collapse [symmetric])

lemma reach_voting: "acc_reach std_codecs voter1 voting_acceptor"
  unfolding voting_acceptor_def by (rule acc_reach.handled [OF reach_marked]) (rule prod.collapse [symmetric])

lemma marked_fields:
  "aHasMarker marked_acceptor" "aMarker marked_acceptor = 1" "\<not> aRetired marked_acceptor"
  "\<not> aClosed marked_acceptor" "aInstalled marked_acceptor = None" "aSelf marked_acceptor = voter1"
  by (simp_all add: marked_acceptor_def fresh_acceptor_def OpenAcceptor_def acc_get_def db_get_def Handle_def
      handle_def SetMarker_def good_env_def)

lemma voting_fields:
  "aInstalled voting_acceptor = Some example_view" "\<not> aRetired voting_acceptor" "\<not> aClosed voting_acceptor"
  "aHasMarker voting_acceptor" "aMarker voting_acceptor = 1" "aSelf voting_acceptor = voter1"
  "\<not> Amnesiac voting_acceptor"
proof -
  have dec: "Unmarshal (view_codec std_codecs) (Marshal (view_codec std_codecs) example_view) = Some example_view"
    using std_codecs_ok by (simp add: codecs_ok_def)
  have v: "IsVoter example_view voter1" by (simp add: IsVoter_def example_view_def voter1_def)
  show "aInstalled voting_acceptor = Some example_view" "\<not> aRetired voting_acceptor" "\<not> aClosed voting_acceptor"
    "aHasMarker voting_acceptor" "aMarker voting_acceptor = 1" "aSelf voting_acceptor = voter1"
    using marked_fields v
    by (simp_all add: voting_acceptor_def Handle_def handle_def dec Install_def Let_def not_newer_def
        good_env_def split_beta)
  then show "\<not> Amnesiac voting_acceptor"
    by (simp add: Amnesiac_def example_view_def voter1_def)
qed

lemma voting_rows: "row_of std_codecs voting_acceptor reg = None" "aFloor voting_acceptor = zero_ballot"
proof -
  have dec: "Unmarshal (view_codec std_codecs) (Marshal (view_codec std_codecs) example_view) = Some example_view"
    using std_codecs_ok by (simp add: codecs_ok_def)
  have v: "IsVoter example_view voter1" by (simp add: IsVoter_def example_view_def voter1_def)
  have m: "aDB marked_acceptor = [(metaMarker, Marshal (marker_codec std_codecs) 1)]"
    "aFloor marked_acceptor = zero_ballot"
    by (simp_all add: marked_acceptor_def fresh_acceptor_def OpenAcceptor_def acc_get_def db_get_def Handle_def
        handle_def SetMarker_def good_env_def db_delete_def)
  have "db_get (rowPrefix @ reg) (aDB voting_acceptor) = None"
    using marked_fields v m
    by (simp add: voting_acceptor_def Handle_def handle_def dec Install_def Let_def not_newer_def
        good_env_def split_beta batch_gets) (simp add: db_get_def)
  then show "row_of std_codecs voting_acceptor reg = None" by (simp add: row_of_def)
  show "aFloor voting_acceptor = zero_ballot"
    using marked_fields v m
    by (simp add: voting_acceptor_def Handle_def handle_def dec Install_def Let_def not_newer_def
        good_env_def split_beta)
qed

lemma voting_promise: "promise_of std_codecs voting_acceptor reg = zero_ballot"
  using promise_of_eq [of std_codecs voting_acceptor reg] acc_reach_inv [OF std_codecs_ok reach_voting]
  by (simp add: voting_rows)

lemma example_ballot:
  "ballot_wf (Ballot c voter1)" "ParseBallot (Bytes (Ballot c voter1)) = Some (Ballot c voter1)"
  "Ballot c voter1 \<noteq> zero_ballot" "zero_ballot < Ballot c voter1"
  "vIncarnation example_view = 1" "vEpoch example_view = 3"
proof -
  show wf: "ballot_wf (Ballot c voter1)" by (simp add: ballot_wf_def voter1_def zero_31_def)
  then show "ParseBallot (Bytes (Ballot c voter1)) = Some (Ballot c voter1)" by simp
  show ne: "Ballot c voter1 \<noteq> zero_ballot"
    by (simp add: zero_ballot_def voter1_def zero_id_def numeral_eq_Suc)
  show "zero_ballot < Ballot c voter1" using zero_ballot_least [OF wf] ne by simp
qed (simp_all add: example_view_def)

lemma op_msg_fields [simp]:
  "mType (op_msg t reg b) = t" "mIncarnation (op_msg t reg b) = 1" "mEpoch (op_msg t reg b) = 3"
  "mReg (op_msg t reg b) = reg" "mBallot (op_msg t reg b) = Bytes b" "mNotAfter (op_msg t reg b) = 0"
  by (simp_all add: op_msg_def Msg_def)

lemma live_voting:
  "live_request voting_acceptor good_env (op_msg t reg (Ballot c voter1)) (Ballot c voter1)"
  by (simp add: live_request_def voting_fields env_ok_def good_env_def example_ballot)

lemma accepted_at_eq: "accepted_at reg = writeRow std_codecs voting_acceptor reg
    \<lparr> rPromised = Bytes (Ballot 9 voter1), rAccepted = Bytes (Ballot 9 voter1), rValue = [], rHasValue = False \<rparr>"
  using Handle_accept [OF _ live_voting _ _ prod.collapse [symmetric], of std_codecs TAccept reg 9]
    voting_promise acc_reach_inv [OF std_codecs_ok reach_voting]
  by (simp add: accepted_at_def example_ballot less_imp_le op_msg_def Msg_def)

lemma reach_accepted_at: "acc_reach std_codecs voter1 (accepted_at reg)"
  unfolding accepted_at_def by (rule acc_reach.handled [OF reach_voting]) (rule prod.collapse [symmetric])

lemma purged_at_eq: "purged_at reg = voting_acceptor\<lparr>aFloor := Ballot 9 voter1,
    aDB := db_set metaFloor (Bytes (Ballot 9 voter1)) (db_delete (rowPrefix @ reg) (aDB (accepted_at reg)))\<rparr>"
proof -
  have rd: "readRow std_codecs good_env (accepted_at reg) reg = Inr (\<lparr> rPromised = Bytes (Ballot 9 voter1),
      rAccepted = Bytes (Ballot 9 voter1), rValue = [], rHasValue = False \<rparr>, True)"
    using std_codecs_ok by (simp add: accepted_at_eq readRow_def good_env_def writeRow_def db_get_set codecs_ok_def)
  show ?thesis
    using rd voting_rows(2) voting_fields
    by (simp add: purged_at_def Handle_def handle_def purge_def Let_def example_ballot good_env_def
        accepted_at_eq writeRow_def)
qed

lemma reach_purged_at: "acc_reach std_codecs voter1 (purged_at reg)"
  unfolding purged_at_def by (rule acc_reach.handled [OF reach_accepted_at]) (rule prod.collapse [symmetric])

lemma row_of_purged_at: "row_of std_codecs (purged_at reg) reg = None"
  by (simp add: row_of_def purged_at_eq batch_gets)

section \<open>Quiet runs\<close>

lemma OpenAcceptor_reach:
  assumes "codecs_ok cs" "acc_reach cs self a"
  shows "OpenAcceptor cs reads_ok self (aDB a) = Some (a\<lparr>aClosed := False\<rparr>)"
  using OpenAcceptor_reads [OF assms(1), of a] acc_reach_inv [OF assms] by (auto simp: acc_inv_def)

lemma promise_of_closed [simp]: "promise_of cs (a\<lparr>aClosed := c\<rparr>) reg = promise_of cs a reg"
  by (simp add: promise_of_def row_of_def held_promise_def Let_def cong: option.case_cong)

lemma promise_mono_Handle:
  assumes "codecs_ok cs" "acc_reach cs self a" "Handle cs e a m = (rep, a')" "mType m \<noteq> TSeed"
    "aRetired a' \<longrightarrow> aRetired a"
  shows "promise_of cs a reg \<le> promise_of cs a' reg"
proof (cases "aClosed a")
  case True
  with assms(3) show ?thesis by (simp add: Handle_def)
next
  case False
  have "acc_inv cs a" using acc_reach_inv [OF assms(1,2)] by simp
  with Handle_handle [OF assms(3) False] promise_mono_handle [OF assms(1) _ _ assms(4,5)]
  show ?thesis by blast
qed

lemma quiet_promise:
  assumes "quiet_step cs self a a'" "codecs_ok cs" "acc_reach cs self a"
  shows "acc_reach cs self a' \<and> promise_of cs a reg \<le> promise_of cs a' reg"
  using assms(1)
proof cases
  case (message e m rep)
  then show ?thesis using promise_mono_Handle [OF assms(2,3)] acc_reach.handled [OF assms(3)] by blast
next
  case closing
  then show ?thesis using acc_reach.closed [OF assms(3)] by (simp add: Close_def)
next
  case restart
  then show ?thesis using acc_reach.restarted [OF assms(3)] OpenAcceptor_reach [OF assms(2,3)] by auto
qed

lemma quiet_run:
  assumes "(quiet_step cs self)\<^sup>*\<^sup>* a a'" "codecs_ok cs" "acc_reach cs self a"
  shows "acc_reach cs self a' \<and> promise_of cs a reg \<le> promise_of cs a' reg"
  using assms(1)
proof (induction rule: rtranclp_induct)
  case (step b c)
  then show ?case using quiet_promise [OF step.hyps(2) assms(2)] by (meson order_trans)
qed (use assms(3) in simp)

section \<open>Properties\<close>

text \<open>
  C17: What a restart recovers. Whatever messages an acceptor has handled, reopening its database
  gives back the state it had in memory, open, where the database can be read: installed view,
  marker, retirement, purge floor and rows. A record that cannot be read is not reported: the
  acceptor starts without that view, marker, floor or retirement as if it had never been written.
\<close>

theorem Acceptor_recovery:
  assumes "codecs_ok cs" "acc_reach cs self a"
  shows "OpenAcceptor cs rd self (aDB a) = Some (a\<lparr>aClosed := False,
    aInstalled := (if rd metaView then aInstalled a else None),
    aMarker := (if rd metaMarker then aMarker a else 0), aHasMarker := rd metaMarker \<and> aHasMarker a,
    aRetired := rd metaRetired \<and> aRetired a, aFloor := (if rd metaFloor then aFloor a else zero_ballot)\<rparr>)"
  using OpenAcceptor_meta [OF assms(1), of a rd] acc_reach_inv [OF assms] by (auto simp: acc_inv_def)

theorem Acceptor_recovery_witness:
  "OpenAcceptor std_codecs reads_ok voter1 (aDB (purged_at ''x'')) = Some (purged_at ''x'') \<and>
    OpenAcceptor std_codecs (\<lambda>k. k \<noteq> metaFloor) voter1 (aDB (purged_at ''x'')) = Some ((purged_at ''x'')\<lparr>aFloor := zero_ballot\<rparr>)"
  using Acceptor_recovery [OF std_codecs_ok reach_purged_at [of "''x''"], of reads_ok]
    Acceptor_recovery [OF std_codecs_ok reach_purged_at [of "''x''"], of "\<lambda>k. k \<noteq> metaFloor"] voting_fields
  by (simp add: purged_at_eq)

text \<open>
  C18: Promises never move back over any run of messages, closings and restarts that can read the
  database, as long as no message is a seed and none retires the acceptor: an accept, a purge that
  deletes the row (the floor takes its place) or a new view leaves every register's prepares and
  accepts held against at least the ballot they were held against before.
\<close>

theorem promises_monotone:
  assumes "codecs_ok cs" "acc_reach cs self a" "(quiet_step cs self)\<^sup>*\<^sup>* a a'"
  shows "promise_of cs a reg \<le> promise_of cs a' reg"
  using quiet_run [OF assms(3,1,2)] by blast

theorem promises_monotone_witness:
  "Ballot 9 voter1 \<le> promise_of std_codecs (the (OpenAcceptor std_codecs reads_ok voter1 (aDB (purged_at ''x'')))) ''x''"
proof -
  have "Handle std_codecs good_env (accepted_at ''x'') (op_msg TPurge ''x'' (Ballot 9 voter1)) =
      (fst (Handle std_codecs good_env (accepted_at ''x'') (op_msg TPurge ''x'' (Ballot 9 voter1))), purged_at ''x'')"
    by (simp add: purged_at_def)
  then have "quiet_step std_codecs voter1 (accepted_at ''x'') (purged_at ''x'')"
    by (rule quiet_step.message) (simp_all add: purged_at_eq voting_fields)
  moreover have "quiet_step std_codecs voter1 (purged_at ''x'')
      (the (OpenAcceptor std_codecs reads_ok voter1 (aDB (purged_at ''x''))))"
    by (rule quiet_step.restart) (simp add: OpenAcceptor_reach [OF std_codecs_ok reach_purged_at])
  ultimately have "(quiet_step std_codecs voter1)\<^sup>*\<^sup>* (accepted_at ''x'')
      (the (OpenAcceptor std_codecs reads_ok voter1 (aDB (purged_at ''x''))))" by simp
  from promises_monotone [OF std_codecs_ok reach_accepted_at this, of "''x''"] show ?thesis
    using acc_reach_inv [OF std_codecs_ok reach_voting]
    by (simp add: accepted_at_eq promise_of_writeRow row_ok_def example_ballot)
qed

text \<open>
  C20: What a prepare does. A live acceptor at the request's epoch promises exactly the ballots
  above what it has promised: then the reply carries the stored row, its accepted ballot, value
  and presence of a value, and the row is kept with the new promise; otherwise it reports the
  higher promise and keeps its state.
\<close>

theorem prepare_exact:
  assumes "codecs_ok cs" "acc_reach cs self a" "live_request a e m b" "mType m = TPrepare" "\<not> Amnesiac a"
    "Handle cs e a m = (rep, a')"
  shows "if promise_of cs a (mReg m) < b
    then mType rep = TPromise \<and> parse_ballot0 (mAccepted rep) = accepted_of cs a (mReg m) \<and>
      mAccepted rep = rAccepted (shown_row cs a (mReg m)) \<and> mValue rep = rValue (shown_row cs a (mReg m)) \<and>
      mHasValue rep = rHasValue (shown_row cs a (mReg m)) \<and>
      row_of cs a' (mReg m) = Some ((shown_row cs a (mReg m))\<lparr>rPromised := Bytes b\<rparr>) \<and>
      promise_of cs a' (mReg m) = b \<and> accepted_of cs a' (mReg m) = accepted_of cs a (mReg m)
    else mType rep = TConflict \<and> ParseBallot (mBallot rep) = Some (promise_of cs a (mReg m)) \<and> a' = a"
proof -
  have inv: "acc_inv cs a" using acc_reach_inv [OF assms(1,2)] by simp
  obtain r found where rd: "readRow cs e a (mReg m) = Inr (r, found)"
    using readRow_total [OF inv] assms(3) unfolding live_request_def env_ok_def by blast
  have wf: "ballot_wf b" using assms(3) ParseBallot_wf by (auto simp: live_request_def)
  note rr = readRow_row_of [OF inv rd]
  have shown: "shown_row cs a (mReg m) = r" using rr(1) by (auto simp: shown_row_def split: if_splits)
  have "row_ok (r\<lparr>rPromised := Bytes b\<rparr>)" if "promise_of cs a (mReg m) < b"
    using row_ok_prepared [OF inv rd that wf] .
  then show ?thesis unfolding shown
    using Handle_prepare [OF inv assms(3-5) rd assms(6)] rr(3) wf promise_of_wf [OF inv]
    by (auto simp: promise_of_writeRow [OF assms(1) inv] accepted_of_writeRow [OF assms(1)] row_of_writeRow [OF assms(1)])
qed

theorem prepare_exact_witness:
  "mAccepted (fst (Handle std_codecs good_env (accepted_at ''x'') (op_msg TPrepare ''x'' (Ballot 20 voter1)))) = Bytes (Ballot 9 voter1)"
proof -
  have f: "\<not> Amnesiac (accepted_at ''x'')" "live_request (accepted_at ''x'') good_env (op_msg TPrepare ''x'' (Ballot 20 voter1)) (Ballot 20 voter1)"
    using voting_fields(7) live_voting [of TPrepare "''x''" 20]
    by (simp_all add: accepted_at_eq writeRow_def live_request_def Amnesiac_def cong: option.case_cong)
  have inv: "acc_inv std_codecs voting_acceptor" using acc_reach_inv [OF std_codecs_ok reach_voting] by simp
  have "promise_of std_codecs (accepted_at ''x'') ''x'' = Ballot 9 voter1"
    by (simp add: accepted_at_eq promise_of_writeRow [OF std_codecs_ok inv] row_ok_def example_ballot)
  moreover have "rAccepted (shown_row std_codecs (accepted_at ''x'') ''x'') = Bytes (Ballot 9 voter1)"
    by (simp add: shown_row_def accepted_at_eq row_of_writeRow)
  ultimately show ?thesis
    using prepare_exact [OF std_codecs_ok reach_accepted_at f(2) _ f(1) prod.collapse [symmetric]]
    by (simp add: less_ballot_def)
qed

text \<open>
  C19: What an accept does. A live acceptor at the request's epoch and before the deadline takes
  exactly the ballots that are not below its promise: then the row holds the ballot, as promised
  and as accepted, and the value; otherwise it reports the higher ballot and keeps its state.
\<close>

theorem accept_exact:
  assumes "codecs_ok cs" "acc_reach cs self a" "live_request a e m b" "mType m = TAccept"
    "mNotAfter m = 0 \<or> now e \<le> mNotAfter m" "Handle cs e a m = (rep, a')"
  shows "if promise_of cs a (mReg m) \<le> b
    then mType rep = TAccepted \<and> row_of cs a' (mReg m) = Some \<lparr> rPromised = Bytes b, rAccepted = Bytes b,
        rValue = mValue m, rHasValue = mHasValue m \<rparr> \<and>
      promise_of cs a' (mReg m) = b \<and> accepted_of cs a' (mReg m) = b
    else mType rep = TConflict \<and> ParseBallot (mBallot rep) = Some (promise_of cs a (mReg m)) \<and> a' = a"
proof -
  have inv: "acc_inv cs a" using acc_reach_inv [OF assms(1,2)] by simp
  have "ballot_wf b" using assms(3) ParseBallot_wf by (auto simp: live_request_def)
  then show ?thesis
    using Handle_accept [OF inv assms(3-6)] promise_of_wf [OF inv, of "mReg m"]
    by (auto simp: promise_of_writeRow [OF assms(1) inv] accepted_of_writeRow [OF assms(1)]
        row_of_writeRow [OF assms(1)] row_ok_def)
qed

theorem accept_exact_witness:
  "accepted_of std_codecs
    (snd (Handle std_codecs good_env voting_acceptor (op_msg TAccept ''x'' (Ballot 5 voter1)))) ''x'' = Ballot 5 voter1"
  using accept_exact [OF std_codecs_ok reach_voting live_voting _ _ prod.collapse [symmetric],
      of TAccept "''x''"] voting_promise by (simp add: example_ballot less_imp_le)

text \<open>
  C21: The epoch gate. A prepare, accept, read or scan whose incarnation and epoch are not those
  of the installed view changes nothing: an older one is answered with the installed view, which
  decodes from the reply, a newer one (or any before a view is installed) with need-view.
\<close>

theorem epoch_gate:
  assumes "codecs_ok cs" "\<not> aClosed a" "mType m \<in> {TPrepare, TAccept, TRead, TScan}"
    "Handle cs e a m = (rep, a')"
    "\<forall>v. aInstalled a = Some v \<longrightarrow> Compare v (mIncarnation m) (mEpoch m) \<noteq> 0"
  shows "a' = a \<and> mType rep = TErr \<and>
    (case aInstalled a of
       None \<Rightarrow> mCode rep = CodeNeedView
     | Some v \<Rightarrow> if Compare v (mIncarnation m) (mEpoch m) > 0
         then mCode rep = CodeStaleView \<and> Unmarshal (view_codec cs) (mView rep) = Some v
         else mCode rep = CodeNeedView)"
proof -
  have "handle cs e a m = handle_gated cs e a m" using assms(3) by (auto simp: handle_def)
  with assms show ?thesis
    by (auto simp: Handle_def handle_gated_def codecs_ok_def Let_def split: option.splits if_splits)
qed

theorem epoch_gate_witness:
  "snd (Handle std_codecs good_env voting_acceptor (Msg TPrepare)) = voting_acceptor"
  using epoch_gate [OF std_codecs_ok voting_fields(3) _ prod.collapse [symmetric], of "Msg TPrepare" good_env]
  by (auto simp: voting_fields Compare_iff example_ballot Msg_def)

text \<open>
  Views are installed in order: after any message the installed view is the old one or one
  that is newer by incarnation, epoch and version.
\<close>

theorem installed_monotone:
  assumes "Handle cs e a m = (rep, a')" "aInstalled a = Some v"
  shows "\<exists>w. aInstalled a' = Some w \<and> view_le v w"
proof (cases "aClosed a")
  case True
  with assms show ?thesis by (simp add: Handle_def view_le_def)
next
  case False
  obtain rep0 where h: "handle cs e a m = (rep0, a')" using Handle_handle [OF assms(1) False] by blast
  show ?thesis
  proof (cases "mType m = TInstall")
    case True
    from h show ?thesis
    proof (cases rule: handle_cases)
      case (install w)
      then show ?thesis using view_le_Install [OF assms(2)] by simp
    next
      case gated
      then show ?thesis using aInstalled_gated assms(2) by (metis view_le_def)
    qed (use True assms(2) in \<open>simp_all add: view_le_def\<close>)
  next
    case other: False
    then show ?thesis using aInstalled_other [OF h] assms(2) by (auto simp: view_le_def)
  qed
qed

theorem installed_monotone_witness:
  "\<exists>w. aInstalled (snd (Handle std_codecs good_env voting_acceptor (Msg TPrepare))) = Some w \<and> view_le example_view w"
  by (rule installed_monotone [OF prod.collapse [symmetric] voting_fields(1)])

text \<open>
  C26: A retired or amnesiac acceptor never promises and never answers a read or a scan, and a
  retired one never accepts. An amnesiac acceptor that is not retired does accept.
\<close>

theorem forgetful_refuses:
  assumes "aRetired a \<or> Amnesiac a" "Handle cs e a m = (rep, a')"
  shows "mType rep \<notin> {TPromise, TReadReply, TScanReply} \<and> (aRetired a \<longrightarrow> mType rep \<noteq> TAccepted)"
proof (cases "aClosed a")
  case True
  with assms show ?thesis by (auto simp: Handle_def)
next
  case False
  obtain rep0 where h: "handle cs e a m = (rep0, a')" "mType rep = mType rep0"
    using Handle_handle [OF assms(2) False] by (auto split: option.splits)
  obtain r where r: "refuseIfForgetful a = Some r" "mType r = TErr"
    using assms(1) by (cases "aRetired a") (simp_all add: refuseIfForgetful_def)
  have "mType rep0 \<notin> {TPromise, TReadReply, TScanReply} \<and> (aRetired a \<longrightarrow> mType rep0 \<noteq> TAccepted)"
    using h(1)
  proof (cases rule: handle_cases)
    case gated
    then show ?thesis
      using r by (auto simp: handle_gated_def prepare_def read_def scan_def Let_def
          split: option.splits if_splits elim!: accept_cases)
  qed (auto simp: seed_def purge_def Let_def split: option.splits sum.splits prod.splits if_splits)
  with h(2) show ?thesis by simp
qed

theorem forgetful_refuses_witness:
  "mType (fst (Handle std_codecs good_env (voting_acceptor\<lparr>aRetired := True\<rparr>) (op_msg TPrepare ''x'' (Ballot 5 voter1)))) \<noteq> TPromise"
  using forgetful_refuses [of "voting_acceptor\<lparr>aRetired := True\<rparr>", OF _ prod.collapse [symmetric]] by simp

text \<open>
  C27: Paging through a scan. A page holds the next rows of the range in key order, at least one
  when there is any; it says that there is more exactly when rows are left, and a scan continued
  after the page's cursor ranges over exactly those: no row is skipped or repeated.
\<close>

theorem scan_paging:
  assumes "codecs_ok cs" "acc_reach cs self a" "\<not> aRetired a" "\<not> Amnesiac a" "read_ok e"
    "K = db_range (scan_lower m) (scan_upper m) (aDB a)" "rep = scan cs e a m"
  shows "\<exists>n \<le> length K. mRows rep = map (scan_entry cs) (take n K) \<and> (mMore rep \<longleftrightarrow> n < length K) \<and>
    (K \<noteq> [] \<longrightarrow> 0 < n) \<and>
    (mNext rep \<noteq> [] \<longrightarrow>
      db_range (scan_lower (m\<lparr>mAfter := mNext rep\<rparr>)) (scan_upper m) (aDB a) = drop n K)"
proof -
  have inv: "acc_inv cs a" using acc_reach_inv [OF assms(1,2)] by simp
  have "\<forall>kb \<in> set K. Unmarshal (row_codec cs) (snd kb) \<noteq> None"
    using rows_decode(1) [OF inv] assms(6) by blast
  from scan_loop_take [OF this, of "scan_limit (mLimit m)" "[]" 0] obtain n where
    n: "n \<le> length K" "scan_loop cs (scan_limit (mLimit m)) K [] 0 = (map (scan_entry cs) (take n K), n < length K)"
      "K \<noteq> [] \<Longrightarrow> 0 < n"
    using scan_limit_pos [of "mLimit m"] by (auto simp: MaxPageBytes_def)
  have rep: "mRows rep = map (scan_entry cs) (take n K)" "mMore rep \<longleftrightarrow> n < length K"
    "mNext rep = (if n = 0 then [] else srReg (scan_entry cs (K ! (n - 1))))"
    using assms(3-7) n(1,2)
    by (auto simp: scan_def refuseIfForgetful_def last_map last_conv_nth Msg_def)
  have "db_range (scan_lower (m\<lparr>mAfter := mNext rep\<rparr>)) (scan_upper m) (aDB a) = drop n K" if "mNext rep \<noteq> []"
  proof (rule scan_next_range [OF inv assms(6) _ n(1) that])
    show "0 < n" using that rep(3) by (cases n) auto
    then have "K ! (n - 1) \<in> set K" using n(1) by simp
    with rows_decode(2) [OF inv] assms(6) obtain reg where "fst (K ! (n - 1)) = rowPrefix @ reg" by blast
    with rep(3) \<open>0 < n\<close> show "fst (K ! (n - 1)) = rowPrefix @ mNext rep" by (simp add: scan_entry_def Let_def)
  qed
  with n rep show ?thesis by blast
qed

theorem scan_paging_witness:
  "mRows (scan std_codecs good_env (accepted_at ''x'') (Msg TScan)) \<noteq> []"
proof -
  have live: "\<not> aRetired (accepted_at ''x'')" "\<not> Amnesiac (accepted_at ''x'')"
    using voting_fields(2,7) by (simp_all add: accepted_at_eq writeRow_def Amnesiac_def cong: option.case_cong)
  obtain v where "db_get (rowPrefix @ ''x'') (aDB (accepted_at ''x'')) = Some v"
    by (simp add: accepted_at_eq writeRow_def db_get_set)
  then have "(''r/x'', v) \<in> set (aDB (accepted_at ''x''))"
    by (auto simp: db_get_def rowPrefix_def dest!: map_of_SomeD)
  moreover have "''r/'' \<le> ''r/x''" "''r/x'' < [CHR ''r'', CHR ''/'', CHR 0xFF]" by code_simp+
  ultimately have "db_range (scan_lower (Msg TScan)) (scan_upper (Msg TScan)) (aDB (accepted_at ''x'')) \<noteq> []"
    by (force simp: db_range_def scan_lower_def scan_upper_def Msg_def rowPrefix_def filter_empty_conv)
  with scan_paging [OF std_codecs_ok reach_accepted_at live _ refl refl, of good_env "Msg TScan"] show ?thesis
    by (auto simp: good_env_def)
qed

text \<open>
  C38: A prefix scan ends below the prefix followed by four bytes \<open>0xff\<close>: it never returns a
  register that continues the prefix with them, although it has the prefix.
\<close>

theorem scan_prefix_bound:
  assumes "codecs_ok cs" "acc_reach cs self a" "mPrefix m \<noteq> []"
  shows "mPrefix m @ replicate 4 CHR 0xff @ s \<notin> srReg ` set (mRows (scan cs e a m))"
proof
  assume "mPrefix m @ replicate 4 CHR 0xff @ s \<in> srReg ` set (mRows (scan cs e a m))"
  then obtain sr where sr: "sr \<in> set (mRows (scan cs e a m))" "srReg sr = mPrefix m @ replicate 4 CHR 0xff @ s"
    by auto
  have inv: "acc_inv cs a" using acc_reach_inv [OF assms(1,2)] by simp
  let ?K = "db_range (scan_lower m) (scan_upper m) (aDB a)"
  obtain n where "mRows (scan cs e a m) = [] \<or> mRows (scan cs e a m) = map (scan_entry cs) (take n ?K)"
    using scan_loop_take [of ?K cs "scan_limit (mLimit m)" "[]" 0] rows_decode(1) [OF inv]
    by (fastforce simp: scan_def refuseIfForgetful_def ErrMsg_def Msg_def split: if_splits option.splits)
  with sr(1) obtain kb where kb: "kb \<in> set (take n ?K)" "sr = scan_entry cs kb" by auto
  note K = in_set_takeD [OF kb(1)]
  obtain reg where "fst kb = rowPrefix @ reg" using rows_decode(2) [OF inv K] by blast
  with kb sr(2) have "fst kb = rowPrefix @ mPrefix m @ replicate 4 CHR 0xff @ s"
    by (simp add: scan_entry_def Let_def)
  moreover have "fst kb < scan_upper m" using K inv by (auto simp: db_range_def)
  ultimately have "(rowPrefix @ mPrefix m @ replicate 4 CHR 0xff) @ s <
      (rowPrefix @ mPrefix m @ replicate 4 CHR 0xff) @ []"
    using assms(3) by (simp add: scan_upper_def numeral_eq_Suc)
  then show False unfolding append_less_append [OF refl] by simp
qed

theorem scan_prefix_bound_witness:
  "row_of std_codecs (accepted_at (''a'' @ replicate 4 CHR 0xff)) (''a'' @ replicate 4 CHR 0xff) \<noteq> None \<and>
    ''a'' @ replicate 4 CHR 0xff \<notin> srReg ` set (mRows (scan std_codecs good_env
      (accepted_at (''a'' @ replicate 4 CHR 0xff)) ((Msg TScan)\<lparr>mPrefix := ''a''\<rparr>)))"
  using scan_prefix_bound [OF std_codecs_ok reach_accepted_at, of "(Msg TScan)\<lparr>mPrefix := ''a''\<rparr>" "[]"]
  by (simp add: accepted_at_eq row_of_writeRow)

text \<open>
  C39: A seed can lower a promise. When a tombstone has been purged the floor stands in for its
  row; a seed of the register with an older accepted ballot writes a row promised at that ballot,
  so prepares between the two are promised that were refused before.
\<close>

theorem seed_below_floor:
  assumes "codecs_ok cs" "acc_reach cs self a" "\<not> aClosed a" "env_ok e" "row_of cs a reg = None"
    "ballot_wf b" "b \<noteq> zero_ballot" "b < aFloor a" "mType m = TSeed"
    "mRows m = [\<lparr> srReg = reg, srPromised = Bytes b, srAccepted = Bytes b, srValue = val, srHasValue = has \<rparr>]"
    "Handle cs e a m = (rep, a')"
  shows "promise_of cs a' reg = b \<and> b < promise_of cs a reg"
proof -
  have inv: "acc_inv cs a" using acc_reach_inv [OF assms(1,2)] by simp
  obtain r found where rd: "readRow cs e a reg = Inr (r, found)"
    using readRow_total [OF inv] assms(4) unfolding env_ok_def by blast
  then have r: "r = empty_row" using readRow_row_of(1) [OF inv rd] assms(5) by (auto split: if_splits)
  have "zero_ballot < b" using zero_ballot_least [OF assms(6)] assms(7) by simp
  moreover from this have "\<not> b \<le> zero_ballot" by simp
  ultimately have "a' = writeRow cs a reg \<lparr> rPromised = Bytes b, rAccepted = Bytes b, rValue = val, rHasValue = has \<rparr>"
    using assms rd r by (auto simp: Handle_def handle_def seed_def env_ok_def writeRow_def empty_row_def Let_def)
  then show ?thesis
    using assms(6,8) promise_of_eq [OF inv, of reg] assms(5)
    by (simp add: promise_of_writeRow [OF assms(1) inv] row_ok_def)
qed

theorem seed_below_floor_witness:
  "promise_of std_codecs (snd (Handle std_codecs good_env (purged_at ''x'') ((Msg TSeed)\<lparr>mRows :=
      [\<lparr> srReg = ''x'', srPromised = Bytes (Ballot 5 voter1), srAccepted = Bytes (Ballot 5 voter1),
         srValue = ''old'', srHasValue = True \<rparr>]\<rparr>))) ''x'' = Ballot 5 voter1 \<and>
    Ballot 5 voter1 < promise_of std_codecs (purged_at ''x'') ''x''"
  by (rule seed_below_floor [OF std_codecs_ok reach_purged_at _ _ row_of_purged_at example_ballot(1,3) _ _ _
        prod.collapse [symmetric]])
    (simp_all add: purged_at_eq voting_fields env_ok_def good_env_def less_ballot_def Msg_def)

end
