(* ===== verification/Proposer.thy ===== *)
theory Proposer
  imports Acceptor "HOL-Library.AList"
begin

text \<open>
  The proposer of \<^verbatim>\<open>src/paxos/proposer.go\<close>: statistics, calls to acceptors, the prepare and the accept
  round, ballots above a conflict, \<^verbatim>\<open>Propose\<close> with its retries, \<^verbatim>\<open>Settle\<close>, the fast read, the
  majority scan, purges and installs. The Go interfaces \<^verbatim>\<open>Transport\<close>, \<^verbatim>\<open>Views\<close> and \<^verbatim>\<open>Ballots\<close>,
  the context, the clock and the order in which replies arrive are operations on a world \<open>'w\<close>,
  collected in the record \<open>penv\<close>. The calls of a broadcast are made one after the other, in the
  order in which their replies arrive.
\<close>

section \<open>Definitions\<close>

record Row =
  roAccepted :: ballot
  roValue :: bytes
  roHasValue :: bool

definition zero_Row :: Row where
  "zero_Row = \<lparr> roAccepted = zero_ballot, roValue = [], roHasValue = False \<rparr>"

record voter_stats =
  vsCalls :: u64
  vsFailures :: u64
  vsP99 :: int
  vsSamples :: "int list"

record 'w penv =
  trCall :: "node_id \<Rightarrow> msg \<Rightarrow> 'w \<Rightarrow> (string, msg) res \<times> 'w"
  vwView :: "'w \<Rightarrow> view option"
  vwAdopt :: "view \<Rightarrow> 'w \<Rightarrow> 'w"
  blNext :: "'w \<Rightarrow> u64 option \<times> 'w"
  blBump :: "(u64 \<Rightarrow> 'w \<Rightarrow> bool \<times> 'w) option"
  ctxErr :: "'w \<Rightarrow> bool"
  ckNow :: "'w \<Rightarrow> int"
  ckWait :: "int \<Rightarrow> 'w \<Rightarrow> bool \<times> 'w"
  scOrder :: "node_id list \<Rightarrow> 'w \<Rightarrow> node_id list \<times> 'w"

record 'w proposer =
  prSelf :: node_id
  prMaxInFlight :: nat
  prInflight :: "node_id \<Rightarrow> nat"
  prStats :: "node_id \<Rightarrow> voter_stats option"
  prWorld :: 'w

definition NewProposer :: "node_id \<Rightarrow> nat \<Rightarrow> 'w \<Rightarrow> 'w proposer" where
  "NewProposer self maxInFlight w =
    \<lparr> prSelf = self, prMaxInFlight = (if maxInFlight = 0 then 256 else maxInFlight),
      prInflight = (\<lambda>_. 0), prStats = (\<lambda>_. None), prWorld = w \<rparr>"

text \<open>The errors of a round; \<open>ChangeError\<close> carries the error of a change function.\<close>

datatype 'e perr =
    StaleError view | ConflictError ballot | ErrExpired | RemoteError remote_error
  | EpochError u64 u64 | CallError string | DecodeError | ErrUnavailable "'e perr option"
  | ErrUnknown nat nat | CtxError | NoView | BallotError | ChangeError 'e

subsection \<open>Statistics\<close>

definition snapshot :: "voter_stats \<Rightarrow> voter_stats" where
  "snapshot s =
    (let n = length (vsSamples s);
         cp = (if n > 0 then s\<lparr>vsP99 := sort (vsSamples s) ! (n * 99 div 100)\<rparr> else s)
     in cp\<lparr>vsSamples := []\<rparr>)"

definition Stats :: "'w proposer \<Rightarrow> node_id \<Rightarrow> voter_stats option" where
  "Stats p = (\<lambda>nid. map_option snapshot (prStats p nid))"

definition record_call :: "node_id \<Rightarrow> int \<Rightarrow> bool \<Rightarrow> 'w proposer \<Rightarrow> 'w proposer" where
  "record_call nid d failed p =
    (let s = (case prStats p nid of
                None \<Rightarrow> \<lparr> vsCalls = 0, vsFailures = 0, vsP99 = 0, vsSamples = [] \<rparr> | Some s \<Rightarrow> s);
         s = s\<lparr>vsCalls := vsCalls s + 1\<rparr>;
         s = (if failed then s\<lparr>vsFailures := vsFailures s + 1\<rparr> else s);
         s = s\<lparr>vsSamples := vsSamples s @ [d]\<rparr>;
         s = (if length (vsSamples s) > 512
              then s\<lparr>vsSamples := drop (length (vsSamples s) - 256) (vsSamples s)\<rparr> else s)
     in p\<lparr>prStats := (prStats p)(nid \<mapsto> s)\<rparr>)"

subsection \<open>Calls\<close>

definition stamp :: "view \<Rightarrow> msg \<Rightarrow> msg" where
  "stamp v m = m\<lparr>mClusterID := vClusterID v, mIncarnation := vIncarnation v, mEpoch := vEpoch v\<rparr>"

record reply =
  rpID :: node_id
  rpRes :: "(string, msg) res"

text \<open>One timed call of the transport.\<close>

definition timed_call :: "'w penv \<Rightarrow> node_id \<Rightarrow> msg \<Rightarrow> 'w proposer \<Rightarrow> (string, msg) res \<times> 'w proposer" where
  "timed_call env nid req p =
    (let start = ckNow env (prWorld p);
         (res, w) = trCall env nid req (prWorld p)
     in (res, record_call nid (ckNow env w - start) (case res of Inl _ \<Rightarrow> True | Inr _ \<Rightarrow> False)
                (p\<lparr>prWorld := w\<rparr>)))"

text \<open>The two attempts of a call; the first one may install the view and go on to the second.\<close>

definition call_attempts :: "codecs \<Rightarrow> 'w penv \<Rightarrow> view \<Rightarrow> node_id \<Rightarrow> msg \<Rightarrow> 'w proposer \<Rightarrow>
    (string, msg) res \<times> 'w proposer" where
  "call_attempts cs env v nid req p =
    (case timed_call env nid req p of
       (Inl e, p) \<Rightarrow> (Inl e, p)
     | (Inr resp, p) \<Rightarrow>
         if mType resp = TErr \<and> mCode resp = CodeNeedView
         then (let (res, w) = trCall env nid
                     (stamp v ((Msg TInstall)\<lparr>mView := Marshal (view_codec cs) v\<rparr>)) (prWorld p);
                   p = p\<lparr>prWorld := w\<rparr>
               in case res of
                    Inl e \<Rightarrow> (Inl e, p)
                  | Inr _ \<Rightarrow> timed_call env nid req p)
         else (Inr resp, p))"

definition call :: "codecs \<Rightarrow> 'w penv \<Rightarrow> view \<Rightarrow> node_id \<Rightarrow> msg \<Rightarrow> 'w proposer \<Rightarrow>
    (string, msg) res \<times> 'w proposer" where
  "call cs env v nid req p =
    (if prInflight p nid \<ge> prMaxInFlight p
     then (Inl ''paxos: acceptor in-flight cap reached'', p)
     else let p = p\<lparr>prInflight := (prInflight p)(nid := prInflight p nid + 1)\<rparr>;
              (res, p) = call_attempts cs env v nid req p
          in (res, p\<lparr>prInflight := (prInflight p)(nid := prInflight p nid - 1)\<rparr>))"

fun call_all :: "codecs \<Rightarrow> 'w penv \<Rightarrow> view \<Rightarrow> msg \<Rightarrow> node_id list \<Rightarrow> 'w proposer \<Rightarrow>
    reply list \<times> 'w proposer" where
  "call_all cs env v req [] p = ([], p)"
| "call_all cs env v req (nid # ids) p =
    (let (res, p) = call cs env v nid req p;
         (rs, p) = call_all cs env v req ids p
     in (\<lparr> rpID = nid, rpRes = res \<rparr> # rs, p))"

definition broadcast :: "codecs \<Rightarrow> 'w penv \<Rightarrow> view \<Rightarrow> msg \<Rightarrow> 'w proposer \<Rightarrow> reply list \<times> 'w proposer" where
  "broadcast cs env v req p =
    (let (ids, w) = scOrder env (VoterIDs v) (prWorld p)
     in call_all cs env v req ids (p\<lparr>prWorld := w\<rparr>))"

definition classify :: "codecs \<Rightarrow> view \<Rightarrow> reply \<Rightarrow> ('e perr, msg) res" where
  "classify cs v r =
    (case rpRes r of
       Inl e \<Rightarrow> Inl (CallError e)
     | Inr m \<Rightarrow>
         if mType m = TErr
         then if mCode m = CodeStaleView
              then (case Unmarshal (view_codec cs) (mView m) of
                      None \<Rightarrow> Inl DecodeError | Some nv \<Rightarrow> Inl (StaleError nv))
              else if mCode m = CodeExpired then Inl ErrExpired
              else Inl (RemoteError (ErrorFromMsg m))
         else if mIncarnation m \<noteq> vIncarnation v \<or> mEpoch m \<noteq> vEpoch v
              then Inl (EpochError (mIncarnation m) (mEpoch m))
         else if mType m = TConflict then Inl (ConflictError (parse_ballot0 (mBallot m)))
         else Inr m)"

subsection \<open>The two rounds\<close>

definition reply_row :: "msg \<Rightarrow> Row" where
  "reply_row m = \<lparr> roAccepted = parse_ballot0 (mAccepted m), roValue = mValue m, roHasValue = mHasValue m \<rparr>"

text \<open>\<open>aborts\<close>: errors that end a round at once.\<close>

fun aborts :: "'e perr \<Rightarrow> bool" where
  "aborts (StaleError v) = True"
| "aborts (ConflictError b) = True"
| "aborts e = False"

definition first_err :: "'e perr option \<Rightarrow> 'e perr \<Rightarrow> 'e perr option" where
  "first_err f e = (case f of None \<Rightarrow> Some e | Some _ \<Rightarrow> f)"

fun prepare_round :: "codecs \<Rightarrow> view \<Rightarrow> Row \<Rightarrow> nat \<Rightarrow> 'e perr option \<Rightarrow> reply list \<Rightarrow> ('e perr, Row) res" where
  "prepare_round cs v best promises firstErr [] = Inl (ErrUnavailable firstErr)"
| "prepare_round cs v best promises firstErr (r # rs) =
    (case classify cs v r of
       Inl err \<Rightarrow> if aborts err then Inl err
                  else prepare_round cs v best promises (first_err firstErr err) rs
     | Inr m \<Rightarrow>
         if mType m \<noteq> TPromise then prepare_round cs v best promises firstErr rs
         else let acc = parse_ballot0 (mAccepted m);
                  best = (if promises = 0 \<or> Ballot_Compare acc (roAccepted best) > 0
                          then reply_row m else best)
              in if promises + 1 \<ge> Quorum v then Inr best
                 else prepare_round cs v best (promises + 1) firstErr rs)"

definition Proposer_prepare :: "codecs \<Rightarrow> 'w penv \<Rightarrow> view \<Rightarrow> bytes \<Rightarrow> ballot \<Rightarrow> 'w proposer \<Rightarrow>
    ('e perr, Row) res \<times> 'w proposer" where
  "Proposer_prepare cs env v reg b p =
    (let (rs, p) = broadcast cs env v (stamp v ((Msg TPrepare)\<lparr>mReg := reg, mBallot := Bytes b\<rparr>)) p
     in (prepare_round cs v zero_Row 0 None rs, p))"

text \<open>\<open>None\<close>: a quorum has accepted.\<close>

fun accept_round :: "codecs \<Rightarrow> view \<Rightarrow> nat \<Rightarrow> 'e perr option \<Rightarrow> reply list \<Rightarrow> 'e perr option" where
  "accept_round cs v accepted firstErr [] =
    Some (if accepted > 0 then ErrUnknown accepted (Quorum v) else ErrUnavailable firstErr)"
| "accept_round cs v accepted firstErr (r # rs) =
    (case classify cs v r of
       Inl err \<Rightarrow> if aborts err \<or> err = ErrExpired then Some err
                  else accept_round cs v accepted (first_err firstErr err) rs
     | Inr m \<Rightarrow>
         if mType m = TAccepted
         then if accepted + 1 \<ge> Quorum v then None else accept_round cs v (accepted + 1) firstErr rs
         else accept_round cs v accepted firstErr rs)"

definition Proposer_accept :: "codecs \<Rightarrow> 'w penv \<Rightarrow> view \<Rightarrow> bytes \<Rightarrow> ballot \<Rightarrow> bytes \<Rightarrow> bool \<Rightarrow> int \<Rightarrow>
    'w proposer \<Rightarrow> 'e perr option \<times> 'w proposer" where
  "Proposer_accept cs env v reg b value hasValue notAfter p =
    (let (rs, p) = broadcast cs env v (stamp v ((Msg TAccept)\<lparr>mReg := reg, mBallot := Bytes b,
                     mValue := value, mHasValue := hasValue, mNotAfter := notAfter\<rparr>)) p
     in (accept_round cs v 0 None rs, p))"

subsection \<open>Ballots\<close>

definition nextBallot :: "'w penv \<Rightarrow> 'w proposer \<Rightarrow> ballot option \<times> 'w proposer" where
  "nextBallot env p =
    (let (c, w) = blNext env (prWorld p)
     in (map_option (\<lambda>c. Ballot c (prSelf p)) c, p\<lparr>prWorld := w\<rparr>))"

text \<open>One turn of the loop of \<^verbatim>\<open>ballotAbove\<close>: an answer, or go on.\<close>

definition ballot_turn :: "'w penv \<Rightarrow> ballot \<Rightarrow> 'w proposer \<Rightarrow> ballot option option \<times> 'w proposer" where
  "ballot_turn env b p =
    (case nextBallot env p of
       (None, p) \<Rightarrow> (Some None, p)
     | (Some nb, p) \<Rightarrow>
         if Ballot_Compare nb b > 0 then (Some (Some nb), p)
         else if Counter nb \<le> Counter b
         then (case blBump env of
                 None \<Rightarrow> (None, p)
               | Some bump \<Rightarrow>
                   (case bump (Counter b) (prWorld p) of
                      (False, w) \<Rightarrow> (Some None, p\<lparr>prWorld := w\<rparr>)
                    | (True, w) \<Rightarrow> (None, p\<lparr>prWorld := w\<rparr>)))
         else (None, p))"

partial_function (option) ballotAbove :: "'w penv \<Rightarrow> ballot \<Rightarrow> 'w proposer \<Rightarrow> (ballot option \<times> 'w proposer) option" where
  "ballotAbove env b p =
    (case ballot_turn env b p of
       (Some r, p) \<Rightarrow> Some (r, p)
     | (None, p) \<Rightarrow> ballotAbove env b p)"

declare ballotAbove.simps [code]

subsection \<open>Proposals\<close>

record result =
  reBallot :: ballot
  reValue :: bytes
  reHasValue :: bool

definition zero_result :: result where
  "zero_result = \<lparr> reBallot = zero_ballot, reValue = [], reHasValue = False \<rparr>"

definition row_result :: "Row \<Rightarrow> result" where
  "row_result r = \<lparr> reBallot = roAccepted r, reValue = roValue r, reHasValue = roHasValue r \<rparr>"

type_synonym 'e change_func = "Row \<Rightarrow> ballot \<Rightarrow> ('e, bytes \<times> bool) res"

definition Identity :: "'e change_func" where
  "Identity cur b = Inr (roValue cur, roHasValue cur)"

text \<open>\<open>None\<close> as first component: try again.\<close>

definition handleRoundError :: "'w penv \<Rightarrow> 'e perr \<Rightarrow> ballot \<Rightarrow> int \<Rightarrow> 'w proposer \<Rightarrow>
    'e perr option \<times> ballot \<times> int \<times> 'w proposer" where
  "handleRoundError env err lastb backoff p =
    (case err of
       StaleError v \<Rightarrow> (None, lastb, backoff, p\<lparr>prWorld := vwAdopt env v (prWorld p)\<rparr>)
     | ConflictError b \<Rightarrow>
         (let lastb = (if Ballot_Compare b lastb > 0 then b else lastb);
              (done, w) = ckWait env backoff (prWorld p);
              p = p\<lparr>prWorld := w\<rparr>
          in if done then (Some CtxError, lastb, backoff, p)
             else (None, lastb, (if backoff < 500000000 then backoff * 2 else backoff), p))
     | _ \<Rightarrow> (Some err, lastb, backoff, p))"

fun is_unknown :: "'e perr \<Rightarrow> bool" where
  "is_unknown (ErrUnknown a q) = True"
| "is_unknown e = False"

datatype ('e, 'w) verdict = Return result "'e perr option" "'w proposer" | Retry ballot int "'w proposer"

text \<open>What a round does with an error of its prepare or accept phase.\<close>

definition round_failed :: "'w penv \<Rightarrow> 'e perr \<Rightarrow> ballot \<Rightarrow> int \<Rightarrow> 'w proposer \<Rightarrow> ('e, 'w) verdict" where
  "round_failed env err lastb backoff p =
    (case handleRoundError env err lastb backoff p of
       (None, lastb, backoff, p) \<Rightarrow> Retry lastb backoff p
     | (Some err2, _, _, p) \<Rightarrow> Return zero_result (Some err2) p)"

text \<open>The part of a round after the prepare phase has found \<open>cur\<close>.\<close>

definition propose_found :: "codecs \<Rightarrow> 'w penv \<Rightarrow> bytes \<Rightarrow> 'e change_func \<Rightarrow> int \<Rightarrow> view \<Rightarrow> ballot \<Rightarrow> Row \<Rightarrow>
    ballot \<Rightarrow> int \<Rightarrow> 'w proposer \<Rightarrow> ('e, 'w) verdict" where
  "propose_found cs env reg fn notAfter v b cur lastb backoff p =
    (case fn cur b of
       Inl e \<Rightarrow>
         if IsZero (roAccepted cur) \<and> \<not> roHasValue cur
         then Return zero_result (Some (ChangeError e)) p
         else (case Proposer_accept cs env v reg b (roValue cur) (roHasValue cur) 0 p of
                 (None, p) \<Rightarrow> Return (row_result cur) (Some (ChangeError e)) p
               | (Some aerr, p) \<Rightarrow>
                   (case handleRoundError env aerr lastb backoff p of
                      (None, lastb, backoff, p) \<Rightarrow> Retry lastb backoff p
                    | (Some err2, _, _, p) \<Rightarrow>
                        if is_unknown aerr
                        then Return (row_result cur) (Some (ChangeError e)) p
                        else Return zero_result (Some err2) p))
     | Inr (value, hasValue) \<Rightarrow>
         (let res = \<lparr> reBallot = b, reValue = value, reHasValue = hasValue \<rparr>
          in case Proposer_accept cs env v reg b value hasValue notAfter p of
               (None, p) \<Rightarrow> Return res None p
             | (Some err, p) \<Rightarrow>
                 if is_unknown err then Return res (Some err) p
                 else round_failed env err lastb backoff p))"

text \<open>One turn of the loop of \<^verbatim>\<open>Propose\<close>; \<open>None\<close>: \<^verbatim>\<open>ballotAbove\<close> does not return.\<close>

definition propose_turn :: "codecs \<Rightarrow> 'w penv \<Rightarrow> bytes \<Rightarrow> 'e change_func \<Rightarrow> int \<Rightarrow> ballot \<Rightarrow> int \<Rightarrow> 'w proposer \<Rightarrow>
    ('e, 'w) verdict option" where
  "propose_turn cs env reg fn notAfter lastb backoff p =
    (if ctxErr env (prWorld p) then Some (Return zero_result (Some CtxError) p)
     else case vwView env (prWorld p) of
       None \<Rightarrow> Some (Return zero_result (Some NoView) p)
     | Some v \<Rightarrow>
         (case ballotAbove env lastb p of
            None \<Rightarrow> None
          | Some (None, p) \<Rightarrow> Some (Return zero_result (Some BallotError) p)
          | Some (Some b, p) \<Rightarrow>
              (case Proposer_prepare cs env v reg b p of
                 (Inl err, p) \<Rightarrow> Some (round_failed env err lastb backoff p)
               | (Inr cur, p) \<Rightarrow> Some (propose_found cs env reg fn notAfter v b cur lastb backoff p))))"

text \<open>The loop; the first argument bounds the number of turns.\<close>

fun propose_loop :: "nat \<Rightarrow> codecs \<Rightarrow> 'w penv \<Rightarrow> bytes \<Rightarrow> 'e change_func \<Rightarrow> int \<Rightarrow> ballot \<Rightarrow> int \<Rightarrow> 'w proposer \<Rightarrow>
    (result \<times> 'e perr option \<times> 'w proposer) option" where
  "propose_loop 0 cs env reg fn notAfter lastb backoff p = None"
| "propose_loop (Suc n) cs env reg fn notAfter lastb backoff p =
    (case propose_turn cs env reg fn notAfter lastb backoff p of
       None \<Rightarrow> None
     | Some (Return res err p) \<Rightarrow> Some (res, err, p)
     | Some (Retry lastb backoff p) \<Rightarrow> propose_loop n cs env reg fn notAfter lastb backoff p)"

definition Propose :: "nat \<Rightarrow> codecs \<Rightarrow> 'w penv \<Rightarrow> bytes \<Rightarrow> 'e change_func \<Rightarrow> int \<Rightarrow> 'w proposer \<Rightarrow>
    (result \<times> 'e perr option \<times> 'w proposer) option" where
  "Propose n cs env reg fn notAfter p = propose_loop n cs env reg fn notAfter zero_ballot 5000000 p"

definition Settle :: "nat \<Rightarrow> codecs \<Rightarrow> 'w penv \<Rightarrow> bytes \<Rightarrow> 'w proposer \<Rightarrow> (('e perr, Row) res \<times> 'w proposer) option" where
  "Settle n cs env reg p =
    (case Propose n cs env reg Identity 0 p of
       None \<Rightarrow> None
     | Some (res, Some err, p) \<Rightarrow> Some (Inl err, p)
     | Some (res, None, p) \<Rightarrow>
         Some (Inr \<lparr> roAccepted = reBallot res, roValue = reValue res, roHasValue = reHasValue res \<rparr>, p))"

subsection \<open>Reads\<close>

text \<open>The rows of the first quorum of read replies, or the newer view that one reply carries.\<close>

fun read_round :: "codecs \<Rightarrow> view \<Rightarrow> Row list \<Rightarrow> reply list \<Rightarrow> (view, Row list) res" where
  "read_round cs v rows [] = Inr rows"
| "read_round cs v rows (r # rs) =
    (case (classify cs v r :: (unit perr, msg) res) of
       Inl (StaleError nv) \<Rightarrow> Inl nv
     | Inl _ \<Rightarrow> read_round cs v rows rs
     | Inr m \<Rightarrow>
         if mType m \<noteq> TReadReply then read_round cs v rows rs
         else let rows = rows @ [reply_row m]
              in if length rows \<ge> Quorum v then Inr rows else read_round cs v rows rs)"

definition same_accepted :: "Row list \<Rightarrow> bool" where
  "same_accepted rows \<longleftrightarrow> list_all (\<lambda>r. Ballot_Compare (roAccepted r) (roAccepted (hd rows)) = 0) (tl rows)"

fun Read :: "nat \<Rightarrow> codecs \<Rightarrow> 'w penv \<Rightarrow> bytes \<Rightarrow> 'w proposer \<Rightarrow> (('e perr, Row) res \<times> 'w proposer) option" where
  "Read 0 cs env reg p = None"
| "Read (Suc n) cs env reg p =
    (case vwView env (prWorld p) of
       None \<Rightarrow> Some (Inl NoView, p)
     | Some v \<Rightarrow>
         (let (rs, p) = broadcast cs env v (stamp v ((Msg TRead)\<lparr>mReg := reg\<rparr>)) p
          in case read_round cs v [] rs of
               Inl nv \<Rightarrow> Read n cs env reg (p\<lparr>prWorld := vwAdopt env nv (prWorld p)\<rparr>)
             | Inr rows \<Rightarrow>
                 if length rows < Quorum v then Settle n cs env reg p
                 else if \<not> same_accepted rows then Settle n cs env reg p
                 else Some (Inr (hd rows), p)))"

subsection \<open>Scans\<close>

record merged_row =
  mrReg :: bytes
  mrRow :: Row
  mrUndecided :: bool

fun scan_round :: "codecs \<Rightarrow> view \<Rightarrow> reply list \<Rightarrow> (view, msg list) res" where
  "scan_round cs v [] = Inr []"
| "scan_round cs v (r # rs) =
    (case (classify cs v r :: (unit perr, msg) res) of
       Inl (StaleError nv) \<Rightarrow> Inl nv
     | Inl _ \<Rightarrow> scan_round cs v rs
     | Inr m \<Rightarrow>
         if mType m = TScanReply then map_sum id (\<lambda>ms. m # ms) (scan_round cs v rs)
         else scan_round cs v rs)"

fun scan_cut :: "bytes option \<Rightarrow> msg list \<Rightarrow> bytes option" where
  "scan_cut ct [] = ct"
| "scan_cut ct (m # ms) =
    scan_cut (if mMore m \<and> mNext m \<noteq> [] \<and> (case ct of None \<Rightarrow> True | Some c \<Rightarrow> mNext m < c)
              then Some (mNext m) else ct) ms"

record scan_acc =
  saRow :: Row
  saPromised :: ballot
  saCount :: nat
  saDisagree :: bool
  saStub :: bool

definition scan_merge :: "scan_row \<Rightarrow> scan_acc option \<Rightarrow> scan_acc" where
  "scan_merge sr a =
    (let accepted = parse_ballot0 (srAccepted sr);
         promised = parse_ballot0 (srPromised sr);
         row = \<lparr> roAccepted = accepted, roValue = srValue sr, roHasValue = srHasValue sr \<rparr>;
         a = (case a of
                None \<Rightarrow> \<lparr> saRow = row, saPromised = promised, saCount = 0, saDisagree = False, saStub = False \<rparr>
              | Some a \<Rightarrow>
                  a\<lparr>saDisagree := saDisagree a \<or> Ballot_Compare accepted (roAccepted (saRow a)) \<noteq> 0,
                    saRow := (if Ballot_Compare accepted (roAccepted (saRow a)) > 0 then row else saRow a),
                    saPromised := (if Ballot_Compare promised (saPromised a) > 0 then promised else saPromised a)\<rparr>);
         a = (if IsZero accepted then a\<lparr>saStub := True\<rparr> else a)
     in a\<lparr>saCount := saCount a + 1\<rparr>)"

definition beyond_cut :: "bytes option \<Rightarrow> bytes \<Rightarrow> bool" where
  "beyond_cut ct reg = (case ct of None \<Rightarrow> False | Some c \<Rightarrow> c < reg)"

text \<open>The Go map from registers to accumulators is an association list here.\<close>

fun merge_rows :: "bytes option \<Rightarrow> (bytes \<times> scan_acc) list \<Rightarrow> scan_row list \<Rightarrow> (bytes \<times> scan_acc) list" where
  "merge_rows ct acc [] = acc"
| "merge_rows ct acc (sr # srs) =
    (if beyond_cut ct (srReg sr) then merge_rows ct acc srs
     else merge_rows ct (AList.update (srReg sr) (scan_merge sr (map_of acc (srReg sr))) acc) srs)"

definition merged :: "nat \<Rightarrow> bytes \<times> scan_acc \<Rightarrow> merged_row" where
  "merged n = (\<lambda>(reg, a). \<lparr> mrReg = reg, mrRow = saRow a,
     mrUndecided = (saDisagree a \<or> saCount a < n \<or> Ballot_Compare (saPromised a) (roAccepted (saRow a)) > 0 \<or> saStub a) \<rparr>)"

definition merge_scans :: "msg list \<Rightarrow> merged_row list \<times> bytes option" where
  "merge_scans replies =
    (let ct = scan_cut None replies;
         acc = merge_rows ct [] (concat (map mRows replies))
     in (sort_key mrReg (map (merged (length replies)) acc), ct))"

fun Scan :: "nat \<Rightarrow> codecs \<Rightarrow> 'w penv \<Rightarrow> bytes \<Rightarrow> bytes \<Rightarrow> int \<Rightarrow> 'w proposer \<Rightarrow>
    (('e perr, merged_row list \<times> bytes option) res \<times> 'w proposer) option" where
  "Scan 0 cs env pfx after limit p = None"
| "Scan (Suc n) cs env pfx after limit p =
    (case vwView env (prWorld p) of
       None \<Rightarrow> Some (Inl NoView, p)
     | Some v \<Rightarrow>
         (let (rs, p) = broadcast cs env v
                (stamp v ((Msg TScan)\<lparr>mPrefix := pfx, mAfter := after, mLimit := limit\<rparr>)) p
          in case scan_round cs v rs of
               Inl nv \<Rightarrow> Scan n cs env pfx after limit (p\<lparr>prWorld := vwAdopt env nv (prWorld p)\<rparr>)
             | Inr replies \<Rightarrow>
                 if length replies < Quorum v then Some (Inl (ErrUnavailable None), p)
                 else Some (Inr (merge_scans replies), p)))"

subsection \<open>Purges, installs and full reads\<close>

definition Purge :: "codecs \<Rightarrow> 'w penv \<Rightarrow> bytes \<Rightarrow> ballot \<Rightarrow> 'w proposer \<Rightarrow> nat \<times> 'w proposer" where
  "Purge cs env reg b p =
    (case vwView env (prWorld p) of
       None \<Rightarrow> (0, p)
     | Some v \<Rightarrow>
         (let (rs, p) = broadcast cs env v (stamp v ((Msg TPurge)\<lparr>mReg := reg, mBallot := Bytes b\<rparr>)) p
          in (length (filter (\<lambda>r. case rpRes r of Inl _ \<Rightarrow> False | Inr m \<Rightarrow> mType m = TOK) rs), p)))"

fun install_all :: "'w penv \<Rightarrow> msg \<Rightarrow> node_id list \<Rightarrow> 'w proposer \<Rightarrow> node_id list \<times> 'w proposer" where
  "install_all env req [] p = ([], p)"
| "install_all env req (nid # ids) p =
    (let (res, w) = trCall env nid req (prWorld p);
         (rest, p) = install_all env req ids (p\<lparr>prWorld := w\<rparr>)
     in ((case res of Inl _ \<Rightarrow> rest | Inr m \<Rightarrow> if mType m = TInstalled then nid # rest else rest), p))"

definition Proposer_Install :: "codecs \<Rightarrow> 'w penv \<Rightarrow> view \<Rightarrow> node_id list \<Rightarrow> 'w proposer \<Rightarrow> node_id list \<times> 'w proposer" where
  "Proposer_Install cs env v to p =
    (let (ids, w) = scOrder env to (prWorld p)
     in install_all env (stamp v ((Msg TInstall)\<lparr>mView := Marshal (view_codec cs) v\<rparr>)) ids (p\<lparr>prWorld := w\<rparr>))"

text \<open>The Go map from voters to rows is an association list.\<close>

definition read_all_rows :: "codecs \<Rightarrow> view \<Rightarrow> reply list \<Rightarrow> (node_id \<times> Row) list" where
  "read_all_rows cs v rs =
    fold (\<lambda>r out. case (classify cs v r :: (unit perr, msg) res) of
        Inl _ \<Rightarrow> out
      | Inr m \<Rightarrow> if mType m \<noteq> TReadReply then out else AList.update (rpID r) (reply_row m) out) rs []"

definition ReadAll :: "codecs \<Rightarrow> 'w penv \<Rightarrow> bytes \<Rightarrow> 'w proposer \<Rightarrow> (node_id \<times> Row) list \<times> 'w proposer" where
  "ReadAll cs env reg p =
    (case vwView env (prWorld p) of
       None \<Rightarrow> ([], p)
     | Some v \<Rightarrow>
         (let (rs, p) = broadcast cs env v (stamp v ((Msg TRead)\<lparr>mReg := reg\<rparr>)) p
          in (read_all_rows cs v rs, p)))"

end
