(* ===== verification/Consensus.thy ===== *)
theory Consensus
  imports Acceptor_Props Proposer "HOL-Library.Sublist"
begin

text \<open>
  Acceptors and proposers together. The acceptors of the voters of one view handle requests in
  any order, any number of times or never, with any storage and clock; they crash and reopen
  their databases, which can then be read. Proposals come from prepare rounds over replies that were really given. The
  history keeps every exchange. Seeds and purges, which belong to the change of voters and to
  the collection of tombstones, and installs that retire an acceptor are left out.
\<close>

section \<open>Definitions\<close>

record proposal =
  prFound :: Row
  prValue :: bytes
  prHasValue :: bool

record system =
  syAcc :: "node_id \<Rightarrow> acceptor"
  syHist :: "(node_id \<times> msg \<times> msg) set"
  syProp :: "bytes \<Rightarrow> ballot \<Rightarrow> proposal option"

definition prepare_req :: "view \<Rightarrow> bytes \<Rightarrow> ballot \<Rightarrow> msg" where
  "prepare_req v reg b = stamp v ((Msg TPrepare)\<lparr>mReg := reg, mBallot := Bytes b\<rparr>)"

text \<open>The requests that may reach an acceptor: an accept carries a proposal that was made.\<close>

definition sent :: "system \<Rightarrow> msg \<Rightarrow> bool" where
  "sent s m \<longleftrightarrow> mType m \<in> {TPrepare, TRead, TScan, TInstall, TMarker} \<or>
    mType m = TAccept \<and> (\<exists>b pr. ParseBallot (mBallot m) = Some b \<and> syProp s (mReg m) b = Some pr \<and>
      mValue m = prValue pr \<and> mHasValue m = prHasValue pr)"

definition sys_init :: "codecs \<Rightarrow> system \<Rightarrow> bool" where
  "sys_init cs s \<longleftrightarrow> (\<forall>i. OpenAcceptor cs reads_ok i [] = Some (syAcc s i)) \<and> syHist s = {} \<and> (\<forall>reg b. syProp s reg b = None)"

text \<open>The replies of a round: one from each of some voters, an error or a recorded reply.\<close>

definition round_replies :: "view \<Rightarrow> system \<Rightarrow> msg \<Rightarrow> reply list \<Rightarrow> bool" where
  "round_replies v s req rs \<longleftrightarrow> distinct (map rpID rs) \<and> set (map rpID rs) \<subseteq> set (VoterIDs v) \<and>
    (\<forall>r \<in> set rs. \<forall>m. rpRes r = Inr m \<longrightarrow> (rpID r, req, m) \<in> syHist s)"

inductive sys_step :: "codecs \<Rightarrow> view \<Rightarrow> system \<Rightarrow> system \<Rightarrow> bool" for cs v where
  deliver: "sent s m \<Longrightarrow> Handle cs e (syAcc s i) m = (rep, a') \<Longrightarrow> (aRetired a' \<longrightarrow> aRetired (syAcc s i)) \<Longrightarrow>
    sys_step cs v s (s\<lparr>syAcc := (syAcc s)(i := a'), syHist := insert (i, m, rep) (syHist s)\<rparr>)"
| crash: "OpenAcceptor cs reads_ok i (aDB (syAcc s i)) = Some a' \<Longrightarrow>
    sys_step cs v s (s\<lparr>syAcc := (syAcc s)(i := a')\<rparr>)"
| propose: "ballot_wf b \<Longrightarrow> syProp s reg b = None \<Longrightarrow> round_replies v s (prepare_req v reg b) rs \<Longrightarrow>
    prepare_round cs v zero_Row 0 None rs = (Inr cur :: (unit perr, Row) res) \<Longrightarrow>
    sys_step cs v s (s\<lparr>syProp := (syProp s)(reg := (syProp s reg)(b \<mapsto>
      \<lparr> prFound = cur, prValue = value, prHasValue = has \<rparr>))\<rparr>)"

definition sys_reach :: "codecs \<Rightarrow> view \<Rightarrow> system \<Rightarrow> bool" where
  "sys_reach cs v s \<longleftrightarrow> (\<exists>s0. sys_init cs s0 \<and> (sys_step cs v)\<^sup>*\<^sup>* s0 s)"

definition voted :: "system \<Rightarrow> node_id \<Rightarrow> bytes \<Rightarrow> ballot \<Rightarrow> bool" where
  "voted s i reg b \<longleftrightarrow> (\<exists>m rep. (i, m, rep) \<in> syHist s \<and> mType m = TAccept \<and> mType rep = TAccepted \<and>
    mReg m = reg \<and> ParseBallot (mBallot m) = Some b)"

definition promised :: "system \<Rightarrow> node_id \<Rightarrow> bytes \<Rightarrow> ballot \<Rightarrow> Row \<Rightarrow> bool" where
  "promised s i reg b r \<longleftrightarrow> (\<exists>m rep. (i, m, rep) \<in> syHist s \<and> mType m = TPrepare \<and> mType rep = TPromise \<and>
    mReg m = reg \<and> ParseBallot (mBallot m) = Some b \<and> r = reply_row rep)"

text \<open>A ballot is chosen when a quorum of the voters has accepted it.\<close>

definition chosen :: "view \<Rightarrow> system \<Rightarrow> bytes \<Rightarrow> ballot \<Rightarrow> bool" where
  "chosen v s reg b \<longleftrightarrow> (\<exists>Q \<subseteq> set (VoterIDs v). Quorum v \<le> card Q \<and> (\<forall>i \<in> Q. voted s i reg b))"

text \<open>A proposal's parent is the ballot whose value its change function was given.\<close>

inductive ancestor :: "system \<Rightarrow> bytes \<Rightarrow> ballot \<Rightarrow> ballot \<Rightarrow> bool" for s reg where
  here: "ancestor s reg b b"
| parent: "syProp s reg b = Some pr \<Longrightarrow> ancestor s reg a (roAccepted (prFound pr)) \<Longrightarrow> ancestor s reg a b"

text \<open>What a row of a register should hold: nothing, or the value proposed at its ballot.\<close>

definition found_ok :: "system \<Rightarrow> bytes \<Rightarrow> Row \<Rightarrow> bool" where
  "found_ok s reg r \<longleftrightarrow>
    (if roAccepted r = zero_ballot then roValue r = [] \<and> \<not> roHasValue r
     else \<exists>pr. syProp s reg (roAccepted r) = Some pr \<and> roValue r = prValue pr \<and> roHasValue r = prHasValue pr)"

definition acc_row :: "codecs \<Rightarrow> acceptor \<Rightarrow> bytes \<Rightarrow> Row" where
  "acc_row cs a reg =
    (case row_of cs a reg of
       None \<Rightarrow> zero_Row
     | Some r \<Rightarrow> \<lparr> roAccepted = parse_ballot0 (rAccepted r), roValue = rValue r, roHasValue = rHasValue r \<rparr>)"

text \<open>
  The invariant of one acceptor and one register over the votes \<open>V\<close> and the promises \<open>P\<close> it has
  given: \<open>ok\<close> rows, proposed ballots \<open>hp\<close>, the row it holds and its promise \<open>pm\<close>.
\<close>

definition reg_inv :: "(Row \<Rightarrow> bool) \<Rightarrow> (ballot \<Rightarrow> bool) \<Rightarrow> (ballot \<Rightarrow> bool) \<Rightarrow> (ballot \<Rightarrow> Row \<Rightarrow> bool) \<Rightarrow> Row \<Rightarrow> ballot \<Rightarrow> bool" where
  "reg_inv ok hp V P row pm \<longleftrightarrow> ok row \<and> (roAccepted row = zero_ballot \<or> V (roAccepted row)) \<and>
    (\<forall>b. V b \<longrightarrow> b \<le> roAccepted row \<and> b \<noteq> zero_ballot \<and> hp b) \<and>
    (\<forall>b r. P b r \<longrightarrow> b \<le> pm \<and> roAccepted r < b \<and> ok r \<and> (\<forall>b'. V b' \<longrightarrow> b' < b \<longrightarrow> b' \<le> roAccepted r))"

definition node_inv :: "codecs \<Rightarrow> system \<Rightarrow> node_id \<Rightarrow> bytes \<Rightarrow> bool" where
  "node_inv cs s i reg \<longleftrightarrow> acc_inv cs (syAcc s i) \<and>
    reg_inv (found_ok s reg) (\<lambda>b. syProp s reg b \<noteq> None) (voted s i reg) (promised s i reg)
      (acc_row cs (syAcc s i) reg) (promise_of cs (syAcc s i) reg)"

definition prop_inv :: "view \<Rightarrow> system \<Rightarrow> bytes \<Rightarrow> bool" where
  "prop_inv v s reg \<longleftrightarrow> (\<forall>b pr. syProp s reg b = Some pr \<longrightarrow>
    roAccepted (prFound pr) < b \<and> found_ok s reg (prFound pr) \<and>
    (\<exists>Q \<subseteq> set (VoterIDs v). Quorum v \<le> card Q \<and>
      (\<forall>i \<in> Q. \<exists>r. promised s i reg b r \<and> roAccepted r \<le> roAccepted (prFound pr))))"

text \<open>A prepare round that succeeds has promises from a quorum, and found the highest of their rows.\<close>

definition gave_promise :: "reply list \<Rightarrow> node_id \<Rightarrow> Row \<Rightarrow> bool" where
  "gave_promise rs i row \<longleftrightarrow> (\<exists>r \<in> set rs. \<exists>m. rpID r = i \<and> rpRes r = Inr m \<and> mType m = TPromise \<and> row = reply_row m)"

definition round_found :: "view \<Rightarrow> reply list \<Rightarrow> Row \<Rightarrow> nat \<Rightarrow> Row \<Rightarrow> bool" where
  "round_found v rs best n cur \<longleftrightarrow> (\<exists>Q \<subseteq> rpID ` set rs. Quorum v \<le> n + card Q \<and>
    (\<forall>i \<in> Q. \<exists>row. gave_promise rs i row \<and> roAccepted row \<le> roAccepted cur) \<and>
    (n > 0 \<longrightarrow> roAccepted best \<le> roAccepted cur) \<and>
    (n > 0 \<and> cur = best \<or> (\<exists>i \<in> Q. gave_promise rs i cur)))"

definition sys_inv :: "codecs \<Rightarrow> view \<Rightarrow> system \<Rightarrow> bool" where
  "sys_inv cs v s \<longleftrightarrow> (\<forall>i reg. node_inv cs s i reg) \<and> (\<forall>reg. prop_inv v s reg) \<and>
    (\<forall>reg. finite {b. syProp s reg b \<noteq> None})"

text \<open>Read exchanges: what they reported was accepted, and by whom.\<close>

definition reported :: "system \<Rightarrow> node_id \<Rightarrow> bytes \<Rightarrow> Row \<Rightarrow> bool" where
  "reported s i reg r \<longleftrightarrow> (\<exists>m rep. (i, m, rep) \<in> syHist s \<and> mType m = TRead \<and> mType rep = TReadReply \<and>
    mReg m = reg \<and> r = reply_row rep)"

definition read_inv :: "system \<Rightarrow> bool" where
  "read_inv s \<longleftrightarrow> (\<forall>i reg r. reported s i reg r \<longrightarrow> found_ok s reg r \<and>
    (roAccepted r = zero_ballot \<or> voted s i reg (roAccepted r)))"

text \<open>Reads that began after \<open>s1\<close> see at least what was accepted in \<open>s1\<close>.\<close>

definition fresh_inv :: "system \<Rightarrow> system \<Rightarrow> bool" where
  "fresh_inv s1 s \<longleftrightarrow> syHist s1 \<subseteq> syHist s \<and>
    (\<forall>i m rep b. (i, m, rep) \<in> syHist s - syHist s1 \<longrightarrow> mType m = TRead \<longrightarrow> mType rep = TReadReply \<longrightarrow>
      voted s1 i (mReg m) b \<longrightarrow> b \<le> roAccepted (reply_row rep))"

text \<open>Acceptors that take part in rounds at the view \<open>v\<close>, and the accept request of a proposal.\<close>

definition live_at :: "view \<Rightarrow> acceptor \<Rightarrow> bool" where
  "live_at v a \<longleftrightarrow> \<not> aClosed a \<and> \<not> aRetired a \<and> \<not> Amnesiac a \<and> aInstalled a = Some v"

definition accept_req :: "view \<Rightarrow> bytes \<Rightarrow> ballot \<Rightarrow> bytes \<Rightarrow> bool \<Rightarrow> msg" where
  "accept_req v reg b value has =
    stamp v ((Msg TAccept)\<lparr>mReg := reg, mBallot := Bytes b, mValue := value, mHasValue := has\<rparr>)"

definition read_req :: "view \<Rightarrow> bytes \<Rightarrow> msg" where
  "read_req v reg = stamp v ((Msg TRead)\<lparr>mReg := reg\<rparr>)"

text \<open>The replies \<open>rs\<close> of the voters \<open>qs\<close> to \<open>req\<close>: all of type \<open>t\<close>, stamped and recorded.\<close>

definition all_replied :: "view \<Rightarrow> system \<Rightarrow> msg \<Rightarrow> int \<Rightarrow> node_id list \<Rightarrow> reply list \<Rightarrow> bool" where
  "all_replied v s req t qs rs \<longleftrightarrow> map rpID rs = qs \<and> (\<forall>r \<in> set rs. \<exists>m. rpRes r = Inr m \<and> mType m = t \<and>
    mIncarnation m = vIncarnation v \<and> mEpoch m = vEpoch v \<and> (rpID r, req, m) \<in> syHist s)"

section \<open>What a request does to the rows\<close>

lemma row_of_Install:
  "acc_inv cs a \<Longrightarrow> Install cs e a v = (ok, a') \<Longrightarrow> (aRetired a' \<longrightarrow> aRetired a) \<Longrightarrow>
    row_of cs a' reg = row_of cs a reg \<and> aFloor a' = aFloor a"
  by (auto simp: Install_def row_of_def Let_def acc_inv_def batch_commit_def db_get_set split: if_splits)

lemma row_of_SetMarker:
  "SetMarker cs e a x = (ok, a') \<Longrightarrow> row_of cs a' reg = row_of cs a reg \<and> aFloor a' = aFloor a"
  by (auto simp: SetMarker_def row_of_def batch_gets split: if_splits)

lemma Handle_effect:
  assumes "codecs_ok cs" "acc_inv cs a" "Handle cs e a m = (rep, a')" "mType m \<notin> {TSeed, TPurge}"
    "aRetired a' \<longrightarrow> aRetired a"
  obtains (quiet) "mType rep \<noteq> TPromise" "mType rep \<noteq> TAccepted" "\<And>reg. row_of cs a' reg = row_of cs a reg" "aFloor a' = aFloor a"
  | (promise) b r found where "mType m = TPrepare" "mType rep = TPromise" "ParseBallot (mBallot m) = Some b"
      "readRow cs e a (mReg m) = Inr (r, found)" "promise_of cs a (mReg m) < b"
      "a' = writeRow cs a (mReg m) (r\<lparr>rPromised := Bytes b\<rparr>)" "reply_row rep = acc_row cs a (mReg m)"
  | (vote) b where "mType m = TAccept" "mType rep = TAccepted" "ParseBallot (mBallot m) = Some b" "b \<noteq> zero_ballot"
      "promise_of cs a (mReg m) \<le> b" "a' = writeRow cs a (mReg m)
        \<lparr> rPromised = Bytes b, rAccepted = Bytes b, rValue = mValue m, rHasValue = mHasValue m \<rparr>"
proof (cases "aClosed a")
  case True
  with assms(3) show thesis by (intro quiet) (auto simp: Handle_def)
next
  case False
  from Handle_handle [OF assms(3) this] obtain rep0 where h: "handle cs e a m = (rep0, a')"
    "mType rep = mType rep0" "reply_row rep = reply_row rep0"
    by (auto simp: reply_row_def split: option.splits)
  from h(1) show thesis
  proof (cases rule: handle_cases)
    case (install v)
    then show thesis using h(2) assms row_of_Install [OF assms(2) prod.collapse [symmetric], of e v]
      by (intro quiet) auto
  next
    case marker
    then show thesis using h(2) row_of_SetMarker [OF prod.collapse [symmetric], of cs e a "mSince m"]
      by (intro quiet) auto
  next
    case gated
    then show thesis
    proof (cases rule: handle_gated_cases)
      case same
      then show thesis using h(2) by (intro quiet) auto
    next
      case prepare
      from prepare(2) show thesis
      proof (cases rule: prepare_cases)
        case refused
        then show thesis using h(2) by (intro quiet) auto
      next
        case (promised b r found)
        note rr = readRow_row_of [OF assms(2) promised(3)]
        have "reply_row rep0 = acc_row cs a (mReg m)"
          using promised(8) rr(1) by (auto simp: reply_row_def acc_row_def empty_row_def zero_Row_def split: if_splits)
        with promised prepare(1) h rr(2) show thesis by (intro promise) auto
      qed
    next
      case accept
      from accept(2) show thesis
      proof (cases rule: accept_cases)
        case refused
        then show thesis using h(2) by (intro quiet) auto
      next
        case (accepted b r found)
        with readRow_row_of(2) [OF assms(2) accepted(3)] accept(1) h show thesis by (intro vote) auto
      qed
    qed
  qed (use assms(4) h(2) in \<open>auto intro: quiet\<close>)
qed

section \<open>The invariant\<close>

lemma reg_inv_promise:
  assumes "reg_inv ok hp V P row pm" "pm < b" "roAccepted row \<le> pm"
  shows "reg_inv ok hp V (\<lambda>b' r. P b' r \<or> b = b' \<and> r = row) row b"
proof -
  have "b' \<le> b" if "P b' r" for b' r using assms(1,2) that unfolding reg_inv_def by (meson le_less_trans less_imp_le)
  moreover have "roAccepted row < b" using assms(2,3) by simp
  ultimately show ?thesis using assms(1) unfolding reg_inv_def by blast
qed

lemma reg_inv_vote:
  assumes "reg_inv ok hp V P row pm" "pm \<le> roAccepted row'" "roAccepted row \<le> pm" "ok row'" "hp (roAccepted row')"
    "roAccepted row' \<noteq> zero_ballot"
  shows "reg_inv ok hp (\<lambda>b'. V b' \<or> roAccepted row' = b') P row' (roAccepted row')"
proof -
  have "b' \<le> roAccepted row'" if "P b' r" for b' r using assms(1,2) that unfolding reg_inv_def by (meson order.trans)
  moreover have "b' \<le> roAccepted row'" if "V b'" for b'
    using assms(1) that order.trans [OF order.trans [OF _ assms(3)] assms(2)] unfolding reg_inv_def by blast
  ultimately show ?thesis using assms(1,4-6) unfolding reg_inv_def by (auto simp: not_less [symmetric])
qed

lemma reg_inv_more:
  assumes "reg_inv ok hp V P row pm" "\<And>r. ok r \<Longrightarrow> ok' r" "\<And>b. hp b \<Longrightarrow> hp' b"
  shows "reg_inv ok' hp' V P row pm"
  using assms unfolding reg_inv_def by blast

lemma quiet_same:
  assumes "acc_inv cs a" "acc_inv cs a'" "\<And>reg. row_of cs a' reg = row_of cs a reg" "aFloor a' = aFloor a"
  shows "promise_of cs a' reg = promise_of cs a reg" "acc_row cs a' reg = acc_row cs a reg"
  unfolding promise_of_eq [OF assms(1)] promise_of_eq [OF assms(2)] acc_row_def assms(3,4) by auto

lemma acc_row_accepted [simp]: "roAccepted (acc_row cs a reg) = accepted_of cs a reg"
  by (simp add: acc_row_def accepted_of_def zero_Row_def split: option.splits)

lemma voted_insert:
  "voted (s\<lparr>syAcc := f, syHist := insert (i, m, rep) (syHist s)\<rparr>) j reg = (\<lambda>b. voted s j reg b \<or>
    j = i \<and> mType m = TAccept \<and> mType rep = TAccepted \<and> mReg m = reg \<and> ParseBallot (mBallot m) = Some b)"
  by (auto simp: voted_def fun_eq_iff)

lemma promised_insert:
  "promised (s\<lparr>syAcc := f, syHist := insert (i, m, rep) (syHist s)\<rparr>) j reg = (\<lambda>b r. promised s j reg b r \<or>
    j = i \<and> mType m = TPrepare \<and> mType rep = TPromise \<and> mReg m = reg \<and> ParseBallot (mBallot m) = Some b \<and>
    r = reply_row rep)"
  by (auto simp: promised_def fun_eq_iff)

lemma found_ok_acc [simp]: "found_ok (s\<lparr>syAcc := f, syHist := h\<rparr>) = found_ok s"
  by (simp add: found_ok_def fun_eq_iff)

lemma hist_acc: "voted (s\<lparr>syAcc := f\<rparr>) = voted s" "promised (s\<lparr>syAcc := f\<rparr>) = promised s"
  "found_ok (s\<lparr>syAcc := f\<rparr>) = found_ok s"
  by (simp_all add: voted_def promised_def found_ok_def fun_eq_iff)

lemma other_types: "TPrepare \<noteq> TAccept" "TPromise \<noteq> TAccepted"
  by (simp_all add: TPrepare_def TAccept_def TPromise_def TAccepted_def)

lemma node_inv_promise:
  assumes "codecs_ok cs" "node_inv cs s i reg" "mType m = TPrepare" "mType rep = TPromise"
    "ParseBallot (mBallot m) = Some b" "readRow cs e (syAcc s i) (mReg m) = Inr (r, found)"
    "promise_of cs (syAcc s i) (mReg m) < b" "a' = writeRow cs (syAcc s i) (mReg m) (r\<lparr>rPromised := Bytes b\<rparr>)"
    "reply_row rep = acc_row cs (syAcc s i) (mReg m)"
  shows "node_inv cs (s\<lparr>syAcc := (syAcc s)(i := a'), syHist := insert (i, m, rep) (syHist s)\<rparr>) i reg"
proof -
  let ?a = "syAcc s i"
  have inv: "acc_inv cs ?a" using assms(2) by (simp add: node_inv_def)
  have wf: "ballot_wf b" by (rule ParseBallot_wf [OF assms(5)])
  have ok: "row_ok (r\<lparr>rPromised := Bytes b\<rparr>)" by (rule row_ok_prepared [OF inv assms(6,7) wf])
  have acc: "acc_row cs a' reg = acc_row cs ?a reg"
    using readRow_row_of(1) [OF inv assms(6)] assms(8)
    by (auto simp: acc_row_def row_of_writeRow [OF assms(1)] empty_row_def zero_Row_def split: if_splits)
  have pr: "promise_of cs a' reg = (if reg = mReg m then b else promise_of cs ?a reg)"
    using promise_of_writeRow [OF assms(1) inv ok] wf assms(8) by simp
  have inv': "acc_inv cs a'" using acc_inv_writeRow [OF assms(1) inv ok] assms(8) by simp
  show ?thesis
  proof (cases "reg = mReg m")
    case True
    with reg_inv_promise [OF _ assms(7)] assms(2) accepted_le_promise [OF inv, of reg] inv' acc pr
    show ?thesis using assms(3-5,9) by (simp add: node_inv_def voted_insert promised_insert other_types cong: conj_cong)
  next
    case False
    then show ?thesis using assms(2,3) inv' acc pr by (simp add: node_inv_def voted_insert promised_insert)
  qed
qed

lemma node_inv_vote:
  assumes "codecs_ok cs" "node_inv cs s i reg" "sent s m" "mType m = TAccept" "mType rep = TAccepted"
    "ParseBallot (mBallot m) = Some b" "b \<noteq> zero_ballot" "promise_of cs (syAcc s i) (mReg m) \<le> b"
    "a' = writeRow cs (syAcc s i) (mReg m)
      \<lparr> rPromised = Bytes b, rAccepted = Bytes b, rValue = mValue m, rHasValue = mHasValue m \<rparr>"
  shows "node_inv cs (s\<lparr>syAcc := (syAcc s)(i := a'), syHist := insert (i, m, rep) (syHist s)\<rparr>) i reg"
proof -
  let ?a = "syAcc s i" and ?row = "\<lparr> roAccepted = b, roValue = mValue m, roHasValue = mHasValue m \<rparr>"
  have inv: "acc_inv cs ?a" using assms(2) by (simp add: node_inv_def)
  have wf: "ballot_wf b" by (rule ParseBallot_wf [OF assms(6)])
  obtain pr where pr: "syProp s (mReg m) b = Some pr" "mValue m = prValue pr" "mHasValue m = prHasValue pr"
    using assms(3,4,6) by (auto simp: sent_def TPrepare_def TAccept_def TRead_def TScan_def TInstall_def TMarker_def)
  have new: "promise_of cs a' reg = (if reg = mReg m then b else promise_of cs ?a reg)" "acc_inv cs a'"
    "acc_row cs a' reg = (if reg = mReg m then ?row else acc_row cs ?a reg)"
    using assms(9) wf promise_of_writeRow [OF assms(1) inv] acc_inv_writeRow [OF assms(1) inv]
    by (auto simp: acc_row_def row_of_writeRow [OF assms(1)] row_ok_def)
  have "found_ok s (mReg m) ?row" using pr assms(7) by (simp add: found_ok_def)
  with reg_inv_vote [of "found_ok s (mReg m)" "\<lambda>b. syProp s (mReg m) b \<noteq> None" _ _ _ _ ?row]
    assms(2,7,8) accepted_le_promise [OF inv, of "mReg m"] pr(1)
  have "reg_inv (found_ok s reg) (\<lambda>b. syProp s reg b \<noteq> None) (\<lambda>b'. voted s i reg b' \<or> b = b') (promised s i reg) ?row b"
    if "reg = mReg m" using that by (auto simp: node_inv_def)
  then show ?thesis using assms(2,4-6) new other_types
    by (cases "reg = mReg m") (auto simp: node_inv_def voted_insert promised_insert cong: conj_cong)
qed

section \<open>Rounds\<close>

lemma classify_Inr:
  "classify cs v r = Inr m \<Longrightarrow> rpRes r = Inr m \<and> mIncarnation m = vIncarnation v \<and> mEpoch m = vEpoch v"
  by (auto simp: classify_def split: sum.splits if_splits option.splits)

lemma gave_promise_Cons: "gave_promise rs i row \<Longrightarrow> gave_promise (r # rs) i row"
  by (auto simp: gave_promise_def)

lemma round_foundI:
  "Q \<subseteq> rpID ` set rs \<Longrightarrow> Quorum v \<le> n + card Q \<Longrightarrow>
    (\<And>i. i \<in> Q \<Longrightarrow> \<exists>row. gave_promise rs i row \<and> roAccepted row \<le> roAccepted cur) \<Longrightarrow>
    (n > 0 \<longrightarrow> roAccepted best \<le> roAccepted cur) \<Longrightarrow>
    n > 0 \<and> cur = best \<or> (\<exists>i \<in> Q. gave_promise rs i cur) \<Longrightarrow> round_found v rs best n cur"
  unfolding round_found_def by blast

lemma round_found_skip:
  assumes "round_found v rs best n cur"
  shows "round_found v (r # rs) best n cur"
proof -
  obtain Q where Q: "Q \<subseteq> rpID ` set rs" "Quorum v \<le> n + card Q"
    "\<forall>i \<in> Q. \<exists>row. gave_promise rs i row \<and> roAccepted row \<le> roAccepted cur"
    "n > 0 \<longrightarrow> roAccepted best \<le> roAccepted cur" "n > 0 \<and> cur = best \<or> (\<exists>i \<in> Q. gave_promise rs i cur)"
    using assms unfolding round_found_def by blast
  show ?thesis
  proof (rule round_foundI [OF _ Q(2) _ Q(4)])
    show "Q \<subseteq> rpID ` set (r # rs)" using Q(1) by auto
    show "\<exists>row. gave_promise (r # rs) i row \<and> roAccepted row \<le> roAccepted cur" if "i \<in> Q" for i
      using Q(3) that gave_promise_Cons by blast
    show "n > 0 \<and> cur = best \<or> (\<exists>i \<in> Q. gave_promise (r # rs) i cur)"
      using Q(5) gave_promise_Cons by blast
  qed
qed

lemma round_found_count:
  assumes "round_found v rs best' (n + 1) cur" "gave_promise (r # rs) (rpID r) row" "rpID r \<notin> rpID ` set rs"
    "n > 0 \<longrightarrow> roAccepted best \<le> roAccepted best'" "roAccepted row \<le> roAccepted best'"
    "best' = row \<or> n > 0 \<and> best' = best"
  shows "round_found v (r # rs) best n cur"
proof -
  obtain Q where Q: "Q \<subseteq> rpID ` set rs" "Quorum v \<le> n + 1 + card Q"
    "\<forall>i \<in> Q. \<exists>row. gave_promise rs i row \<and> roAccepted row \<le> roAccepted cur"
    "roAccepted best' \<le> roAccepted cur" "cur = best' \<or> (\<exists>i \<in> Q. gave_promise rs i cur)"
    using assms(1) by (auto simp: round_found_def)
  have "finite Q" "rpID r \<notin> Q" using Q(1) assms(3) by (auto intro: finite_subset)
  then have "card (insert (rpID r) Q) = card Q + 1" by simp
  moreover have "roAccepted row \<le> roAccepted cur" "n > 0 \<longrightarrow> roAccepted best \<le> roAccepted cur"
    using Q(4) assms(4,5) by auto
  moreover have "n > 0 \<and> cur = best \<or> (\<exists>i \<in> insert (rpID r) Q. gave_promise (r # rs) i cur)"
    using Q(5) assms(2,6) by (auto intro: gave_promise_Cons)
  moreover have "\<exists>row. gave_promise (r # rs) i row \<and> roAccepted row \<le> roAccepted cur" if "i \<in> insert (rpID r) Q" for i
    using that Q(3) assms(2) calculation(2) gave_promise_Cons by blast
  ultimately show ?thesis using Q(1,2) by (intro round_foundI [of "insert (rpID r) Q"]) auto
qed

lemma prepare_round_quorum:
  fixes fe :: "'e perr option"
  assumes "prepare_round cs v best n fe rs = Inr cur" "distinct (map rpID rs)"
  shows "round_found v rs best n cur"
  using assms
proof (induction rs arbitrary: best n fe)
  case Nil
  then show ?case by simp
next
  case (Cons r rs)
  show ?case
  proof (cases "classify cs v r :: ('e perr, msg) res")
    case (Inl err)
    with Cons show ?thesis by (auto split: if_splits intro: round_found_skip)
  next
    case (Inr m)
    define best' where "best' = (if n = 0 \<or> Ballot_Compare (parse_ballot0 (mAccepted m)) (roAccepted best) > 0
      then reply_row m else best)"
    have best': "n > 0 \<longrightarrow> roAccepted best \<le> roAccepted best'" "roAccepted (reply_row m) \<le> roAccepted best'"
      "best' = reply_row m \<or> n > 0 \<and> best' = best"
      by (auto simp: best'_def reply_row_def Ballot_Compare_simps)
    consider "mType m \<noteq> TPromise" | "mType m = TPromise" "n + 1 \<ge> Quorum v" | "mType m = TPromise" "n + 1 < Quorum v"
      by linarith
    then show ?thesis
    proof cases
      case 1
      with Cons Inr show ?thesis by (auto intro: round_found_skip)
    next
      case 2
      then have "gave_promise (r # rs) (rpID r) (reply_row m)" using classify_Inr [OF Inr] by (auto simp: gave_promise_def)
      moreover have "cur = best'" using 2 Cons.prems(1) Inr by (simp add: best'_def Let_def)
      ultimately show ?thesis using 2(2) best' by (intro round_foundI [of "{rpID r}"]) auto
    next
      case 3
      have gave: "gave_promise (r # rs) (rpID r) (reply_row m)"
        using 3(1) classify_Inr [OF Inr] by (auto simp: gave_promise_def)
      have "prepare_round cs v best' (n + 1) fe rs = Inr cur"
        using 3 Cons.prems(1) Inr by (simp add: best'_def Let_def)
      from Cons.IH [OF this] Cons.prems(2) have "round_found v rs best' (n + 1) cur" by simp
      from round_found_count [OF this gave _ best'] Cons.prems(2) show ?thesis by auto
    qed
  qed
qed

section \<open>The invariant holds\<close>

lemma sys_inv_init:
  assumes "sys_init cs s"
  shows "sys_inv cs v s"
proof -
  have "aDB a = []" if "OpenAcceptor cs reads_ok i [] = Some a" for i a
    using that by (auto simp: OpenAcceptor_def acc_get_def Let_def db_get_def)
  then have "acc_inv cs (syAcc s i) \<and> aDB (syAcc s i) = []" for i
    using assms OpenAcceptor_empty [of cs reads_ok i] unfolding sys_init_def by blast
  then have "node_inv cs s i reg" for i reg
    using assms
    by (auto simp: node_inv_def reg_inv_def acc_row_def row_of_def db_get_def found_ok_def zero_Row_def
        voted_def promised_def sys_init_def)
  then show ?thesis using assms by (auto simp: sys_inv_def prop_inv_def sys_init_def)
qed

lemma prop_inv_mono:
  assumes "prop_inv v s reg" "syProp s' = syProp s" "\<And>i b r. promised s i reg b r \<Longrightarrow> promised s' i reg b r"
  shows "prop_inv v s' reg"
proof -
  have f: "found_ok s' reg = found_ok s reg" using assms(2) by (simp add: found_ok_def fun_eq_iff)
  show ?thesis unfolding prop_inv_def f assms(2)
  proof (intro allI impI)
    fix b pr assume "syProp s reg b = Some pr"
    with assms(1) obtain Q where Q: "roAccepted (prFound pr) < b" "found_ok s reg (prFound pr)"
      "Q \<subseteq> set (VoterIDs v)" "Quorum v \<le> card Q"
      "\<forall>i \<in> Q. \<exists>r. promised s i reg b r \<and> roAccepted r \<le> roAccepted (prFound pr)"
      unfolding prop_inv_def by blast
    have "\<exists>r. promised s' i reg b r \<and> roAccepted r \<le> roAccepted (prFound pr)" if i: "i \<in> Q" for i
    proof -
      from Q(5) i obtain r where "promised s i reg b r" "roAccepted r \<le> roAccepted (prFound pr)" by blast
      then show ?thesis by (intro exI [of _ r]) (simp add: assms(3))
    qed
    with Q(1-4) show "roAccepted (prFound pr) < b \<and> found_ok s reg (prFound pr) \<and>
      (\<exists>Q \<subseteq> set (VoterIDs v). Quorum v \<le> card Q \<and>
        (\<forall>i \<in> Q. \<exists>r. promised s' i reg b r \<and> roAccepted r \<le> roAccepted (prFound pr)))" by (intro conjI exI [of _ Q]) simp_all
  qed
qed

lemma sys_inv_deliver:
  assumes "codecs_ok cs" "sys_inv cs v s" "sent s m" "Handle cs e (syAcc s i) m = (rep, a')"
    "aRetired a' \<longrightarrow> aRetired (syAcc s i)"
  shows "sys_inv cs v (s\<lparr>syAcc := (syAcc s)(i := a'), syHist := insert (i, m, rep) (syHist s)\<rparr>)" (is "sys_inv _ _ ?s")
proof -
  have n: "node_inv cs s j reg" for j reg using assms(2) by (simp add: sys_inv_def)
  then have inv: "acc_inv cs (syAcc s i)" by (simp add: node_inv_def)
  have types: "mType m \<notin> {TSeed, TPurge}" using assms(3) by (auto simp: sent_def)
  have "node_inv cs ?s i reg" for reg
  proof (rule Handle_effect [OF assms(1) inv assms(4) types assms(5)], goal_cases)
    case 1
    have "acc_inv cs a'" using acc_inv_Handle [OF assms(1) inv] assms(4) by blast
    with 1 n [of i reg] quiet_same [OF inv this 1(3,4)] show ?case
      by (simp add: node_inv_def voted_insert promised_insert)
  next
    case (2 b r found)
    with node_inv_promise [OF assms(1) n] show ?case by blast
  next
    case (3 b)
    with node_inv_vote [OF assms(1) n assms(3)] show ?case by blast
  qed
  moreover have "node_inv cs ?s j reg" if "j \<noteq> i" for j reg
    using n [of j reg] that by (simp add: node_inv_def voted_insert promised_insert)
  moreover have "prop_inv v ?s reg" for reg
    using assms(2) by (rule_tac prop_inv_mono [of v s reg]) (auto simp: sys_inv_def promised_insert)
  moreover have "finite {b. syProp ?s reg b \<noteq> None}" for reg
    using assms(2) by (simp add: sys_inv_def)
  ultimately show ?thesis unfolding sys_inv_def by metis
qed

lemma sys_inv_crash:
  assumes "codecs_ok cs" "sys_inv cs v s" "OpenAcceptor cs reads_ok i (aDB (syAcc s i)) = Some a'"
  shows "sys_inv cs v (s\<lparr>syAcc := (syAcc s)(i := a')\<rparr>)" (is "sys_inv _ _ ?s")
proof -
  have inv: "acc_inv cs (syAcc s i)" using assms(2) by (simp add: sys_inv_def node_inv_def)
  then have "meta_ok cs ((syAcc s i)\<lparr>aSelf := i\<rparr>)" by (simp add: acc_inv_def meta_ok_def)
  from OpenAcceptor_reads [OF assms(1) this] assms(3) have a': "a' = (syAcc s i)\<lparr>aSelf := i, aClosed := False\<rparr>" by simp
  then have "acc_inv cs a'" using inv by (simp add: acc_inv_def meta_ok_def)
  with quiet_same [OF inv this] a' have "node_inv cs ?s j reg" for j reg
    using assms(2) by (cases "j = i") (simp_all add: sys_inv_def node_inv_def row_of_def hist_acc)
  moreover have "prop_inv v ?s reg" for reg
    using assms(2) by (rule_tac prop_inv_mono [of v s reg]) (auto simp: sys_inv_def hist_acc)
  ultimately show ?thesis using assms(2) by (simp add: sys_inv_def)
qed

lemma round_promised:
  assumes "round_replies v s (prepare_req v reg b) rs" "ballot_wf b" "gave_promise rs i row"
  shows "promised s i reg b row"
proof -
  obtain r m where r: "r \<in> set rs" "rpID r = i" "rpRes r = Inr m" "mType m = TPromise" "row = reply_row m"
    using assms(3) by (auto simp: gave_promise_def)
  then have "(i, prepare_req v reg b, m) \<in> syHist s" using assms(1) by (auto simp: round_replies_def)
  moreover have "mType (prepare_req v reg b) = TPrepare" "mReg (prepare_req v reg b) = reg"
    "ParseBallot (mBallot (prepare_req v reg b)) = Some b"
    using assms(2) by (simp_all add: prepare_req_def stamp_def)
  ultimately show ?thesis using r(4,5) unfolding promised_def by blast
qed

lemma sys_inv_propose:
  assumes "sys_inv cs v s" "ballot_wf b" "syProp s reg b = None" "round_replies v s (prepare_req v reg b) rs"
    "prepare_round cs v zero_Row 0 None rs = (Inr cur :: (unit perr, Row) res)"
  shows "sys_inv cs v (s\<lparr>syProp := (syProp s)(reg := (syProp s reg)(b \<mapsto>
      \<lparr> prFound = cur, prValue = value, prHasValue = has \<rparr>))\<rparr>)" (is "sys_inv _ _ ?s")
proof -
  have same: "voted ?s = voted s" "promised ?s = promised s" by (simp_all add: voted_def promised_def fun_eq_iff)
  have found: "found_ok s reg' r \<Longrightarrow> found_ok ?s reg' r" for reg' r
    using assms(3) by (auto simp: found_ok_def split: if_splits)
  have "node_inv cs ?s i reg'" for i reg'
  proof -
    have n: "node_inv cs s i reg'" using assms(1) by (simp add: sys_inv_def)
    then have "reg_inv (found_ok s reg') (\<lambda>b. syProp s reg' b \<noteq> None) (voted s i reg') (promised s i reg')
        (acc_row cs (syAcc s i) reg') (promise_of cs (syAcc s i) reg')" by (simp add: node_inv_def)
    then have "reg_inv (found_ok ?s reg') (\<lambda>b. syProp ?s reg' b \<noteq> None) (voted s i reg') (promised s i reg')
        (acc_row cs (syAcc s i) reg') (promise_of cs (syAcc s i) reg')"
      by (rule reg_inv_more) (auto intro: found)
    then show ?thesis using n by (simp add: node_inv_def same)
  qed
  moreover have "prop_inv v ?s reg'" for reg'
    unfolding prop_inv_def same
  proof (intro allI impI)
    fix b' pr assume pr: "syProp ?s reg' b' = Some pr"
    show "roAccepted (prFound pr) < b' \<and> found_ok ?s reg' (prFound pr) \<and>
      (\<exists>Q \<subseteq> set (VoterIDs v). Quorum v \<le> card Q \<and>
        (\<forall>i \<in> Q. \<exists>r. promised s i reg' b' r \<and> roAccepted r \<le> roAccepted (prFound pr)))"
    proof (cases "reg' = reg \<and> b' = b")
      case False
      with pr have "syProp s reg' b' = Some pr" by (auto split: if_splits)
      moreover have "prop_inv v s reg'" using assms(1) by (simp add: sys_inv_def)
      ultimately show ?thesis using found unfolding prop_inv_def by blast
    next
      case True
      then have cur: "prFound pr = cur" using pr by auto
      have "distinct (map rpID rs)" using assms(4) by (simp add: round_replies_def)
      from prepare_round_quorum [OF assms(5) this] obtain Q i where
        Q: "Q \<subseteq> rpID ` set rs" "Quorum v \<le> card Q" "gave_promise rs i cur"
          "\<And>i. i \<in> Q \<Longrightarrow> \<exists>row. gave_promise rs i row \<and> roAccepted row \<le> roAccepted cur"
        by (auto simp: round_found_def)
      have "roAccepted cur < b \<and> found_ok s reg cur"
        using round_promised [OF assms(4,2) Q(3)] assms(1) by (auto simp: sys_inv_def node_inv_def reg_inv_def)
      moreover have "Q \<subseteq> set (VoterIDs v)" using Q(1) assms(4) by (auto simp: round_replies_def)
      moreover have "\<forall>i \<in> Q. \<exists>r. promised s i reg b r \<and> roAccepted r \<le> roAccepted cur"
        using Q(4) round_promised [OF assms(4,2)] by blast
      ultimately show ?thesis using Q(2) True cur found by blast
    qed
  qed
  moreover have "finite {b'. syProp ?s reg' b' \<noteq> None}" for reg'
  proof (rule finite_subset)
    show "{b'. syProp ?s reg' b' \<noteq> None} \<subseteq> insert b {b'. syProp s reg' b' \<noteq> None}" by (auto split: if_splits)
    show "finite (insert b {b'. syProp s reg' b' \<noteq> None})" using assms(1) by (simp add: sys_inv_def)
  qed
  ultimately show ?thesis unfolding sys_inv_def by (intro conjI allI)
qed

lemma sys_inv_step:
  assumes "codecs_ok cs" "sys_inv cs v s" "sys_step cs v s s'"
  shows "sys_inv cs v s'"
  using assms(3)
proof cases
  case deliver
  then show ?thesis using sys_inv_deliver [OF assms(1,2)] by blast
next
  case crash
  then show ?thesis using sys_inv_crash [OF assms(1,2)] by blast
next
  case propose
  then show ?thesis using sys_inv_propose [OF assms(2)] by blast
qed

lemma sys_reach_inv:
  assumes "codecs_ok cs" "sys_reach cs v s"
  shows "sys_inv cs v s"
proof -
  obtain s0 where s0: "sys_init cs s0" "(sys_step cs v)\<^sup>*\<^sup>* s0 s" using assms(2) by (auto simp: sys_reach_def)
  from s0(2) show ?thesis
  proof (induction rule: rtranclp_induct)
    case base
    show ?case by (rule sys_inv_init [OF s0(1)])
  next
    case (step y z)
    show ?case by (rule sys_inv_step [OF assms(1) step.IH step.hyps(2)])
  qed
qed

section \<open>Agreement\<close>

lemma quorums_meet:
  assumes "distinct (VoterIDs v)" "A \<subseteq> set (VoterIDs v)" "B \<subseteq> set (VoterIDs v)" "Quorum v \<le> card A" "Quorum v \<le> card B"
  shows "\<exists>i. i \<in> A \<and> i \<in> B"
proof -
  have "card (set (VoterIDs v)) = length (vVoters v)"
    using distinct_card [OF assms(1)] by (simp add: VoterIDs_def)
  moreover have "length (vVoters v) < 2 * Quorum v" by (simp add: Quorum_def)
  ultimately show ?thesis
    using majorities_meet [OF _ assms(2,3)] assms(4,5) by auto
qed

lemma prop_invD:
  assumes "sys_inv cs v s" "syProp s reg b = Some pr"
  shows "roAccepted (prFound pr) < b" "found_ok s reg (prFound pr)"
    "\<exists>Q \<subseteq> set (VoterIDs v). Quorum v \<le> card Q \<and>
      (\<forall>i \<in> Q. \<exists>r. promised s i reg b r \<and> roAccepted r \<le> roAccepted (prFound pr))"
proof -
  have "prop_inv v s reg" using assms(1) by (simp add: sys_inv_def)
  from this [unfolded prop_inv_def, THEN spec, THEN spec, THEN mp, OF assms(2)]
  show "roAccepted (prFound pr) < b" "found_ok s reg (prFound pr)"
    "\<exists>Q \<subseteq> set (VoterIDs v). Quorum v \<le> card Q \<and>
      (\<forall>i \<in> Q. \<exists>r. promised s i reg b r \<and> roAccepted r \<le> roAccepted (prFound pr))" by simp_all
qed

text \<open>A later proposal has found a chosen ballot or one above it.\<close>

lemma chosen_below_parent:
  assumes "distinct (VoterIDs v)" "sys_inv cs v s" "chosen v s reg b1" "syProp s reg b2 = Some pr" "b1 < b2"
  shows "b1 \<le> roAccepted (prFound pr)"
proof -
  obtain Q1 where Q1: "Q1 \<subseteq> set (VoterIDs v)" "Quorum v \<le> card Q1" "\<And>i. i \<in> Q1 \<Longrightarrow> voted s i reg b1"
    using assms(3) by (auto simp: chosen_def)
  obtain Q2 where Q2: "Q2 \<subseteq> set (VoterIDs v)" "Quorum v \<le> card Q2"
    "\<forall>i \<in> Q2. \<exists>r. promised s i reg b2 r \<and> roAccepted r \<le> roAccepted (prFound pr)"
    using prop_invD(3) [OF assms(2,4)] by (elim exE conjE)
  obtain i where i: "i \<in> Q1" "i \<in> Q2"
    using quorums_meet [OF assms(1) Q1(1) Q2(1) Q1(2) Q2(2)] by (elim exE conjE)
  obtain r where "promised s i reg b2 r" "roAccepted r \<le> roAccepted (prFound pr)"
    using bspec [OF Q2(3) i(2)] by (elim exE conjE)
  moreover from this have "b1 \<le> roAccepted r"
    using Q1(3) [OF i(1)] assms(2,5) by (auto simp: sys_inv_def node_inv_def reg_inv_def)
  ultimately show ?thesis by simp
qed

lemma chosen_real:
  assumes "sys_inv cs v s" "chosen v s reg b"
  shows "b \<noteq> zero_ballot" "ballot_wf b" "syProp s reg b \<noteq> None"
proof -
  obtain Q where Q: "Quorum v \<le> card Q" "\<And>i. i \<in> Q \<Longrightarrow> voted s i reg b" using assms(2) by (auto simp: chosen_def)
  have "Q \<noteq> {}" using Q(1) by (auto simp: Quorum_def)
  with Q(2) obtain i where i: "voted s i reg b" by blast
  then show "ballot_wf b" by (auto simp: voted_def intro: ParseBallot_wf)
  have "node_inv cs s i reg" using assms(1) by (simp add: sys_inv_def)
  with i show "b \<noteq> zero_ballot" "syProp s reg b \<noteq> None" by (auto simp: node_inv_def reg_inv_def)
qed

lemma chosen_ancestor:
  assumes "distinct (VoterIDs v)" "sys_inv cs v s" "chosen v s reg b1" "syProp s reg b2 \<noteq> None" "b1 \<le> b2"
  shows "ancestor s reg b1 b2"
  using assms(4,5)
proof (induction "card {b. syProp s reg b \<noteq> None \<and> b < b2}" arbitrary: b2 rule: less_induct)
  case less
  show ?case
  proof (cases "b1 = b2")
    case True
    then show ?thesis by (simp add: ancestor.here)
  next
    case False
    obtain pr where pr: "syProp s reg b2 = Some pr" using less.prems(1) by auto
    let ?p = "roAccepted (prFound pr)"
    have le: "b1 \<le> ?p" using chosen_below_parent [OF assms(1-3) pr] False less.prems(2) by simp
    note p = prop_invD(1,2) [OF assms(2) pr]
    have "?p \<noteq> zero_ballot"
      using le chosen_real [OF assms(2,3)] zero_ballot_least [of b1] by (auto simp: antisym_conv)
    then have "syProp s reg ?p \<noteq> None" using p(2) by (auto simp: found_ok_def)
    moreover have "card {b. syProp s reg b \<noteq> None \<and> b < ?p} < card {b. syProp s reg b \<noteq> None \<and> b < b2}"
    proof (rule psubset_card_mono)
      have "finite {b. syProp s reg b \<noteq> None}" using assms(2) by (simp add: sys_inv_def)
      then show "finite {b. syProp s reg b \<noteq> None \<and> b < b2}" by (rule rev_finite_subset) auto
      have "?p \<in> {b. syProp s reg b \<noteq> None \<and> b < b2}" using calculation p(1) by simp
      moreover have "?p \<notin> {b. syProp s reg b \<noteq> None \<and> b < ?p}" by simp
      ultimately show "{b. syProp s reg b \<noteq> None \<and> b < ?p} \<subset> {b. syProp s reg b \<noteq> None \<and> b < b2}"
        using p(1) by (intro psubsetI) (blast intro: less_trans, blast)
    qed
    ultimately show ?thesis using less.hyps [of ?p] le by (intro ancestor.parent [OF pr]) auto
  qed
qed

section \<open>Fast reads\<close>

lemma read_round_rows:
  assumes "read_round cs v rows rs = Inr rows'"
  shows "\<exists>rs'. subseq rs' rs \<and> rows' = rows @ map (reply_row \<circ> projr \<circ> rpRes) rs' \<and>
    (\<forall>r \<in> set rs'. \<exists>m. rpRes r = Inr m \<and> mType m = TReadReply)"
  using assms
proof (induction rs arbitrary: rows)
  case Nil
  then show ?case by auto
next
  case (Cons r rs)
  show ?case
  proof (cases "classify cs v r :: (unit perr, msg) res")
    case (Inl err)
    with Cons.prems have "read_round cs v rows rs = Inr rows'" by (auto split: perr.splits)
    from Cons.IH [OF this] show ?thesis by (blast intro: subseq_Cons')
  next
    case (Inr m)
    show ?thesis
    proof (cases "mType m = TReadReply")
      case False
      with Inr Cons.prems have "read_round cs v rows rs = Inr rows'" by simp
      from Cons.IH [OF this] show ?thesis by (blast intro: subseq_Cons')
    next
      case True
      have m: "rpRes r = Inr m" using classify_Inr [OF Inr] by simp
      show ?thesis
      proof (cases "length (rows @ [reply_row m]) \<ge> Quorum v")
        case enough: True
        then have "rows' = rows @ [reply_row m]" using Inr True Cons.prems by simp
        then show ?thesis using m True by (intro exI [of _ "[r]"]) (simp add: subseq_Cons2)
      next
        case False
        then have "read_round cs v (rows @ [reply_row m]) rs = Inr rows'" using Inr True Cons.prems by simp
        from Cons.IH [OF this] obtain rs' where "subseq rs' rs" "rows' = rows @ [reply_row m] @ map (reply_row \<circ> projr \<circ> rpRes) rs'"
          "\<forall>r \<in> set rs'. \<exists>m. rpRes r = Inr m \<and> mType m = TReadReply" by auto
        then show ?thesis using m True by (intro exI [of _ "r # rs'"]) (auto simp: subseq_Cons2)
      qed
    qed
  qed
qed

lemma Handle_read:
  assumes "acc_inv cs a" "mType m = TRead" "Handle cs e a m = (rep, a')" "mType rep = TReadReply"
  shows "reply_row rep = acc_row cs a (mReg m)"
proof -
  have "\<not> aClosed a" using assms(3,4) by (auto simp: Handle_def)
  from Handle_handle [OF assms(3) this] obtain rep0 where h: "handle cs e a m = (rep0, a')"
    "mType rep = mType rep0" "reply_row rep = reply_row rep0"
    by (auto simp: reply_row_def split: option.splits)
  have rep0: "rep0 = read cs e a m"
    using h(1,2) assms(2,4) by (auto simp: handle_def handle_gated_def Let_def split: option.splits if_splits)
  obtain r found where r: "readRow cs e a (mReg m) = Inr (r, found)" "reply_row rep0 =
      \<lparr> roAccepted = parse_ballot0 (rAccepted r), roValue = rValue r, roHasValue = rHasValue r \<rparr>"
    using h(2) assms(4) unfolding rep0
    by (auto simp: read_def refuseIfForgetful_def reply_row_def split: option.splits sum.splits if_splits)
  with h(3) readRow_row_of(1) [OF assms(1) r(1)] show ?thesis
    by (auto simp: acc_row_def empty_row_def zero_Row_def split: if_splits)
qed

lemma sys_step_mono:
  assumes "sys_step cs v s s'"
  shows "syHist s \<subseteq> syHist s'" "voted s i reg b \<Longrightarrow> voted s' i reg b" "found_ok s reg r \<Longrightarrow> found_ok s' reg r"
  using assms by (cases; auto simp: voted_def found_ok_def split: if_splits)+

lemma new_read:
  assumes "sys_inv cs v s" "sys_step cs v s s'" "(i, m, rep) \<in> syHist s' - syHist s" "mType m = TRead" "mType rep = TReadReply"
  shows "reply_row rep = acc_row cs (syAcc s i) (mReg m)"
  using assms(2)
proof cases
  case (deliver m' e i' rep' a')
  then have "i' = i" "m' = m" "rep' = rep" using assms(3) by auto
  with deliver(3) Handle_read [of cs "syAcc s i" m e rep a'] assms(1,4,5) show ?thesis
    by (auto simp: sys_inv_def node_inv_def)
qed (use assms(3) in auto)

lemma read_inv_step:
  assumes "sys_inv cs v s" "sys_step cs v s s'" "read_inv s"
  shows "read_inv s'"
  unfolding read_inv_def
proof (intro allI impI)
  fix i reg r assume "reported s' i reg r"
  then obtain m rep where m: "(i, m, rep) \<in> syHist s'" "mType m = TRead" "mType rep = TReadReply" "mReg m = reg" "r = reply_row rep"
    by (auto simp: reported_def)
  have "found_ok s reg r \<and> (roAccepted r = zero_ballot \<or> voted s i reg (roAccepted r))"
  proof (cases "(i, m, rep) \<in> syHist s")
    case True
    then have "reported s i reg r" using m unfolding reported_def by blast
    then show ?thesis using assms(3) by (simp add: read_inv_def)
  next
    case False
    then have "r = acc_row cs (syAcc s i) reg" using new_read [OF assms(1,2) _ m(2,3)] m by auto
    moreover have "node_inv cs s i reg" using assms(1) by (simp add: sys_inv_def)
    ultimately show ?thesis by (simp add: node_inv_def reg_inv_def)
  qed
  then show "found_ok s' reg r \<and> (roAccepted r = zero_ballot \<or> voted s' i reg (roAccepted r))"
    using sys_step_mono [OF assms(2)] by blast
qed

lemma fresh_inv_step:
  assumes "sys_inv cs v s" "sys_step cs v s s'" "fresh_inv s1 s"
  shows "fresh_inv s1 s'"
  unfolding fresh_inv_def
proof (intro conjI allI impI)
  show "syHist s1 \<subseteq> syHist s'" using assms(3) sys_step_mono(1) [OF assms(2)] by (auto simp: fresh_inv_def)
  fix i m rep b assume a: "(i, m, rep) \<in> syHist s' - syHist s1" "mType m = TRead" "mType rep = TReadReply" "voted s1 i (mReg m) b"
  show "b \<le> roAccepted (reply_row rep)"
  proof (cases "(i, m, rep) \<in> syHist s")
    case True
    then show ?thesis using a assms(3) by (auto simp: fresh_inv_def)
  next
    case False
    then have "reply_row rep = acc_row cs (syAcc s i) (mReg m)" using new_read [OF assms(1,2) _ a(2,3)] a(1) by auto
    moreover have "voted s i (mReg m) b" using a(4) assms(3) by (auto simp: fresh_inv_def voted_def)
    moreover have "node_inv cs s i (mReg m)" using assms(1) by (simp add: sys_inv_def)
    ultimately show ?thesis by (auto simp: node_inv_def reg_inv_def)
  qed
qed

section \<open>Rounds that succeed\<close>

lemma prepare_req_simps [simp]:
  "mType (prepare_req v reg b) = TPrepare" "mReg (prepare_req v reg b) = reg" "mBallot (prepare_req v reg b) = Bytes b"
  "mIncarnation (prepare_req v reg b) = vIncarnation v" "mEpoch (prepare_req v reg b) = vEpoch v"
  by (simp_all add: prepare_req_def stamp_def)

lemma accept_req_simps [simp]:
  "mType (accept_req v reg b val has) = TAccept" "mReg (accept_req v reg b val has) = reg"
  "mBallot (accept_req v reg b val has) = Bytes b" "mValue (accept_req v reg b val has) = val"
  "mHasValue (accept_req v reg b val has) = has" "mNotAfter (accept_req v reg b val has) = 0"
  "mIncarnation (accept_req v reg b val has) = vIncarnation v" "mEpoch (accept_req v reg b val has) = vEpoch v"
  by (simp_all add: accept_req_def stamp_def Msg_def)

lemma live_at_writeRow [simp]: "live_at v (writeRow cs a reg r) = live_at v a"
  by (simp add: live_at_def writeRow_def Amnesiac_def cong: option.case_cong)

lemma Handle_stamped:
  assumes "live_at v a'" "Handle cs e a m = (rep, a')" "\<not> aClosed a"
  shows "mIncarnation rep = vIncarnation v \<and> mEpoch rep = vEpoch v"
  using Handle_handle [OF assms(2,3)] assms(1) by (auto simp: live_at_def)

lemma deliver_prepare:
  assumes "codecs_ok cs" "acc_inv cs a" "live_at v a" "ballot_wf b" "b \<noteq> zero_ballot" "promise_of cs a reg < b"
  shows "\<exists>rep a'. Handle cs good_env a (prepare_req v reg b) = (rep, a') \<and> mType rep = TPromise \<and> live_at v a' \<and>
    promise_of cs a' reg = b \<and> mIncarnation rep = vIncarnation v \<and> mEpoch rep = vEpoch v"
proof -
  let ?m = "prepare_req v reg b"
  obtain rep a' where h: "Handle cs good_env a ?m = (rep, a')" by fastforce
  obtain r found where rd: "readRow cs good_env a (mReg ?m) = Inr (r, found)"
    using readRow_total [OF assms(2), of good_env "mReg ?m"] by (auto simp: good_env_def)
  have lr: "live_request a good_env ?m b"
    using assms(3-5) by (simp add: live_request_def live_at_def env_ok_def good_env_def)
  have am: "\<not> Amnesiac a" using assms(3) by (simp add: live_at_def)
  have pm: "promise_of cs a (mReg ?m) < b" using assms(6) by simp
  from Handle_prepare [OF assms(2) lr _ am rd h] pm
  have r: "mType rep = TPromise" "a' = writeRow cs a reg (r\<lparr>rPromised := Bytes b\<rparr>)" by auto
  have "row_ok (r\<lparr>rPromised := Bytes b\<rparr>)" by (rule row_ok_prepared [OF assms(2) rd pm assms(4)])
  from promise_of_writeRow [OF assms(1,2) this] have "promise_of cs a' reg = b" using r(2) assms(4) by simp
  moreover have "live_at v a'" using r(2) assms(3) by simp
  ultimately show ?thesis using r(1) h Handle_stamped [OF _ h, of v] assms(3) by (auto simp: live_at_def)
qed

lemma deliver_accept:
  assumes "codecs_ok cs" "acc_inv cs a" "live_at v a" "ballot_wf b" "b \<noteq> zero_ballot" "promise_of cs a reg \<le> b"
  shows "\<exists>rep a'. Handle cs good_env a (accept_req v reg b val has) = (rep, a') \<and> mType rep = TAccepted \<and> live_at v a' \<and>
    accepted_of cs a' reg = b \<and> mIncarnation rep = vIncarnation v \<and> mEpoch rep = vEpoch v"
proof -
  let ?m = "accept_req v reg b val has"
  obtain rep a' where h: "Handle cs good_env a ?m = (rep, a')" by fastforce
  have lr: "live_request a good_env ?m b"
    using assms(3-5) by (simp add: live_request_def live_at_def env_ok_def good_env_def)
  from Handle_accept [OF assms(2) lr _ _ h] assms(6)
  have r: "mType rep = TAccepted" "live_at v a'" "accepted_of cs a' reg = b"
    using assms(3,4) by (auto simp: accepted_of_writeRow [OF assms(1)])
  with h Handle_stamped [OF r(2) h] assms(3) show ?thesis by (auto simp: live_at_def)
qed

lemma deliver_read:
  assumes "acc_inv cs a" "live_at v a"
  shows "\<exists>rep. Handle cs good_env a (read_req v reg) = (rep, a) \<and> mType rep = TReadReply \<and>
    mIncarnation rep = vIncarnation v \<and> mEpoch rep = vEpoch v"
proof -
  let ?m = "read_req v reg"
  have m: "mType ?m = TRead" "mReg ?m = reg" "mIncarnation ?m = vIncarnation v" "mEpoch ?m = vEpoch v"
    by (simp_all add: read_req_def stamp_def)
  obtain r found where rd: "readRow cs good_env a reg = Inr (r, found)"
    using readRow_total [OF assms(1), of good_env reg] by (auto simp: good_env_def)
  have "mType (read cs good_env a ?m) = TReadReply"
    using rd m(2) assms(2) by (simp add: read_def refuseIfForgetful_def live_at_def)
  moreover have "handle cs good_env a ?m = (read cs good_env a ?m, a)"
    using m assms(2) by (simp add: handle_def handle_gated_def live_at_def Compare_def)
  ultimately show ?thesis using assms(2) by (simp add: Handle_def live_at_def)
qed

text \<open>Delivering one request to each acceptor of a list, one after the other.\<close>

lemma deliver_all:
  assumes "sent s req" "\<And>i. i \<in> set qs \<Longrightarrow> \<exists>rep a'. Handle cs good_env (syAcc s i) req = (rep, a') \<and> mType rep = t \<and>
      live_at v a' \<and> Q a' \<and> mIncarnation rep = vIncarnation v \<and> mEpoch rep = vEpoch v" "distinct qs"
  shows "\<exists>s' rs. (sys_step cs v)\<^sup>*\<^sup>* s s' \<and> all_replied v s' req t qs rs \<and> syProp s' = syProp s \<and>
    (\<forall>i. i \<in> set qs \<longrightarrow> live_at v (syAcc s' i) \<and> Q (syAcc s' i)) \<and> (\<forall>i. i \<notin> set qs \<longrightarrow> syAcc s' i = syAcc s i) \<and>
    syHist s \<subseteq> syHist s'"
  using assms
proof (induction qs)
  case Nil
  then show ?case by (intro exI [of _ s] exI [of _ "[]"]) (simp add: all_replied_def)
next
  case (Cons i qs)
  from Cons.IH [OF Cons.prems(1)] Cons.prems(2,3) obtain s1 rs where s1: "(sys_step cs v)\<^sup>*\<^sup>* s s1"
    "all_replied v s1 req t qs rs" "syProp s1 = syProp s" "\<forall>i. i \<in> set qs \<longrightarrow> live_at v (syAcc s1 i) \<and> Q (syAcc s1 i)"
    "\<forall>i. i \<notin> set qs \<longrightarrow> syAcc s1 i = syAcc s i" "syHist s \<subseteq> syHist s1" by auto
  have i: "i \<notin> set qs" using Cons.prems(3) by simp
  obtain rep a' where h: "Handle cs good_env (syAcc s1 i) req = (rep, a')" "mType rep = t" "live_at v a'" "Q a'"
    "mIncarnation rep = vIncarnation v" "mEpoch rep = vEpoch v"
    using Cons.prems(2) [of i] s1(5) i by auto
  define s2 where "s2 = s1\<lparr>syAcc := (syAcc s1)(i := a'), syHist := insert (i, req, rep) (syHist s1)\<rparr>"
  have "sys_step cs v s1 s2" unfolding s2_def
    by (rule sys_step.deliver [OF _ h(1)]) (use Cons.prems(1) s1(3) h(3) in \<open>simp_all add: sent_def live_at_def\<close>)
  with s1(1) have "(sys_step cs v)\<^sup>*\<^sup>* s s2" by simp
  moreover have "all_replied v s2 req t (i # qs) (\<lparr> rpID = i, rpRes = Inr rep \<rparr> # rs)"
    using s1(2) h by (fastforce simp: all_replied_def s2_def)
  ultimately show ?case using s1(3-6) h(3,4) i
    by (intro exI [of _ s2] exI [of _ "\<lparr> rpID = i, rpRes = Inr rep \<rparr> # rs"]) (auto simp: s2_def)
qed

lemma classify_replied:
  "rpRes r = Inr m \<Longrightarrow> mType m \<noteq> TErr \<Longrightarrow> mType m \<noteq> TConflict \<Longrightarrow> mIncarnation m = vIncarnation v \<Longrightarrow>
    mEpoch m = vEpoch v \<Longrightarrow> classify cs v r = Inr m"
  by (simp add: classify_def)

lemma prepare_round_succeeds:
  fixes fe :: "'e perr option"
  assumes "\<forall>r \<in> set rs. \<exists>m. rpRes r = Inr m \<and> mType m = TPromise \<and> mIncarnation m = vIncarnation v \<and> mEpoch m = vEpoch v"
    "Quorum v \<le> n + length rs" "n < Quorum v"
  shows "\<exists>cur. prepare_round cs v best n fe rs = Inr cur"
  using assms
proof (induction rs arbitrary: best n fe)
  case (Cons r rs)
  then obtain m where m: "rpRes r = Inr m" "mType m = TPromise" "mIncarnation m = vIncarnation v" "mEpoch m = vEpoch v" by auto
  then have "(classify cs v r :: ('e perr, msg) res) = Inr m" by (intro classify_replied) simp_all
  with m(2) Cons show ?case by (auto simp: Let_def)
qed simp

lemma accept_round_succeeds:
  fixes fe :: "'e perr option"
  assumes "\<forall>r \<in> set rs. \<exists>m. rpRes r = Inr m \<and> mType m = TAccepted \<and> mIncarnation m = vIncarnation v \<and> mEpoch m = vEpoch v"
    "Quorum v \<le> n + length rs" "n < Quorum v"
  shows "accept_round cs v n fe rs = None"
  using assms
proof (induction rs arbitrary: n fe)
  case (Cons r rs)
  then obtain m where m: "rpRes r = Inr m" "mType m = TAccepted" "mIncarnation m = vIncarnation v" "mEpoch m = vEpoch v" by auto
  then have "(classify cs v r :: ('e perr, msg) res) = Inr m" by (intro classify_replied) simp_all
  with m(2) Cons show ?case by auto
qed simp

end
