(* ===== verification/Consensus_Props.thy ===== *)
theory Consensus_Props
  imports Consensus
begin

text \<open>
  The properties of the registers: what has been chosen stays the ancestor of everything later,
  fast reads are linearizable, a majority of live acceptors can always decide, and a full round
  of the proposer's code leaves its value chosen.
\<close>

section \<open>Definitions\<close>

text \<open>A start of the example: the marker and the view for each of some voters.\<close>

definition marker_req :: msg where
  "marker_req = (Msg TMarker)\<lparr>mSince := 1\<rparr>"

definition install_req :: "codecs \<Rightarrow> view \<Rightarrow> msg" where
  "install_req cs v = (Msg TInstall)\<lparr>mView := Marshal (view_codec cs) v\<rparr>"

definition init_system :: "codecs \<Rightarrow> system" where
  "init_system cs = \<lparr> syAcc = (\<lambda>i. the (OpenAcceptor cs reads_ok i [])), syHist = {}, syProp = (\<lambda>_ _. None) \<rparr>"

definition opened :: "node_id \<Rightarrow> acceptor" where
  "opened i = \<lparr> aSelf = i, aDB = [], aClosed = False, aInstalled = None, aMarker = 0,
     aHasMarker = False, aRetired = False, aFloor = zero_ballot \<rparr>"

definition voter2 :: node_id where
  "voter2 = CHR 0x02 # zero_31"

definition started_acc :: "codecs \<Rightarrow> view \<Rightarrow> node_id \<Rightarrow> acceptor" where
  "started_acc cs v i = snd (Handle cs good_env (snd (Handle cs good_env (opened i) marker_req)) (install_req cs v))"

text \<open>An acceptor whose database was lost and that has the view installed again, without its marker.\<close>

definition wiped_acc :: acceptor where
  "wiped_acc = snd (Handle std_codecs good_env (opened voter1) (install_req std_codecs example_view))"

section \<open>A quorum can decide\<close>

lemma sys_inv_steps:
  assumes "codecs_ok cs" "(sys_step cs v)\<^sup>*\<^sup>* s s'" "sys_inv cs v s"
  shows "sys_inv cs v s'"
  using assms(2,3) by (induction rule: rtranclp_induct) (auto intro: sys_inv_step [OF assms(1)])

lemma sys_reach_steps: "sys_reach cs v s \<Longrightarrow> (sys_step cs v)\<^sup>*\<^sup>* s s' \<Longrightarrow> sys_reach cs v s'"
  unfolding sys_reach_def by (meson rtranclp_trans)

lemma decide:
  assumes "codecs_ok cs" "sys_inv cs v s" "distinct qs" "set qs \<subseteq> set (VoterIDs v)" "Quorum v \<le> length qs"
    "\<And>i. i \<in> set qs \<Longrightarrow> live_at v (syAcc s i) \<and> promise_of cs (syAcc s i) reg < b"
    "ballot_wf b" "b \<noteq> zero_ballot" "syProp s reg b = None"
  shows "\<exists>s' pr. (sys_step cs v)\<^sup>*\<^sup>* s s' \<and> chosen v s' reg b \<and> syProp s' reg b = Some pr \<and>
    prValue pr = val \<and> prHasValue pr = has \<and> (\<exists>rs. all_replied v s' (accept_req v reg b val has) TAccepted qs rs) \<and>
    (\<forall>i \<in> set qs. live_at v (syAcc s' i) \<and> accepted_of cs (syAcc s' i) reg = b)"
proof -
  have inv: "acc_inv cs (syAcc s i)" if "sys_inv cs v s" for s i using that by (simp add: sys_inv_def node_inv_def)
  let ?p = "prepare_req v reg b" and ?a = "accept_req v reg b val has"
  have sent: "sent s ?p" by (simp add: sent_def)
  have prep: "\<exists>rep a'. Handle cs good_env (syAcc s i) ?p = (rep, a') \<and> mType rep = TPromise \<and> live_at v a' \<and>
      promise_of cs a' reg = b \<and> mIncarnation rep = vIncarnation v \<and> mEpoch rep = vEpoch v" if "i \<in> set qs" for i
    using deliver_prepare [OF assms(1) inv [OF assms(2)] _ assms(7,8)] assms(6) [OF that] by blast
  from deliver_all [of s ?p qs cs TPromise v "\<lambda>a. promise_of cs a reg = b", OF sent prep assms(3)]
  obtain s1 rs where s1: "(sys_step cs v)\<^sup>*\<^sup>* s s1" "all_replied v s1 ?p TPromise qs rs" "syProp s1 = syProp s"
    "\<And>i. i \<in> set qs \<Longrightarrow> live_at v (syAcc s1 i) \<and> promise_of cs (syAcc s1 i) reg = b" by blast
  have rs: "map rpID rs = qs" using s1(2) by (simp add: all_replied_def)
  have "length rs = length qs" using rs by auto
  then obtain cur where cur: "prepare_round cs v zero_Row 0 None rs = (Inr cur :: (unit perr, Row) res)"
    using prepare_round_succeeds [of rs v 0 cs zero_Row "None :: unit perr option"] s1(2) assms(5)
    by (auto simp: all_replied_def Quorum_def)
  define s2 where "s2 = s1\<lparr>syProp := (syProp s1)(reg := (syProp s1 reg)(b \<mapsto>
      \<lparr> prFound = cur, prValue = val, prHasValue = has \<rparr>))\<rparr>"
  have "round_replies v s1 ?p rs" using s1(2) rs assms(3,4) by (auto simp: round_replies_def all_replied_def)
  then have "sys_step cs v s1 s2" unfolding s2_def using cur assms(7,9) s1(3) by (intro sys_step.propose) simp_all
  with s1(1) have s2: "(sys_step cs v)\<^sup>*\<^sup>* s s2" by simp
  have inv2: "sys_inv cs v s2" by (rule sys_inv_steps [OF assms(1) s2 assms(2)])
  have sent2: "sent s2 ?a" using assms(7) by (simp add: sent_def s2_def)
  have acc: "\<exists>rep a'. Handle cs good_env (syAcc s2 i) ?a = (rep, a') \<and> mType rep = TAccepted \<and> live_at v a' \<and>
      accepted_of cs a' reg = b \<and> mIncarnation rep = vIncarnation v \<and> mEpoch rep = vEpoch v" if "i \<in> set qs" for i
    using deliver_accept [OF assms(1) inv [OF inv2] _ assms(7,8), of v i reg val has] s1(4) [OF that] by (simp add: s2_def)
  from deliver_all [of s2 ?a qs cs TAccepted v "\<lambda>a. accepted_of cs a reg = b", OF sent2 acc assms(3)]
  obtain s3 rs' where s3: "(sys_step cs v)\<^sup>*\<^sup>* s2 s3" "all_replied v s3 ?a TAccepted qs rs'" "syProp s3 = syProp s2"
    "\<And>i. i \<in> set qs \<Longrightarrow> live_at v (syAcc s3 i) \<and> accepted_of cs (syAcc s3 i) reg = b" by blast
  have "voted s3 i reg b" if "i \<in> set qs" for i
    using that s3(2) assms(7) unfolding all_replied_def voted_def by (fastforce simp: ParseBallot_wf)
  then have "chosen v s3 reg b" unfolding chosen_def using assms(3-5) distinct_card
    by (intro exI [of _ "set qs"]) fastforce
  then show ?thesis using s2 s3 by (intro exI [of _ s3]) (auto simp: s2_def)
qed

section \<open>A start\<close>

lemma OpenAcceptor_opened: "OpenAcceptor cs reads_ok i [] = Some (opened i)"
  by (simp add: OpenAcceptor_def acc_get_def opened_def db_get_def)

lemma marked_opened: "snd (Handle cs good_env (opened i) marker_req) =
    (opened i)\<lparr>aDB := [(metaMarker, Marshal (marker_codec cs) 1)], aMarker := 1, aHasMarker := True\<rparr>"
  by (simp add: Handle_def handle_def marker_req_def Msg_def SetMarker_def opened_def good_env_def db_delete_def)

lemma started_live:
  assumes "codecs_ok cs" "find (\<lambda>vo. voID vo = i) (vVoters v) = Some vo" "voSince vo = 1"
  shows "live_at v (started_acc cs v i)" "row_of cs (started_acc cs v i) reg = None" "aFloor (started_acc cs v i) = zero_ballot"
proof -
  have vo: "IsVoter v i" using assms(2) by (auto simp: IsVoter_def find_Some_iff list_ex_iff)
  have "started_acc cs v i = (opened i)\<lparr>aDB := db_set metaView (Marshal (view_codec cs) v) [(metaMarker, Marshal (marker_codec cs) 1)],
      aMarker := 1, aHasMarker := True, aInstalled := Some v\<rparr>"
    using assms(1) vo unfolding started_acc_def marked_opened
    by (simp add: Handle_def handle_def install_req_def Install_def not_newer_def opened_def good_env_def
        codecs_ok_def Let_def batch_commit_def split_beta)
  then show "live_at v (started_acc cs v i)" "row_of cs (started_acc cs v i) reg = None"
    "aFloor (started_acc cs v i) = zero_ballot"
    using assms(2,3) by (simp_all add: live_at_def Amnesiac_def opened_def row_of_def db_get_set db_get_def)
qed

lemma start_all:
  assumes "codecs_ok cs" "distinct qs"
    "\<And>i. i \<in> set qs \<Longrightarrow> \<exists>vo. find (\<lambda>vo. voID vo = i) (vVoters v) = Some vo \<and> voSince vo = 1"
  shows "\<exists>s. (sys_step cs v)\<^sup>*\<^sup>* (init_system cs) s \<and> syProp s = (\<lambda>_ _. None) \<and>
    (\<forall>i. syAcc s i = (if i \<in> set qs then started_acc cs v i else opened i))"
  using assms(2,3)
proof (induction qs)
  case Nil
  then show ?case
    by (intro exI [of _ "init_system cs"]) (simp add: init_system_def OpenAcceptor_opened)
next
  case (Cons i qs)
  then obtain s where s: "(sys_step cs v)\<^sup>*\<^sup>* (init_system cs) s" "syProp s = (\<lambda>_ _. None)"
    "\<And>j. syAcc s j = (if j \<in> set qs then started_acc cs v j else opened j)" by auto
  from Cons.prems obtain vo where vo: "find (\<lambda>vo. voID vo = i) (vVoters v) = Some vo" "voSince vo = 1" by auto
  let ?h1 = "Handle cs good_env (opened i) marker_req"
  let ?h2 = "Handle cs good_env (snd ?h1) (install_req cs v)"
  define s1 where "s1 = s\<lparr>syAcc := (syAcc s)(i := snd ?h1), syHist := insert (i, marker_req, fst ?h1) (syHist s)\<rparr>"
  define s2 where "s2 = s1\<lparr>syAcc := (syAcc s1)(i := snd ?h2), syHist := insert (i, install_req cs v, fst ?h2) (syHist s1)\<rparr>"
  have i: "syAcc s i = opened i" using s(3) [of i] Cons.prems(1) by simp
  have "sent s marker_req" by (simp add: sent_def marker_req_def)
  moreover have "\<not> aRetired (snd ?h1)" unfolding marked_opened by (simp add: opened_def)
  ultimately have "sys_step cs v s s1" unfolding s1_def
    by (intro sys_step.deliver [where e = good_env]) (simp_all add: i)
  moreover have "\<not> aRetired (started_acc cs v i)" using started_live(1) [OF assms(1) vo] by (simp add: live_at_def)
  then have "sys_step cs v s1 s2" unfolding s2_def
    by (intro sys_step.deliver [where e = good_env]) (simp_all add: s1_def sent_def install_req_def started_acc_def)
  ultimately have "(sys_step cs v)\<^sup>*\<^sup>* (init_system cs) s2" using s(1) by simp
  moreover have "syAcc s2 j = (if j \<in> set (i # qs) then started_acc cs v j else opened j)" for j
    using s(3) [of j] by (auto simp: s2_def s1_def started_acc_def)
  moreover have "syProp s2 = (\<lambda>_ _. None)" using s(2) by (simp add: s2_def s1_def)
  ultimately show ?case by (intro exI [of _ s2]) simp
qed

lemma init_system_ok: "sys_init cs (init_system cs)"
  by (simp add: sys_init_def init_system_def OpenAcceptor_opened)

text \<open>The example: voters 1 and 2 of the three of the example view have started.\<close>

lemma example_started:
  "\<exists>s. sys_reach std_codecs example_view s \<and> syProp s = (\<lambda>_ _. None) \<and>
    (\<forall>i \<in> set [voter1, voter2]. live_at example_view (syAcc s i) \<and> promise_of std_codecs (syAcc s i) reg = zero_ballot)"
proof -
  have f: "\<exists>vo. find (\<lambda>vo. voID vo = i) (vVoters example_view) = Some vo \<and> voSince vo = 1" if "i \<in> set [voter1, voter2]" for i
    using that by (auto simp: example_view_def voter1_def voter2_def)
  have d: "distinct [voter1, voter2]" by (simp add: voter1_def voter2_def)
  obtain s where s: "(sys_step std_codecs example_view)\<^sup>*\<^sup>* (init_system std_codecs) s" "syProp s = (\<lambda>_ _. None)"
    "\<And>i. syAcc s i = (if i \<in> set [voter1, voter2] then started_acc std_codecs example_view i else opened i)"
    using start_all [OF std_codecs_ok d f] by blast
  have r: "sys_reach std_codecs example_view s" using s(1) init_system_ok unfolding sys_reach_def by blast
  have inv: "acc_inv std_codecs (syAcc s i)" for i
    using sys_reach_inv [OF std_codecs_ok r] by (simp add: sys_inv_def node_inv_def)
  have "live_at example_view (syAcc s i) \<and> promise_of std_codecs (syAcc s i) reg = zero_ballot" if i: "i \<in> set [voter1, voter2]" for i
  proof -
    obtain vo where "find (\<lambda>vo. voID vo = i) (vVoters example_view) = Some vo" "voSince vo = 1" using f [OF i] by blast
    from started_live [OF std_codecs_ok this] promise_of_eq [OF inv [of i], of reg] s(3) [of i] i
    show ?thesis by simp
  qed
  with r s(2) show ?thesis by blast
qed

lemma example_quorum:
  "distinct [voter1, voter2]" "set [voter1, voter2] \<subseteq> set (VoterIDs example_view)" "Quorum example_view \<le> length [voter1, voter2]"
  "distinct (VoterIDs example_view)"
  by (simp_all add: voter1_def voter2_def example_view_def VoterIDs_def Quorum_def zero_31_def to32_def)

lemma example_chosen:
  "\<exists>s pr. sys_reach std_codecs example_view s \<and> chosen example_view s ''x'' (Ballot 5 voter1) \<and>
    syProp s ''x'' (Ballot 5 voter1) = Some pr \<and> prValue pr = ''v'' \<and> prHasValue pr \<and>
    (\<exists>rs. all_replied example_view s (accept_req example_view ''x'' (Ballot 5 voter1) ''v'' True) TAccepted [voter1, voter2] rs) \<and>
    (\<forall>i \<in> set [voter1, voter2]. live_at example_view (syAcc s i) \<and> accepted_of std_codecs (syAcc s i) ''x'' = Ballot 5 voter1)"
proof -
  obtain s where s: "sys_reach std_codecs example_view s" "syProp s = (\<lambda>_ _. None)"
    "\<And>i. i \<in> set [voter1, voter2] \<Longrightarrow> live_at example_view (syAcc s i) \<and> promise_of std_codecs (syAcc s i) ''x'' = zero_ballot"
    using example_started by blast
  have p: "live_at example_view (syAcc s i) \<and> promise_of std_codecs (syAcc s i) ''x'' < Ballot 5 voter1"
    if "i \<in> set [voter1, voter2]" for i using s(3) [OF that] example_ballot(4) by simp
  have n: "syProp s ''x'' (Ballot 5 voter1) = None" using s(2) by simp
  from decide [where val = "''v''" and has = True,
      OF std_codecs_ok sys_reach_inv [OF std_codecs_ok s(1)] example_quorum(1-3) p example_ballot(1,3) n]
  obtain s' pr where "(sys_step std_codecs example_view)\<^sup>*\<^sup>* s s'" "chosen example_view s' ''x'' (Ballot 5 voter1)"
    "syProp s' ''x'' (Ballot 5 voter1) = Some pr" "prValue pr = ''v''" "prHasValue pr"
    "\<exists>rs. all_replied example_view s' (accept_req example_view ''x'' (Ballot 5 voter1) ''v'' True) TAccepted [voter1, voter2] rs"
    "\<forall>i \<in> set [voter1, voter2]. live_at example_view (syAcc s' i) \<and> accepted_of std_codecs (syAcc s' i) ''x'' = Ballot 5 voter1"
    by blast
  with sys_reach_steps [OF s(1)] show ?thesis by blast
qed

section \<open>Rounds of accepts and of reads\<close>

lemma accept_round_quorum:
  fixes fe :: "'e perr option"
  assumes "accept_round cs v n fe rs = None" "distinct (map rpID rs)" "n < Quorum v"
  shows "\<exists>Q \<subseteq> rpID ` set rs. Quorum v \<le> n + card Q \<and>
    (\<forall>i \<in> Q. \<exists>r \<in> set rs. \<exists>m. rpID r = i \<and> rpRes r = Inr m \<and> mType m = TAccepted)"
  using assms
proof (induction rs arbitrary: n fe)
  case Nil
  then show ?case by simp
next
  case (Cons r rs)
  have skip: "?case" if "accept_round cs v n fe' rs = None" for fe' :: "'e perr option"
  proof -
    from Cons.IH [OF that] Cons.prems(2,3) obtain Q where "Q \<subseteq> rpID ` set rs" "Quorum v \<le> n + card Q"
      "\<forall>i \<in> Q. \<exists>r \<in> set rs. \<exists>m. rpID r = i \<and> rpRes r = Inr m \<and> mType m = TAccepted" by auto
    then show ?thesis by (intro exI [of _ Q]) auto
  qed
  show ?case
  proof (cases "classify cs v r :: ('e perr, msg) res")
    case (Inl err)
    with Cons.prems(1) skip show ?thesis by (auto split: if_splits)
  next
    case (Inr m)
    note m = classify_Inr [OF Inr]
    consider "mType m \<noteq> TAccepted" | "mType m = TAccepted" "n + 1 \<ge> Quorum v" | "mType m = TAccepted" "n + 1 < Quorum v"
      by linarith
    then show ?thesis
    proof cases
      case 1
      with Inr Cons.prems(1) skip show ?thesis by auto
    next
      case 2
      with m show ?thesis by (intro exI [of _ "{rpID r}"]) auto
    next
      case 3
      then have "accept_round cs v (n + 1) fe rs = None" using Inr Cons.prems(1) by simp
      from Cons.IH [OF this] Cons.prems(2) 3 obtain Q where Q: "Q \<subseteq> rpID ` set rs" "Quorum v \<le> n + 1 + card Q"
        "\<forall>i \<in> Q. \<exists>r \<in> set rs. \<exists>m. rpID r = i \<and> rpRes r = Inr m \<and> mType m = TAccepted" by auto
      have "finite Q" "rpID r \<notin> Q" using Q(1) Cons.prems(2) by (auto intro: finite_subset)
      then have "card (insert (rpID r) Q) = card Q + 1" by simp
      with Q 3 m show ?thesis by (intro exI [of _ "insert (rpID r) Q"]) auto
    qed
  qed
qed

lemma steps_inv:
  assumes "codecs_ok cs" "sys_reach cs v s1" "(sys_step cs v)\<^sup>*\<^sup>* s1 s2"
  shows "sys_inv cs v s2 \<and> fresh_inv s1 s2"
  using assms(3)
proof (induction rule: rtranclp_induct)
  case base
  then show ?case using sys_reach_inv [OF assms(1,2)] by (simp add: fresh_inv_def)
next
  case (step y z)
  then show ?case using sys_inv_step [OF assms(1)] fresh_inv_step by blast
qed

lemma reach_read_inv:
  assumes "codecs_ok cs" "sys_reach cs v s"
  shows "read_inv s"
proof -
  obtain s0 where s0: "sys_init cs s0" "(sys_step cs v)\<^sup>*\<^sup>* s0 s" using assms(2) by (auto simp: sys_reach_def)
  from s0(2) have "sys_inv cs v s \<and> read_inv s"
  proof (induction rule: rtranclp_induct)
    case base
    then show ?case using sys_inv_init [OF s0(1)] s0(1) by (simp add: read_inv_def reported_def sys_init_def)
  next
    case (step y z)
    then show ?case using sys_inv_step [OF assms(1)] read_inv_step by blast
  qed
  then show ?thesis by simp
qed

lemma chosen_mono:
  assumes "(sys_step cs v)\<^sup>*\<^sup>* s s'" "chosen v s reg b"
  shows "chosen v s' reg b"
  using assms
proof (induction rule: rtranclp_induct)
  case (step y z)
  then obtain Q where Q: "Q \<subseteq> set (VoterIDs v)" "Quorum v \<le> card Q" "\<forall>i \<in> Q. voted y i reg b"
    by (auto simp: chosen_def)
  from Q(3) have "\<forall>i \<in> Q. voted z i reg b" using sys_step_mono(2) [OF step.hyps(2)] by simp
  with Q(1,2) show ?case unfolding chosen_def by (intro exI [of _ Q]) simp
qed simp

lemma same_accepted_all: "same_accepted rows \<Longrightarrow> r \<in> set rows \<Longrightarrow> roAccepted r = roAccepted (hd rows)"
  by (cases rows) (auto simp: same_accepted_def list_all_iff Ballot_Compare_simps)

lemma distinct_subseq: "subseq xs ys \<Longrightarrow> distinct ys \<Longrightarrow> distinct xs"
  by (induction rule: list_emb.induct) (auto dest: list_emb_set)

lemma all_replied_round:
  "all_replied v s req t qs rs \<Longrightarrow> distinct qs \<Longrightarrow> set qs \<subseteq> set (VoterIDs v) \<Longrightarrow> round_replies v s req rs"
  by (auto simp: all_replied_def round_replies_def)

section \<open>Properties\<close>

text \<open>
  C1: Agreement of a register. Once a ballot is chosen, every proposal at it or above it
  descends from it: the value each change function was given is the value proposed at the parent
  ballot, and the chain of parents reaches the chosen one. So chosen values form one line of
  history, whatever messages are lost, repeated or delayed and whoever restarts.
\<close>

theorem chosen_is_ancestor:
  assumes "codecs_ok cs" "distinct (VoterIDs v)" "sys_reach cs v s" "chosen v s reg b1"
    "syProp s reg b2 = Some pr" "b1 \<le> b2"
  shows "ancestor s reg b1 b2 \<and> roAccepted (prFound pr) < b2 \<and> found_ok s reg (prFound pr)"
proof -
  have inv: "sys_inv cs v s" by (rule sys_reach_inv [OF assms(1,3)])
  have "ancestor s reg b1 b2" using assms(5,6) by (intro chosen_ancestor [OF assms(2) inv assms(4)]) auto
  with prop_invD(1,2) [OF inv assms(5)] show ?thesis by simp
qed

theorem chosen_is_ancestor_witness:
  "\<exists>s. chosen example_view s ''x'' (Ballot 5 voter1) \<and> ancestor s ''x'' (Ballot 5 voter1) (Ballot 5 voter1)"
proof -
  obtain s pr where s: "sys_reach std_codecs example_view s" "chosen example_view s ''x'' (Ballot 5 voter1)"
    "syProp s ''x'' (Ballot 5 voter1) = Some pr" using example_chosen by blast
  from chosen_is_ancestor [OF std_codecs_ok example_quorum(4) s order.refl] s(2) show ?thesis by blast
qed

text \<open>
  C4: A proposal that the accept round reports as committed is chosen: \<^verbatim>\<open>accept\<close> returns without
  an error only when a quorum of distinct voters has accepted the ballot.
\<close>

theorem commit_is_chosen:
  assumes "round_replies v s req rs" "mType req = TAccept" "mReg req = reg" "ParseBallot (mBallot req) = Some b"
    "accept_round cs v 0 None rs = (None :: unit perr option)"
  shows "chosen v s reg b"
proof -
  have d: "distinct (map rpID rs)" "rpID ` set rs \<subseteq> set (VoterIDs v)" using assms(1) by (auto simp: round_replies_def)
  have "0 < Quorum v" by (simp add: Quorum_def)
  from accept_round_quorum [OF assms(5) d(1) this] obtain Q where Q: "Q \<subseteq> rpID ` set rs" "Quorum v \<le> card Q"
    "\<forall>i \<in> Q. \<exists>r \<in> set rs. \<exists>m. rpID r = i \<and> rpRes r = Inr m \<and> mType m = TAccepted" by auto
  have "voted s i reg b" if i: "i \<in> Q" for i
  proof -
    from bspec [OF Q(3) i] obtain r m where "r \<in> set rs" "rpID r = i" "rpRes r = Inr m" "mType m = TAccepted" by blast
    then show ?thesis using assms(1-4) unfolding voted_def round_replies_def by blast
  qed
  with Q(1,2) d(2) show ?thesis unfolding chosen_def by (intro exI [of _ Q]) auto
qed

theorem commit_is_chosen_witness: "\<exists>s. chosen example_view s ''x'' (Ballot 5 voter1)"
proof -
  let ?req = "accept_req example_view ''x'' (Ballot 5 voter1) ''v'' True"
  obtain s rs where rs: "all_replied example_view s ?req TAccepted [voter1, voter2] rs" using example_chosen by blast
  then have "map rpID rs = [voter1, voter2]" by (simp add: all_replied_def)
  then have "length rs = 2" by (metis length_map length_Cons list.size(3) numeral_2_eq_2)
  then have "accept_round std_codecs example_view 0 None rs = (None :: unit perr option)"
    using rs by (intro accept_round_succeeds) (auto simp: all_replied_def Quorum_def example_view_def)
  from commit_is_chosen [OF all_replied_round [OF rs example_quorum(1,2)] _ _ _ this, of "''x''" "Ballot 5 voter1"]
  show ?thesis using example_ballot(2) by auto
qed

text \<open>
  C3: A majority can always decide: whenever a quorum of voters is live at the view and a fresh
  ballot is above what they have promised for a register, some run of the system has the ballot
  chosen with any given value.
\<close>

theorem quorum_decides:
  assumes "codecs_ok cs" "sys_reach cs v s" "distinct qs" "set qs \<subseteq> set (VoterIDs v)" "Quorum v \<le> length qs"
    "\<forall>i \<in> set qs. live_at v (syAcc s i) \<and> promise_of cs (syAcc s i) reg < b"
    "ballot_wf b" "b \<noteq> zero_ballot" "syProp s reg b = None"
  shows "\<exists>s' pr. (sys_step cs v)\<^sup>*\<^sup>* s s' \<and> chosen v s' reg b \<and> syProp s' reg b = Some pr \<and>
    prValue pr = val \<and> prHasValue pr = has"
proof -
  have p: "live_at v (syAcc s i) \<and> promise_of cs (syAcc s i) reg < b" if "i \<in> set qs" for i using assms(6) that by blast
  from decide [OF assms(1) sys_reach_inv [OF assms(1,2)] assms(3-5) p assms(7-9), of val has] show ?thesis by blast
qed

theorem quorum_decides_witness:
  "\<exists>s pr. chosen example_view s ''x'' (Ballot 5 voter1) \<and> syProp s ''x'' (Ballot 5 voter1) = Some pr \<and> prValue pr = ''v''"
proof -
  obtain s where s: "sys_reach std_codecs example_view s" "syProp s = (\<lambda>_ _. None)"
    "\<forall>i \<in> set [voter1, voter2]. live_at example_view (syAcc s i) \<and> promise_of std_codecs (syAcc s i) ''x'' = zero_ballot"
    using example_started by blast
  have p: "\<forall>i \<in> set [voter1, voter2]. live_at example_view (syAcc s i) \<and> promise_of std_codecs (syAcc s i) ''x'' < Ballot 5 voter1"
    using s(3) example_ballot(4) by simp
  have n: "syProp s ''x'' (Ballot 5 voter1) = None" using s(2) by simp
  from quorum_decides [where val = "''v''" and has = True,
      OF std_codecs_ok s(1) example_quorum(1-3) p example_ballot(1,3) n]
  show ?thesis by blast
qed

text \<open>
  C2: The fast read is linearizable. When a quorum of voters answers a read with one accepted
  ballot, the row returned is chosen (or the register was never written), holds the value
  proposed at that ballot, and is not older than any ballot chosen before the read began.
\<close>

theorem fast_read:
  assumes "codecs_ok cs" "distinct (VoterIDs v)" "sys_reach cs v s1" "(sys_step cs v)\<^sup>*\<^sup>* s1 s2"
    "distinct (map rpID rs)" "set (map rpID rs) \<subseteq> set (VoterIDs v)"
    "\<forall>r \<in> set rs. \<forall>m. rpRes r = Inr m \<longrightarrow> (rpID r, req, m) \<in> syHist s2 - syHist s1"
    "mType req = TRead" "mReg req = reg"
    "read_round cs v [] rs = Inr rows" "Quorum v \<le> length rows" "same_accepted rows"
  shows "found_ok s2 reg (hd rows) \<and>
    (roAccepted (hd rows) = zero_ballot \<or> chosen v s2 reg (roAccepted (hd rows))) \<and>
    (\<forall>b. chosen v s1 reg b \<longrightarrow> b \<le> roAccepted (hd rows))"
proof -
  obtain rs' where rs': "subseq rs' rs" "rows = map (reply_row \<circ> projr \<circ> rpRes) rs'"
    "\<forall>r \<in> set rs'. \<exists>m. rpRes r = Inr m \<and> mType m = TReadReply"
    using read_round_rows [OF assms(10)] by auto
  have inv: "sys_inv cs v s2" "fresh_inv s1 s2" "read_inv s2"
    using steps_inv [OF assms(1,3,4)] reach_read_inv [OF assms(1) sys_reach_steps [OF assms(3,4)]] by auto
  have sub: "set rs' \<subseteq> set rs" using rs'(1) by (auto dest: list_emb_set)
  let ?Q = "rpID ` set rs'" and ?b = "roAccepted (hd rows)"
  have "distinct (map rpID rs')" using assms(5) subseq_map [OF rs'(1), of rpID] by (blast intro: distinct_subseq)
  then have card: "Quorum v \<le> card ?Q" using assms(11) rs'(2) distinct_card [of "map rpID rs'"] by simp
  have Q: "?Q \<subseteq> set (VoterIDs v)" using sub assms(6) by auto
  have each: "\<exists>rep. rpRes r = Inr rep \<and> (rpID r, req, rep) \<in> syHist s2 - syHist s1 \<and> mType rep = TReadReply \<and>
      roAccepted (reply_row rep) = ?b" if r: "r \<in> set rs'" for r
  proof -
    from bspec [OF rs'(3) r] obtain m where m: "rpRes r = Inr m" "mType m = TReadReply" by blast
    have "reply_row m \<in> set rows" using rs'(2) m(1) r by force
    from same_accepted_all [OF assms(12) this] m assms(7) sub r show ?thesis by blast
  qed
  have voted: "?b = zero_ballot \<or> voted s2 (rpID r) reg ?b" if r: "r \<in> set rs'" for r
  proof -
    from each [OF r] obtain rep where rep: "(rpID r, req, rep) \<in> syHist s2" "mType rep = TReadReply"
      "roAccepted (reply_row rep) = ?b" by blast
    then have "reported s2 (rpID r) reg (reply_row rep)" using assms(8,9) unfolding reported_def by blast
    then have "roAccepted (reply_row rep) = zero_ballot \<or> voted s2 (rpID r) reg (roAccepted (reply_row rep))"
      using inv(3) unfolding read_inv_def by blast
    then show ?thesis unfolding rep(3) .
  qed
  have fresh: "b \<le> ?b" if "chosen v s1 reg b" for b
  proof -
    obtain Q1 where Q1: "Q1 \<subseteq> set (VoterIDs v)" "Quorum v \<le> card Q1" "\<forall>i \<in> Q1. voted s1 i reg b"
      using \<open>chosen v s1 reg b\<close> by (auto simp: chosen_def)
    obtain i where i: "i \<in> Q1" "i \<in> ?Q" using quorums_meet [OF assms(2) Q1(1) Q Q1(2) card] by (elim exE conjE)
    then obtain r where r: "r \<in> set rs'" "rpID r = i" by blast
    from each [OF r(1)] obtain rep where rep: "(i, req, rep) \<in> syHist s2 - syHist s1" "mType rep = TReadReply"
      "roAccepted (reply_row rep) = ?b" using r(2) by blast
    have "voted s1 i (mReg req) b" using Q1(3) i(1) assms(9) by blast
    with inv(2) rep assms(8) show ?thesis unfolding fresh_inv_def by fastforce
  qed
  obtain r where r: "r \<in> set rs'" "hd rows = reply_row (projr (rpRes r))"
    using assms(11) rs'(2) by (cases rs') (auto simp: Quorum_def)
  from each [OF r(1)] obtain rep where rep: "rpRes r = Inr rep" "(rpID r, req, rep) \<in> syHist s2" "mType rep = TReadReply" by blast
  then have "reported s2 (rpID r) reg (hd rows)" using assms(8,9) r(2) unfolding reported_def by auto
  then have "found_ok s2 reg (hd rows)" using inv(3) by (auto simp: read_inv_def)
  moreover have "?b = zero_ballot \<or> chosen v s2 reg ?b"
  proof (cases "?b = zero_ballot")
    case False
    then have "\<forall>i \<in> ?Q. voted s2 i reg ?b" using voted by blast
    with card Q show ?thesis unfolding chosen_def by (intro disjI2 exI [of _ ?Q]) simp
  qed simp
  ultimately show ?thesis using fresh by blast
qed

theorem fast_read_witness:
  "\<exists>s r. chosen example_view s ''x'' (roAccepted r) \<and> found_ok s ''x'' r \<and> roAccepted r = Ballot 5 voter1"
proof -
  let ?req = "read_req example_view ''x''"
  obtain s where s: "sys_reach std_codecs example_view s"
    "\<forall>i \<in> set [voter1, voter2]. live_at example_view (syAcc s i) \<and> accepted_of std_codecs (syAcc s i) ''x'' = Ballot 5 voter1"
    using example_chosen by blast
  obtain s0 where s0: "sys_init std_codecs s0" "(sys_step std_codecs example_view)\<^sup>*\<^sup>* s0 s" using s(1) by (auto simp: sys_reach_def)
  have inv: "acc_inv std_codecs (syAcc s i)" for i
    using sys_reach_inv [OF std_codecs_ok s(1)] by (simp add: sys_inv_def node_inv_def)
  define rep where "rep = (\<lambda>i. fst (Handle std_codecs good_env (syAcc s i) ?req))"
  have rep: "Handle std_codecs good_env (syAcc s i) ?req = (rep i, syAcc s i)" "mType (rep i) = TReadReply"
    "classify std_codecs example_view \<lparr> rpID = i, rpRes = Inr (rep i) \<rparr> = (Inr (rep i) :: (unit perr, msg) res)"
    "roAccepted (reply_row (rep i)) = Ballot 5 voter1" if i: "i \<in> set [voter1, voter2]" for i
  proof -
    from deliver_read [OF inv, of example_view i "''x''"] s(2) i obtain r where
      r: "Handle std_codecs good_env (syAcc s i) ?req = (r, syAcc s i)" "mType r = TReadReply"
        "mIncarnation r = vIncarnation example_view" "mEpoch r = vEpoch example_view" by blast
    then show "Handle std_codecs good_env (syAcc s i) ?req = (rep i, syAcc s i)" "mType (rep i) = TReadReply"
      "classify std_codecs example_view \<lparr> rpID = i, rpRes = Inr (rep i) \<rparr> = (Inr (rep i) :: (unit perr, msg) res)"
      by (auto simp: rep_def intro: classify_replied)
    show "roAccepted (reply_row (rep i)) = Ballot 5 voter1"
      using Handle_read [OF inv _ r(1,2)] r(1) s(2) i by (auto simp: rep_def read_req_def stamp_def)
  qed
  define s1 where "s1 = s\<lparr>syAcc := (syAcc s)(voter1 := syAcc s voter1), syHist := insert (voter1, ?req, rep voter1) (syHist s)\<rparr>"
  define s2 where "s2 = s1\<lparr>syAcc := (syAcc s1)(voter2 := syAcc s1 voter2), syHist := insert (voter2, ?req, rep voter2) (syHist s1)\<rparr>"
  have sent: "sent x ?req" for x by (simp add: sent_def read_req_def stamp_def)
  have "sys_step std_codecs example_view s s1" unfolding s1_def
    by (rule sys_step.deliver [where e = good_env, OF sent]) (simp_all add: rep)
  moreover have "sys_step std_codecs example_view s1 s2" unfolding s2_def
    by (rule sys_step.deliver [where e = good_env, OF sent]) (simp_all add: rep s1_def)
  ultimately have s02: "(sys_step std_codecs example_view)\<^sup>*\<^sup>* s0 s2" using s0(2) by simp
  let ?rs = "[\<lparr> rpID = voter1, rpRes = Inr (rep voter1) \<rparr>, \<lparr> rpID = voter2, rpRes = Inr (rep voter2) \<rparr>]"
  let ?rows = "[reply_row (rep voter1), reply_row (rep voter2)]"
  have q: "Quorum example_view = 2" by (simp add: Quorum_def example_view_def)
  have rd: "read_round std_codecs example_view [] ?rs = Inr ?rows" using rep(2,3) q by simp
  have hist: "\<forall>r \<in> set ?rs. \<forall>m. rpRes r = Inr m \<longrightarrow> (rpID r, ?req, m) \<in> syHist s2 - syHist s0"
    using s0(1) by (simp add: s2_def s1_def sys_init_def)
  have same: "same_accepted ?rows" using rep(4) by (simp add: same_accepted_def)
  have reach0: "sys_reach std_codecs example_view s0" using s0(1) unfolding sys_reach_def by blast
  have ids: "distinct (map rpID ?rs)" "set (map rpID ?rs) \<subseteq> set (VoterIDs example_view)" using example_quorum by simp_all
  have req: "mType ?req = TRead" "mReg ?req = ''x''" by (simp_all add: read_req_def stamp_def)
  have len: "Quorum example_view \<le> length ?rows" using q by simp
  from fast_read [OF std_codecs_ok example_quorum(4) reach0 s02 ids hist req rd len same] rep(4) [of voter1] example_ballot(3)
  show ?thesis by (intro exI [of _ s2] exI [of _ "reply_row (rep voter1)"]) simp
qed

text \<open>
  C35: An amnesiac acceptor breaks promises it has forgotten. It refuses prepares and reads but
  takes accepts, so a voter that has promised ballot 9 and lost its disk accepts ballot 5: the
  promise that an earlier prepare quorum counted on is gone.
\<close>

theorem amnesiac_accepts:
  "promise_of std_codecs (accepted_at ''x'') ''x'' = Ballot 9 voter1 \<and>
    aSelf wiped_acc = aSelf (accepted_at ''x'') \<and> Amnesiac wiped_acc \<and> Ballot 5 voter1 < Ballot 9 voter1 \<and>
    mType (fst (Handle std_codecs good_env wiped_acc (op_msg TAccept ''x'' (Ballot 5 voter1)))) = TAccepted"
proof (intro conjI)
  have inv: "acc_inv std_codecs voting_acceptor" using acc_reach_inv [OF std_codecs_ok reach_voting] by simp
  show "promise_of std_codecs (accepted_at ''x'') ''x'' = Ballot 9 voter1"
    unfolding accepted_at_eq by (subst promise_of_writeRow [OF std_codecs_ok inv]) (simp_all add: row_ok_def example_ballot)
  have vo: "IsVoter example_view voter1" by (simp add: IsVoter_def example_view_def voter1_def)
  have w: "wiped_acc = (opened voter1)\<lparr>aDB := [(metaView, Marshal (view_codec std_codecs) example_view)], aInstalled := Some example_view\<rparr>"
    using std_codecs_ok vo unfolding wiped_acc_def
    by (simp add: Handle_def handle_def install_req_def Install_def not_newer_def opened_def good_env_def
        codecs_ok_def Let_def batch_commit_def split_beta)
  show "aSelf wiped_acc = aSelf (accepted_at ''x'')"
    by (simp add: w accepted_at_eq writeRow_def voting_fields opened_def)
  show "Amnesiac wiped_acc"
    by (simp add: w Amnesiac_def opened_def example_view_def voter1_def)
  show "Ballot 5 voter1 < Ballot 9 voter1" by (simp add: less_ballot_def)
  have r: "acc_reach std_codecs voter1 wiped_acc" unfolding wiped_acc_def
    by (rule acc_reach.handled [OF acc_reach.opened [OF OpenAcceptor_opened]]) (rule prod.collapse [symmetric])
  then have inv': "acc_inv std_codecs wiped_acc" using acc_reach_inv [OF std_codecs_ok] by blast
  have lr: "live_request wiped_acc good_env (op_msg TAccept ''x'' (Ballot 5 voter1)) (Ballot 5 voter1)"
    by (simp add: live_request_def w opened_def env_ok_def good_env_def example_ballot)
  have "promise_of std_codecs wiped_acc ''x'' = zero_ballot"
    unfolding promise_of_eq [OF inv'] by (simp add: w row_of_def opened_def db_get_def)
  with Handle_accept [OF inv' lr _ _ prod.collapse [symmetric]]
  show "mType (fst (Handle std_codecs good_env wiped_acc (op_msg TAccept ''x'' (Ballot 5 voter1)))) = TAccepted"
    by (simp add: example_ballot less_imp_le)
qed

end
