(* ===== verification/Proposer_Props.thy ===== *)
theory Proposer_Props
  imports Proposer
begin

text \<open>
  Properties of the proposer's code: what a returned proposal and a merged
  scan mean.
\<close>

section \<open>Definitions\<close>

text \<open>
  Where the truncated replies of a scan stop, and the rows for one register of the replies: those
  of a register that every truncated reply reaches.
\<close>

definition stops :: "msg list \<Rightarrow> bytes list" where
  "stops replies = map mNext (filter (\<lambda>m. mMore m \<and> mNext m \<noteq> []) replies)"

definition rows_for :: "msg list \<Rightarrow> bytes \<Rightarrow> scan_row list" where
  "rows_for replies reg =
    (if \<forall>stop \<in> set (stops replies). reg \<le> stop then filter (\<lambda>sr. srReg sr = reg) (concat (map mRows replies)) else [])"

definition sr_accepted :: "scan_row \<Rightarrow> ballot" where
  "sr_accepted sr = parse_ballot0 (srAccepted sr)"

definition sr_row :: "scan_row \<Rightarrow> Row" where
  "sr_row sr = \<lparr> roAccepted = sr_accepted sr, roValue = srValue sr, roHasValue = srHasValue sr \<rparr>"

definition merge_ok :: "scan_row list \<Rightarrow> scan_acc \<Rightarrow> bool" where
  "merge_ok srs a \<longleftrightarrow> saCount a = length srs \<and> saRow a \<in> sr_row ` set srs \<and>
    (\<forall>sr \<in> set srs. sr_accepted sr \<le> roAccepted (saRow a)) \<and>
    (\<forall>b. saPromised a \<le> b \<longleftrightarrow> (\<forall>sr \<in> set srs. parse_ballot0 (srPromised sr) \<le> b)) \<and>
    (saDisagree a \<longleftrightarrow> (\<exists>sr \<in> set srs. sr_accepted sr \<noteq> roAccepted (saRow a))) \<and>
    (saStub a \<longleftrightarrow> (\<exists>sr \<in> set srs. sr_accepted sr = zero_ballot))"

definition merge_opt :: "scan_row \<Rightarrow> scan_acc option \<Rightarrow> scan_acc option" where
  "merge_opt sr a = Some (scan_merge sr a)"

text \<open>A world in which every voter promises and accepts.\<close>

definition friendly_env :: "unit penv" where
  "friendly_env = \<lparr> trCall = (\<lambda>nid m w. (Inr ((Msg (if mType m = TPrepare then TPromise else TAccepted))
       \<lparr>mIncarnation := 1, mEpoch := 3\<rparr>), w)),
     vwView = (\<lambda>w. Some example_view), vwAdopt = (\<lambda>v w. w), blNext = (\<lambda>w. (Some 1, w)), blBump = None,
     ctxErr = (\<lambda>w. False), ckNow = (\<lambda>w. 0), ckWait = (\<lambda>d w. (True, w)), scOrder = (\<lambda>ids w. (ids, w)) \<rparr>"

text \<open>Two replies to a scan: both show the register x, and the first stops at y before it shows z.\<close>

definition scan_shown :: "bytes \<Rightarrow> scan_row" where
  "scan_shown reg = \<lparr> srReg = reg, srPromised = Bytes (Ballot 5 zero_id), srAccepted = Bytes (Ballot 5 zero_id),
     srValue = ''v'', srHasValue = True \<rparr>"

definition example_scan :: "msg list" where
  "example_scan = [(Msg TScanReply)\<lparr>mRows := [scan_shown ''x'', scan_shown ''y''], mMore := True, mNext := ''y''\<rparr>,
     (Msg TScanReply)\<lparr>mRows := [scan_shown ''x'', scan_shown ''z'']\<rparr>]"

section \<open>Merging scans\<close>

lemma scan_cut_some: "scan_cut (Some c) ms = Some (Min (insert c (set (stops ms))))"
proof (induction ms arbitrary: c)
  case (Cons m ms)
  have "Min (insert c (insert d X)) = Min (insert (if d < c then d else c) X)" if "finite X" for c d :: bytes and X
    using that by (cases "X = {}") (auto simp: min_def)
  with Cons show ?case by (auto simp: stops_def)
qed (simp add: stops_def)

lemma scan_cut_stops: "scan_cut None ms = (if stops ms = [] then None else Some (Min (set (stops ms))))"
  by (induction ms) (auto simp: stops_def scan_cut_some [unfolded stops_def])

lemma beyond_cut_stops: "beyond_cut (scan_cut None ms) reg \<longleftrightarrow> (\<exists>stop \<in> set (stops ms). stop < reg)"
  by (auto simp: beyond_cut_def scan_cut_stops Min_less_iff)

lemma rows_for_cut:
  "rows_for replies reg = filter (\<lambda>sr. srReg sr = reg \<and> \<not> beyond_cut (scan_cut None replies) reg) (concat (map mRows replies))"
  by (auto simp: rows_for_def beyond_cut_stops not_less)

lemma merge_ok_single: "merge_ok [sr] (scan_merge sr None)"
  by (simp add: merge_ok_def scan_merge_def sr_row_def sr_accepted_def Let_def)

lemma merge_ok_snoc:
  assumes "merge_ok srs a"
  shows "merge_ok (srs @ [sr]) (scan_merge sr (Some a))"
proof -
  let ?b = "sr_accepted sr" and ?a = "scan_merge sr (Some a)" and ?r = "roAccepted (saRow a)"
  have f: "saCount ?a = saCount a + 1" "saRow ?a = (if ?r < ?b then sr_row sr else saRow a)"
    "saPromised ?a = max (saPromised a) (parse_ballot0 (srPromised sr))"
    "saDisagree ?a \<longleftrightarrow> saDisagree a \<or> ?b \<noteq> ?r" "saStub ?a \<longleftrightarrow> saStub a \<or> ?b = zero_ballot"
    by (simp_all add: scan_merge_def Let_def sr_row_def sr_accepted_def max_def less_imp_le)
  have acc: "roAccepted (saRow ?a) = max ?r ?b" using f(2) by (simp add: sr_row_def max_def less_imp_le)
  have ok: "saCount a = length srs" "saRow a \<in> sr_row ` set srs" "\<And>x. x \<in> set srs \<Longrightarrow> sr_accepted x \<le> ?r"
    "\<And>b. saPromised a \<le> b \<longleftrightarrow> (\<forall>sr \<in> set srs. parse_ballot0 (srPromised sr) \<le> b)"
    "saDisagree a \<longleftrightarrow> (\<exists>x \<in> set srs. sr_accepted x \<noteq> ?r)" "saStub a \<longleftrightarrow> (\<exists>x \<in> set srs. sr_accepted x = zero_ballot)"
    using assms by (simp_all add: merge_ok_def)
  obtain y where y: "y \<in> set srs" "sr_accepted y = ?r" using ok(2) by (auto simp: sr_row_def)
  have "saDisagree a \<or> ?b \<noteq> ?r \<longleftrightarrow> (\<exists>x \<in> set (srs @ [sr]). sr_accepted x \<noteq> max ?r ?b)"
  proof (cases "?r < ?b")
    case True
    then have "sr_accepted y \<noteq> max ?r ?b" "?b \<noteq> ?r" using y(2) by (auto simp: max_def)
    with y(1) show ?thesis by auto
  next
    case False
    with ok(5) show ?thesis by (auto simp: max_def)
  qed
  then show ?thesis unfolding merge_ok_def acc
    using f ok by (auto simp: le_max_iff_disj)
qed

lemma merge_opt_fold:
  assumes "srs \<noteq> []"
  shows "\<exists>a. fold merge_opt srs None = Some a \<and> merge_ok srs a"
  using assms
proof (induction srs rule: rev_induct)
  case (snoc sr srs)
  show ?case
  proof (cases "srs = []")
    case True
    then show ?thesis by (simp add: merge_opt_def merge_ok_single)
  next
    case False
    with snoc.IH obtain a where "fold merge_opt srs None = Some a" "merge_ok srs a" by blast
    then show ?thesis by (simp add: merge_opt_def [of sr] merge_ok_snoc)
  qed
qed simp

lemma merge_rows_map:
  "map_of (merge_rows ct acc srs) reg =
    fold merge_opt (filter (\<lambda>sr. srReg sr = reg \<and> \<not> beyond_cut ct reg) srs) (map_of acc reg)"
  by (induction srs arbitrary: acc) (auto simp: update_conv' merge_opt_def)

lemma merge_rows_distinct: "distinct (map fst acc) \<Longrightarrow> distinct (map fst (merge_rows ct acc srs))"
  by (induction srs arbitrary: acc) (auto simp: distinct_update)

lemma merge_scans_rows:
  assumes "merge_scans replies = (rows, next)"
  shows "distinct (map mrReg rows)" "sorted (map mrReg rows)" "next = scan_cut None replies"
    "row \<in> set rows \<Longrightarrow> \<exists>a. row = merged (length replies) (mrReg row, a) \<and> merge_ok (rows_for replies (mrReg row)) a"
    "rows_for replies reg \<noteq> [] \<Longrightarrow> reg \<in> mrReg ` set rows"
proof -
  let ?acc = "merge_rows (scan_cut None replies) [] (concat (map mRows replies))"
  have rows: "rows = sort_key mrReg (map (merged (length replies)) ?acc)" and "next = scan_cut None replies"
    using assms by (auto simp: merge_scans_def Let_def)
  then show "next = scan_cut None replies" by simp
  have d: "distinct (map fst ?acc)" by (rule merge_rows_distinct) simp
  have reg: "mrReg (merged n x) = fst x" for n x by (cases x) (simp add: merged_def)
  have "mset (map mrReg rows) = mset (map fst ?acc)"
    unfolding rows by (simp add: reg image_mset.compositionality comp_def)
  then show "distinct (map mrReg rows)" using d by (metis mset_eq_imp_distinct_iff)
  show "sorted (map mrReg rows)" unfolding rows by simp
  have look: "map_of ?acc reg = fold merge_opt (rows_for replies reg) None" for reg
    by (simp add: merge_rows_map rows_for_cut)
  show "\<exists>a. row = merged (length replies) (mrReg row, a) \<and> merge_ok (rows_for replies (mrReg row)) a" if r: "row \<in> set rows"
  proof -
    obtain k a where ka: "(k, a) \<in> set ?acc" "row = merged (length replies) (k, a)" using r unfolding rows by auto
    then have "map_of ?acc k = Some a" using d by simp
    then have f: "fold merge_opt (rows_for replies k) None = Some a" using look by simp
    then have "rows_for replies k \<noteq> []" by auto
    with merge_opt_fold [OF this] f ka(2) reg [of "length replies" "(k, a)"] show ?thesis by auto
  qed
  show "reg \<in> mrReg ` set rows" if ne: "rows_for replies reg \<noteq> []"
  proof -
    obtain a where "map_of ?acc reg = Some a" using merge_opt_fold [OF ne] look by auto
    then have "(reg, a) \<in> set ?acc" by (rule map_of_SomeD)
    then have "merged (length replies) (reg, a) \<in> set rows" unfolding rows by simp
    then show ?thesis using reg [of "length replies" "(reg, a)"] by (intro image_eqI) simp_all
  qed
qed

section \<open>Proposals\<close>

lemma propose_found_commits:
  fixes fn :: "'e change_func"
  assumes "propose_found cs env reg fn notAfter v b cur lastb backoff p = Return res None p'"
  shows "fn cur b = Inr (reValue res, reHasValue res) \<and> reBallot res = b \<and>
    Proposer_accept cs env v reg b (reValue res) (reHasValue res) notAfter p = (None :: 'e perr option, p')"
  using assms
  by (cases "fn cur b")
    (auto simp: propose_found_def round_failed_def Let_def split: prod.splits option.splits if_splits)

lemma propose_turn_commits:
  fixes fn :: "'e change_func"
  assumes "propose_turn cs env reg fn notAfter lastb backoff p = Some (Return res None p')"
  shows "\<exists>v b cur p1 p2. vwView env (prWorld p) = Some v \<and> ballotAbove env lastb p = Some (Some b, p1) \<and>
    Proposer_prepare cs env v reg b p1 = (Inr cur :: ('e perr, Row) res, p2) \<and>
    propose_found cs env reg fn notAfter v b cur lastb backoff p2 = Return res None p'"
  using assms
  by (auto simp: propose_turn_def round_failed_def split: sum.splits prod.splits option.splits if_splits)

section \<open>Properties\<close>

text \<open>
  C7: A proposal that returns without an error was committed by one round: at a ballot \<open>b\<close> above
  the last conflict a prepare round found \<open>cur\<close>, the change function turned it into the result's
  value, and the accept round of exactly that value at \<open>b\<close> reported success.
\<close>

theorem Propose_commits:
  fixes fn :: "'e change_func"
  assumes "Propose n cs env reg fn notAfter p = Some (res, None, p')"
  shows "\<exists>v lastb cur p0 p1 p2. ballotAbove env lastb p0 = Some (Some (reBallot res), p1) \<and>
    Proposer_prepare cs env v reg (reBallot res) p1 = (Inr cur :: ('e perr, Row) res, p2) \<and>
    fn cur (reBallot res) = Inr (reValue res, reHasValue res) \<and>
    Proposer_accept cs env v reg (reBallot res) (reValue res) (reHasValue res) notAfter p2 = (None :: 'e perr option, p')"
proof -
  have "propose_loop n cs env reg fn notAfter lastb backoff p = Some (res, None, p') \<Longrightarrow> ?thesis" for lastb backoff
  proof (induction n arbitrary: lastb backoff p)
    case (Suc n)
    then obtain vd where vd: "propose_turn cs env reg fn notAfter lastb backoff p = Some vd" by (auto split: option.splits)
    show ?case
    proof (cases vd)
      case (Retry l bo p1)
      with Suc vd show ?thesis by simp
    next
      case (Return r e p1)
      with Suc.prems vd have "propose_turn cs env reg fn notAfter lastb backoff p = Some (Return res None p')" by simp
      from propose_turn_commits [OF this] propose_found_commits show ?thesis by blast
    qed
  qed simp
  with assms show ?thesis unfolding Propose_def by blast
qed

theorem Propose_commits_witness:
  "\<exists>v cur p1 p2. Proposer_prepare std_codecs friendly_env v ''x'' (Ballot 1 zero_id) p1 = (Inr cur :: (unit perr, Row) res, p2)"
proof -
  let ?run = "Propose 1 std_codecs friendly_env ''x'' (Identity :: unit change_func) 0 (NewProposer zero_id 0 ())"
  have "map_option (\<lambda>(r, e, p). (reBallot r, e)) ?run = Some (Ballot 1 zero_id, None)" by code_simp
  then obtain res p' where "?run = Some (res, None, p')" "reBallot res = Ballot 1 zero_id" by auto
  with Propose_commits [of 1 std_codecs friendly_env "''x''" Identity 0 "NewProposer zero_id 0 ()" res p'] show ?thesis by auto
qed

text \<open>
  C8: The merge of a majority scan. The rows come in register order, one for each register that
  some reply shows and that no truncated reply stops before; the scan goes on after the least stop
  of a truncated reply, and is complete when no reply was truncated. Each row holds the highest
  accepted ballot any reply shows with its value, and it is marked undecided exactly if fewer
  rows than replies show it, or one of them shows another accepted ballot, or only a promise, or a
  promise above the accepted ballot.
\<close>

theorem merge_scans_exact:
  assumes "merge_scans replies = (rows, next)"
  shows "sorted (map mrReg rows) \<and> distinct (map mrReg rows) \<and>
    mrReg ` set rows = {reg. rows_for replies reg \<noteq> []} \<and>
    next = (if stops replies = [] then None else Some (Min (set (stops replies)))) \<and>
    (\<forall>row \<in> set rows. let srs = rows_for replies (mrReg row) in
      mrRow row \<in> sr_row ` set srs \<and> (\<forall>sr \<in> set srs. sr_accepted sr \<le> roAccepted (mrRow row)) \<and>
      (mrUndecided row \<longleftrightarrow> length srs < length replies \<or>
        (\<exists>sr \<in> set srs. sr_accepted sr \<noteq> roAccepted (mrRow row) \<or> sr_accepted sr = zero_ballot \<or>
          roAccepted (mrRow row) < parse_ballot0 (srPromised sr))))"
proof -
  note m = merge_scans_rows [OF assms]
  have row: "let srs = rows_for replies (mrReg row) in
      srs \<noteq> [] \<and> mrRow row \<in> sr_row ` set srs \<and> (\<forall>sr \<in> set srs. sr_accepted sr \<le> roAccepted (mrRow row)) \<and>
      (mrUndecided row \<longleftrightarrow> length srs < length replies \<or>
        (\<exists>sr \<in> set srs. sr_accepted sr \<noteq> roAccepted (mrRow row) \<or> sr_accepted sr = zero_ballot \<or>
          roAccepted (mrRow row) < parse_ballot0 (srPromised sr)))" if "row \<in> set rows" for row
  proof -
    from m(4) [OF that] obtain a where a: "row = merged (length replies) (mrReg row, a)"
      "merge_ok (rows_for replies (mrReg row)) a" by blast
    have r: "mrRow row = saRow a" by (subst a(1)) (simp add: merged_def)
    have u: "mrUndecided row \<longleftrightarrow> saDisagree a \<or> saCount a < length replies \<or> \<not> saPromised a \<le> roAccepted (saRow a) \<or> saStub a"
      by (subst a(1)) (simp add: merged_def not_le)
    show ?thesis using a(2) unfolding Let_def r u merge_ok_def by (auto simp: not_le)
  qed
  moreover have "mrReg ` set rows = {reg. rows_for replies reg \<noteq> []}" using m(5) row by (fastforce simp: Let_def)
  ultimately show ?thesis using m(1-3) unfolding Let_def scan_cut_stops by blast
qed

theorem merge_scans_exact_witness:
  "map (\<lambda>r. (mrReg r, mrUndecided r)) (fst (merge_scans example_scan)) = [(''x'', False), (''y'', True)] \<and>
    mrReg ` set (fst (merge_scans example_scan)) = {reg. rows_for example_scan reg \<noteq> []} \<and>
    snd (merge_scans example_scan) = Some ''y''"
proof -
  have "map (\<lambda>r. (mrReg r, mrUndecided r)) (fst (merge_scans example_scan)) = [(''x'', False), (''y'', True)]" by code_simp
  moreover have "stops example_scan = [''y'']" by code_simp
  ultimately show ?thesis
    using merge_scans_exact [OF prod.collapse [symmetric], of example_scan] by simp
qed

end
