(* ===== verification/Meta.thy ===== *)
theory Meta
  imports Store
begin

text \<open>
  The node's own bookkeeping database, \<^verbatim>\<open>src/meta/meta.go\<close>: values and counters under byte
  string keys, batches, prefix scans. The environment says whether a disk read or write
  succeeds; a failed write leaves the database as it was.
\<close>

section \<open>Definitions\<close>

datatype meta_error = NotFound | ReadFailed | WriteFailed | BadValue

definition Meta_Get :: "env \<Rightarrow> bytes \<Rightarrow> db \<Rightarrow> (meta_error, bytes) res" where
  "Meta_Get e key d =
    (if \<not> read_ok e then Inl ReadFailed
     else case db_get key d of None \<Rightarrow> Inl NotFound | Some b \<Rightarrow> Inr b)"

definition Has :: "env \<Rightarrow> bytes \<Rightarrow> db \<Rightarrow> bool" where
  "Has e key d = (case Meta_Get e key d of Inl _ \<Rightarrow> False | Inr _ \<Rightarrow> True)"

text \<open>The boolean of a write says whether it succeeded.\<close>

definition Meta_Set :: "env \<Rightarrow> bytes \<Rightarrow> bytes \<Rightarrow> db \<Rightarrow> bool \<times> db" where
  "Meta_Set e key v d = (if write_ok e then (True, db_set key v d) else (False, d))"

definition Meta_Delete :: "env \<Rightarrow> bytes \<Rightarrow> db \<Rightarrow> bool \<times> db" where
  "Meta_Delete e key d = (if write_ok e then (True, db_delete key d) else (False, d))"

definition Commit :: "env \<Rightarrow> batch_op list \<Rightarrow> db \<Rightarrow> bool \<times> db" where
  "Commit e ops d = (if write_ok e then (True, batch_commit ops d) else (False, d))"

definition GetCBOR :: "'a codec \<Rightarrow> env \<Rightarrow> bytes \<Rightarrow> db \<Rightarrow> (meta_error, 'a) res" where
  "GetCBOR c e key d =
    (case Meta_Get e key d of
       Inl err \<Rightarrow> Inl err
     | Inr b \<Rightarrow> (case Unmarshal c b of None \<Rightarrow> Inl BadValue | Some v \<Rightarrow> Inr v))"

definition SetCBOR :: "'a codec \<Rightarrow> env \<Rightarrow> bytes \<Rightarrow> 'a \<Rightarrow> db \<Rightarrow> bool \<times> db" where
  "SetCBOR c e key v d = Meta_Set e key (Marshal c v) d"

definition GetU64 :: "env \<Rightarrow> bytes \<Rightarrow> db \<Rightarrow> u64" where
  "GetU64 e key d =
    (case Meta_Get e key d of
       Inl _ \<Rightarrow> 0
     | Inr b \<Rightarrow> if length b \<noteq> 8 then 0 else get_u64 b)"

definition SetU64 :: "env \<Rightarrow> bytes \<Rightarrow> u64 \<Rightarrow> db \<Rightarrow> bool \<times> db" where
  "SetU64 e key v d = Meta_Set e key (put_u64 v) d"

definition Increment :: "env \<Rightarrow> bytes \<Rightarrow> db \<Rightarrow> u64 option \<times> db" where
  "Increment e key d =
    (let v = GetU64 e key d + 1
     in case SetU64 e key v d of (False, d) \<Rightarrow> (None, d) | (True, d) \<Rightarrow> (Some v, d))"

definition Raise :: "env \<Rightarrow> bytes \<Rightarrow> u64 \<Rightarrow> db \<Rightarrow> bool \<times> db" where
  "Raise e key v d = (if GetU64 e key d \<ge> v then (True, d) else SetU64 e key v d)"

definition prefix_upper :: "bytes \<Rightarrow> bytes" where
  "prefix_upper pfx = pfx @ replicate 4 CHR 0xff"

fun scan_while :: "(bytes \<Rightarrow> bytes \<Rightarrow> 's \<Rightarrow> bool \<times> 's) \<Rightarrow> (bytes \<times> bytes) list \<Rightarrow> 's \<Rightarrow> 's" where
  "scan_while fn [] s = s"
| "scan_while fn ((k, v) # kvs) s =
    (case fn k v s of (False, s) \<Rightarrow> s | (True, s) \<Rightarrow> scan_while fn kvs s)"

definition Meta_Scan :: "bytes \<Rightarrow> (bytes \<Rightarrow> bytes \<Rightarrow> 's \<Rightarrow> bool \<times> 's) \<Rightarrow> db \<Rightarrow> 's \<Rightarrow> 's" where
  "Meta_Scan pfx fn d s = scan_while fn (db_range pfx (prefix_upper pfx) d) s"

definition Count :: "bytes \<Rightarrow> db \<Rightarrow> nat" where
  "Count pfx d = Meta_Scan pfx (\<lambda>k v n. (True, n + 1)) d 0"

definition DeletePrefix :: "env \<Rightarrow> bytes \<Rightarrow> db \<Rightarrow> bool \<times> db" where
  "DeletePrefix e pfx d =
    (let b = Meta_Scan pfx (\<lambda>k v b. (True, b @ [BDelete k])) d []
     in if b = [] then (True, d) else Commit e b d)"

section \<open>Lemmas\<close>

lemma GetU64_SetU64:
  "read_ok e \<Longrightarrow> db_ok d \<Longrightarrow> SetU64 e' key v d = (True, d') \<Longrightarrow>
    db_ok d' \<and> GetU64 e key' d' = (if key' = key then v else GetU64 e key' d)"
  by (auto simp: SetU64_def Meta_Set_def GetU64_def Meta_Get_def db_get_set db_ok_set split: if_splits option.splits)

lemma SetU64_failed: "SetU64 e key v d = (False, d') \<Longrightarrow> d' = d"
  by (auto simp: SetU64_def Meta_Set_def split: if_splits)

text \<open>Raising a counter never lowers it and reaches the value.\<close>

lemma Raise_ge:
  assumes "read_ok e" "db_ok d" "Raise e key v d = (True, d')"
  shows "v \<le> GetU64 e key d' \<and> GetU64 e key d \<le> GetU64 e key d'"
  using assms GetU64_SetU64 [of e d e key v d'] by (auto simp: Raise_def not_le split: if_splits)

lemma scan_while_all: "scan_while (\<lambda>k v s. (True, f k v s)) kvs s = fold (\<lambda>(k, v). f k v) kvs s"
  by (induction kvs arbitrary: s) auto

lemma Count_length: "Count pfx d = length (db_range pfx (prefix_upper pfx) d)"
proof -
  have "fold (\<lambda>(k, v) n. n + 1) kvs n = n + length kvs" for kvs :: "(bytes \<times> bytes) list" and n
    by (induction kvs arbitrary: n) auto
  then show ?thesis by (simp add: Count_def Meta_Scan_def scan_while_all)
qed

text \<open>After a successful \<^verbatim>\<open>DeletePrefix\<close> exactly the keys of the scanned range are gone.\<close>

lemma batch_commit_deletes:
  assumes "db_ok d"
  shows "db_ok (batch_commit (map BDelete ks) d) \<and>
    db_get k (batch_commit (map BDelete ks) d) = (if k \<in> set ks then None else db_get k d)"
  using assms
proof (induction ks arbitrary: d)
  case Nil
  then show ?case by (simp add: batch_commit_def)
next
  case (Cons a ks)
  from Cons.IH [of "db_delete a d"] Cons.prems show ?case
    by (simp add: batch_commit_def db_ok_delete db_get_delete)
qed

lemma DeletePrefix_exact:
  assumes "db_ok d" "DeletePrefix e pfx d = (True, d')"
  shows "db_get k d' = (if pfx \<le> k \<and> k < prefix_upper pfx then None else db_get k d)"
proof -
  have fold: "fold (\<lambda>(k, v) b. b @ [BDelete k]) kvs b = b @ map BDelete (map fst kvs)"
    for kvs :: "(bytes \<times> bytes) list" and b
    by (induction kvs arbitrary: b) auto
  let ?K = "db_range pfx (prefix_upper pfx) d"
  have "set (map fst ?K) = {k. db_get k d \<noteq> None \<and> pfx \<le> k \<and> k < prefix_upper pfx}"
    using set_db_range [OF assms(1), of pfx "prefix_upper pfx"] by force
  moreover have "d' = batch_commit (map BDelete (map fst ?K)) d"
    using assms(2) by (cases "?K = []")
      (auto simp: DeletePrefix_def Meta_Scan_def scan_while_all fold Commit_def Let_def batch_commit_def split: if_splits)
  ultimately show ?thesis using batch_commit_deletes [OF assms(1), of "map fst ?K" k] by auto
qed

end
