(* ===== verification/Node_Ballots.thy ===== *)
theory Node_Ballots
  imports Meta Proposer
begin

text \<open>
  The counters of a node's ballots: \<^verbatim>\<open>NextBallot\<close> and \<^verbatim>\<open>BumpBallot\<close> of \<^verbatim>\<open>src/node/node.go\<close>, which
  implement the interface \<^verbatim>\<open>Ballots\<close> of the proposer on top of the metadata database. The
  interface is the locale \<open>ballot_source\<close>: in it the loop of \<^verbatim>\<open>ballotAbove\<close> ends and gives a
  fresh ballot above its argument.
\<close>

section \<open>Definitions\<close>

definition mkBallot :: bytes where "mkBallot = ''ballot''"
definition ballotBlock :: u64 where "ballotBlock = 1000"

record node_ballots =
  nbMeta :: db
  nbNext :: u64
  nbMax :: u64

definition NextBallot :: "env \<Rightarrow> node_ballots \<Rightarrow> u64 option \<times> node_ballots" where
  "NextBallot e n =
    (let (ok, n) =
       (if nbNext n = 0 \<or> nbNext n \<ge> nbMax n
        then let cur = GetU64 e mkBallot (nbMeta n); next = cur + ballotBlock
             in case SetU64 e mkBallot next (nbMeta n) of
                  (False, d) \<Rightarrow> (False, n\<lparr>nbMeta := d\<rparr>)
                | (True, d) \<Rightarrow> (True, n\<lparr>nbMeta := d, nbNext := cur + 1, nbMax := next\<rparr>)
        else (True, n))
     in if ok then (Some (nbNext n), n\<lparr>nbNext := nbNext n + 1\<rparr>) else (None, n))"

definition BumpBallot :: "env \<Rightarrow> u64 \<Rightarrow> node_ballots \<Rightarrow> bool \<times> node_ballots" where
  "BumpBallot e c n =
    (if c < nbNext n then (True, n)
     else let next = c + ballotBlock
          in case SetU64 e mkBallot next (nbMeta n) of
               (False, d) \<Rightarrow> (False, n\<lparr>nbMeta := d\<rparr>)
             | (True, d) \<Rightarrow> (True, n\<lparr>nbMeta := d, nbNext := c + 1, nbMax := next\<rparr>))"

text \<open>A restarted node has its database and no block.\<close>

definition restarted :: "node_ballots \<Rightarrow> node_ballots" where
  "restarted n = n\<lparr>nbNext := 0, nbMax := 0\<rparr>"

definition stored_counter :: "node_ballots \<Rightarrow> u64" where
  "stored_counter n = (case db_get mkBallot (nbMeta n) of
     None \<Rightarrow> 0 | Some b \<Rightarrow> if length b \<noteq> 8 then 0 else get_u64 b)"

text \<open>The highest counter handed out or given up.\<close>

definition last_counter :: "node_ballots \<Rightarrow> nat" where
  "last_counter n = (if nbNext n = 0 then unat (stored_counter n) else unat (nbNext n) - 1)"

definition counters_ok :: "node_ballots \<Rightarrow> bool" where
  "counters_ok n \<longleftrightarrow> db_ok (nbMeta n) \<and>
    (nbNext n \<noteq> 0 \<longrightarrow> nbNext n \<le> nbMax n \<and> stored_counter n = nbMax n)"

definition counter_bound :: nat where
  "counter_bound = 2 ^ 64 - 1002"

text \<open>
  The life of a node's counters, with the counters handed out, the latest first: calls that
  meet readable storage, bumps after a first \<^verbatim>\<open>NextBallot\<close>, and restarts.
\<close>

inductive counters_reach :: "node_ballots \<Rightarrow> u64 list \<Rightarrow> bool" where
  fresh: "counters_reach \<lparr> nbMeta = [], nbNext = 0, nbMax = 0 \<rparr> []"
| handed: "counters_reach n cs \<Longrightarrow> last_counter n < counter_bound \<Longrightarrow> read_ok e \<Longrightarrow>
    NextBallot e n = (Some c, n') \<Longrightarrow> counters_reach n' (c # cs)"
| failed: "counters_reach n cs \<Longrightarrow> read_ok e \<Longrightarrow> NextBallot e n = (None, n') \<Longrightarrow> counters_reach n' cs"
| bumped: "counters_reach n cs \<Longrightarrow> nbNext n \<noteq> 0 \<Longrightarrow> unat c < counter_bound \<Longrightarrow>
    BumpBallot e c n = (ok, n') \<Longrightarrow> counters_reach n' cs"
| restart: "counters_reach n cs \<Longrightarrow> counters_reach (restarted n) cs"

text \<open>
  A life of the node as a sequence of events, the counters it hands out, and the conditions under
  which they stay in range: every call is made with the last counter below the bound, and a bump
  follows a \<^verbatim>\<open>NextBallot\<close> that succeeded since the last restart and asks for a counter below the
  bound, as the proposer does.
\<close>

datatype counter_event = Next env | Bump env u64 | Restart

fun counter_step :: "counter_event \<Rightarrow> node_ballots \<Rightarrow> u64 option \<times> node_ballots" where
  "counter_step (Next e) n = NextBallot e n"
| "counter_step (Bump e c) n = (None, snd (BumpBallot e c n))"
| "counter_step Restart n = (None, restarted n)"

fun counters_run :: "counter_event list \<Rightarrow> node_ballots \<Rightarrow> u64 list \<times> node_ballots" where
  "counters_run [] n = ([], n)"
| "counters_run (ev # evs) n =
    (let (c, n) = counter_step ev n; (cs, n) = counters_run evs n
     in (case c of None \<Rightarrow> cs | Some c \<Rightarrow> c # cs, n))"

fun in_range :: "counter_event \<Rightarrow> node_ballots \<Rightarrow> bool" where
  "in_range (Next e) n \<longleftrightarrow> last_counter n < counter_bound"
| "in_range (Bump e c) n \<longleftrightarrow> nbNext n \<noteq> 0 \<and> unat c < counter_bound"
| "in_range Restart n \<longleftrightarrow> True"

fun stays_in_range :: "counter_event list \<Rightarrow> node_ballots \<Rightarrow> bool" where
  "stays_in_range [] n \<longleftrightarrow> True"
| "stays_in_range (ev # evs) n \<longleftrightarrow> in_range ev n \<and> stays_in_range evs (snd (counter_step ev n))"

definition disk_fine :: env where
  "disk_fine = \<lparr> now = 0, read_ok = True, write_ok = True \<rparr>"

definition fresh_counters :: node_ballots where
  "fresh_counters = \<lparr> nbMeta = [], nbNext = 0, nbMax = 0 \<rparr>"

text \<open>A life with a restart, a failed write and a bump.\<close>

definition example_life :: "counter_event list" where
  "example_life = [Next disk_fine, Restart, Next (disk_fine\<lparr>write_ok := False\<rparr>), Next disk_fine, Bump disk_fine 5000, Next disk_fine]"

definition used_counters :: node_ballots where
  "used_counters = snd (NextBallot disk_fine fresh_counters)"

text \<open>An environment whose counters are a node's and whose other operations do nothing.\<close>

definition counters_env :: "node_ballots penv" where
  "counters_env = \<lparr> trCall = (\<lambda>nid m w. (Inl [], w)), vwView = (\<lambda>w. None), vwAdopt = (\<lambda>v w. w),
     blNext = NextBallot disk_fine, blBump = Some (BumpBallot disk_fine), ctxErr = (\<lambda>w. False),
     ckNow = (\<lambda>w. 0), ckWait = (\<lambda>d w. (True, w)), scOrder = (\<lambda>ids w. (ids, w)) \<rparr>"

section \<open>The interface\<close>

locale ballot_source =
  fixes nxt :: "'w \<Rightarrow> u64 option \<times> 'w" and bump :: "u64 \<Rightarrow> 'w \<Rightarrow> bool \<times> 'w"
    and lastc :: "'w \<Rightarrow> nat" and ok :: "'w \<Rightarrow> bool" and started :: "'w \<Rightarrow> bool" and bound :: nat
  assumes nxt: "ok w \<Longrightarrow> lastc w < bound \<Longrightarrow> nxt w = (Some c, w') \<Longrightarrow>
      ok w' \<and> started w' \<and> lastc w < unat c \<and> lastc w' = unat c"
    and bump: "ok w \<Longrightarrow> started w \<Longrightarrow> unat c < bound \<Longrightarrow> bump c w = (True, w') \<Longrightarrow>
      ok w' \<and> started w' \<and> lastc w' = max (lastc w) (unat c)"
begin

lemma turn_above:
  assumes "blNext env = nxt" "ok (prWorld p)" "lastc (prWorld p) < bound" "unat (Counter b) \<le> lastc (prWorld p)"
  shows "\<exists>r p'. ballot_turn env b p = (Some r, p') \<and> (\<forall>nb. r = Some nb \<longrightarrow>
    b < nb \<and> Proposer nb = prSelf p \<and> lastc (prWorld p) < unat (Counter nb) \<and>
    ok (prWorld p') \<and> lastc (prWorld p') = unat (Counter nb))"
proof (cases "nxt (prWorld p)")
  case (Pair c w)
  show ?thesis
  proof (cases c)
    case None
    with Pair assms(1) show ?thesis by (simp add: ballot_turn_def nextBallot_def)
  next
    case (Some c)
    with nxt [OF assms(2,3)] Pair have c: "ok w" "lastc (prWorld p) < unat c" "lastc w = unat c" by auto
    then have "b < Ballot c (prSelf p)"
      using assms(4) by (cases b) (simp add: less_ballot_def word_less_nat_alt)
    then show ?thesis using Pair Some assms(1) c
      by (simp add: ballot_turn_def nextBallot_def Ballot_Compare_simps)
  qed
qed

text \<open>The loop ends after at most two turns, with an error of the source or a fresh ballot.\<close>

lemma above_returns:
  assumes "blNext env = nxt" "blBump env = Some bump" "ok (prWorld p)" "lastc (prWorld p) < bound"
    "unat (Counter b) < bound"
  shows "\<exists>r p'. ballotAbove env b p = Some (r, p') \<and> (\<forall>nb. r = Some nb \<longrightarrow>
    b < nb \<and> Proposer nb = prSelf p \<and> lastc (prWorld p) < unat (Counter nb))"
proof (cases "ballot_turn env b p")
  case (Pair r p1)
  show ?thesis
  proof (cases r)
    case (Some nb)
    have "\<forall>x. nb = Some x \<longrightarrow> b < x \<and> Proposer x = prSelf p \<and> lastc (prWorld p) < unat (Counter x)"
      using Pair Some nxt [OF assms(3,4)] assms(1)
      by (auto simp: ballot_turn_def nextBallot_def Ballot_Compare_simps split: prod.splits option.splits if_splits bool.splits)
    then show ?thesis using Pair Some by (subst ballotAbove.simps) simp
  next
    case None
    obtain c w where c: "nxt (prWorld p) = (Some c, w)" "\<not> b < Ballot c (prSelf p)"
      using Pair None assms(1)
      by (auto simp: ballot_turn_def nextBallot_def Ballot_Compare_simps split: prod.splits option.splits if_splits)
    from nxt [OF assms(3,4) c(1)] have w: "ok w" "started w" "lastc (prWorld p) < unat c" "lastc w = unat c" by auto
    have le: "c \<le> Counter b" using c(2) by (cases b) (auto simp: less_ballot_def)
    obtain w' where w': "bump (Counter b) w = (True, w')" "p1 = p\<lparr>prWorld := w'\<rparr>"
      using Pair None assms(1,2) c le
      by (auto simp: ballot_turn_def nextBallot_def Ballot_Compare_simps split: prod.splits option.splits if_splits bool.splits)
    from bump [OF w(1,2) assms(5) w'(1)] le w(4)
    have "ok w'" "lastc w' = unat (Counter b)" by (auto simp: word_le_nat_alt)
    from turn_above [OF assms(1), of p1 b] this w'(2) assms(5)
    obtain r' p' where r': "ballot_turn env b p1 = (Some r', p')"
      "\<forall>nb. r' = Some nb \<longrightarrow> b < nb \<and> Proposer nb = prSelf p \<and> unat (Counter b) < unat (Counter nb)"
      by auto
    have "ballotAbove env b p = ballotAbove env b p1"
      using Pair None by (subst ballotAbove.simps) simp
    also have "\<dots> = Some (r', p')" using r' by (subst ballotAbove.simps) simp
    finally show ?thesis using r'(2) w(3) le by (force simp: word_le_nat_alt)
  qed
qed

end

section \<open>The node's counters\<close>

lemma GetU64_stored: "read_ok e \<Longrightarrow> GetU64 e mkBallot (nbMeta n) = stored_counter n"
  by (auto simp: GetU64_def Meta_Get_def stored_counter_def split: option.splits)

lemma stored_SetU64:
  "db_ok (nbMeta n) \<Longrightarrow> SetU64 e mkBallot v (nbMeta n) = (True, d) \<Longrightarrow>
    db_ok d \<and> stored_counter (n\<lparr>nbMeta := d, nbNext := x, nbMax := y\<rparr>) = v"
  by (auto simp: SetU64_def Meta_Set_def stored_counter_def db_get_set db_ok_set split: if_splits)

lemma unat_plus_small: "unat c + k < 2 ^ 64 \<Longrightarrow> unat (c + of_nat k :: u64) = unat c + k"
  by (subst unat_add_lem [THEN iffD1]) (simp_all add: unat_of_nat_mod)

lemma unat_pos: "0 < unat (c :: u64) \<Longrightarrow> c \<noteq> 0"
  by auto

lemma unat_plus_consts:
  "unat c < counter_bound \<Longrightarrow> unat (c + 1 :: u64) = unat c + 1"
  "unat c < counter_bound \<Longrightarrow> unat (c + ballotBlock) = unat c + 1000"
  using unat_plus_small [of c 1] unat_plus_small [of c 1000] by (simp_all add: counter_bound_def ballotBlock_def)

lemma NextBallot_law:
  assumes "read_ok e" "counters_ok n" "last_counter n < counter_bound" "NextBallot e n = (Some c, n')"
  shows "counters_ok n' \<and> nbNext n' \<noteq> 0 \<and> last_counter n < unat c \<and> last_counter n' = unat c"
proof (cases "nbNext n = 0 \<or> nbNext n \<ge> nbMax n")
  case False
  then have "n' = n\<lparr>nbNext := nbNext n + 1\<rparr>" "c = nbNext n" "nbNext n < nbMax n"
    using assms(4) by (auto simp: NextBallot_def)
  moreover from this have "unat (nbNext n + 1) = unat (nbNext n) + 1"
    using unat_plus_small [of "nbNext n" 1] unat_less_2p64 [of "nbMax n"] by (simp add: word_less_nat_alt)
  ultimately show ?thesis using assms(2) False
    by (auto simp: counters_ok_def last_counter_def stored_counter_def word_less_nat_alt word_le_nat_alt unat_gt_0)
next
  case True
  let ?cur = "stored_counter n"
  obtain d where d: "SetU64 e mkBallot (?cur + ballotBlock) (nbMeta n) = (True, d)" "c = ?cur + 1"
    "n' = n\<lparr>nbMeta := d, nbNext := ?cur + 1 + 1, nbMax := ?cur + ballotBlock\<rparr>"
    using assms(4) True GetU64_stored [OF assms(1)]
    by (auto simp: NextBallot_def Let_def split: prod.splits bool.splits)
  have cur: "unat ?cur < counter_bound + 1"
    using assms(2,3) True by (auto simp: counters_ok_def last_counter_def word_le_nat_alt split: if_splits)
  have "unat (?cur + 1 + 1) = unat ?cur + 2" "unat (?cur + 1) = unat ?cur + 1"
    "unat (?cur + ballotBlock) = unat ?cur + 1000"
    using unat_plus_small [of ?cur 2] unat_plus_small [of ?cur 1] unat_plus_small [of ?cur 1000] cur
    by (simp_all add: counter_bound_def ballotBlock_def add.assoc)
  moreover from this have "?cur + 1 + 1 \<noteq> 0" by (intro unat_pos) linarith
  moreover have "last_counter n < unat ?cur + 1"
    using assms(2) True by (auto simp: counters_ok_def last_counter_def word_le_nat_alt)
  ultimately show ?thesis using d assms(2) stored_SetU64 [OF _ d(1)]
    by (auto simp: counters_ok_def last_counter_def word_le_nat_alt)
qed

lemma BumpBallot_law:
  assumes "counters_ok n" "nbNext n \<noteq> 0" "unat c < counter_bound" "BumpBallot e c n = (True, n')"
  shows "counters_ok n' \<and> nbNext n' \<noteq> 0 \<and> last_counter n' = max (last_counter n) (unat c)"
proof (cases "c < nbNext n")
  case True
  then show ?thesis using assms by (auto simp: BumpBallot_def last_counter_def word_less_nat_alt)
next
  case False
  then obtain d where d: "SetU64 e mkBallot (c + ballotBlock) (nbMeta n) = (True, d)"
    "n' = n\<lparr>nbMeta := d, nbNext := c + 1, nbMax := c + ballotBlock\<rparr>"
    using assms(4) by (auto simp: BumpBallot_def Let_def split: prod.splits bool.splits)
  have "c + 1 \<noteq> 0" using unat_plus_consts(1) [OF assms(3)] by (intro unat_pos) linarith
  then show ?thesis using d False assms(1,2) stored_SetU64 [OF _ d(1)] unat_plus_consts [OF assms(3)]
    by (auto simp: counters_ok_def last_counter_def word_le_nat_alt word_less_nat_alt)
qed

interpretation nb: ballot_source "NextBallot (e\<lparr>read_ok := True\<rparr>)" "BumpBallot e" last_counter counters_ok
  "\<lambda>n. nbNext n \<noteq> 0" counter_bound for e
proof unfold_locales
  fix w c w'
  assume "counters_ok w" "last_counter w < counter_bound" "NextBallot (e\<lparr>read_ok := True\<rparr>) w = (Some c, w')"
  then show "counters_ok w' \<and> nbNext w' \<noteq> 0 \<and> last_counter w < unat c \<and> last_counter w' = unat c"
    by (intro NextBallot_law) auto
next
  fix w c w'
  assume "counters_ok w" "nbNext w \<noteq> 0" "unat c < counter_bound" "BumpBallot e c w = (True, w')"
  then show "counters_ok w' \<and> nbNext w' \<noteq> 0 \<and> last_counter w' = max (last_counter w) (unat c)"
    by (rule BumpBallot_law)
qed

lemma NextBallot_failed: "NextBallot e n = (None, n') \<Longrightarrow> n' = n"
  by (auto simp: NextBallot_def Let_def dest: SetU64_failed split: prod.splits bool.splits if_splits)

lemma BumpBallot_failed: "BumpBallot e c n = (False, n') \<Longrightarrow> n' = n"
  by (auto simp: BumpBallot_def Let_def dest: SetU64_failed split: prod.splits bool.splits if_splits)

lemma counters_reach_inv:
  "counters_reach n cs \<Longrightarrow> counters_ok n \<and> sorted_wrt (>) cs \<and> (\<forall>c \<in> set cs. unat c \<le> last_counter n)"
proof (induction rule: counters_reach.induct)
  case fresh
  then show ?case by (simp add: counters_ok_def db_ok_def)
next
  case (handed n cs e c n')
  with NextBallot_law [OF handed.hyps(3) _ handed.hyps(2,4)] show ?case
    by (fastforce simp: word_less_nat_alt)
next
  case (failed n cs e n')
  with NextBallot_failed show ?case by blast
next
  case (bumped n cs c e ok n')
  show ?case
  proof (cases ok)
    case True
    with BumpBallot_law [of n c e n'] bumped show ?thesis by fastforce
  next
    case False
    with BumpBallot_failed [of e c n n'] bumped show ?thesis by simp
  qed
next
  case (restart n cs)
  have "last_counter n \<le> last_counter (restarted n)"
    using restart by (auto simp: counters_ok_def last_counter_def restarted_def stored_counter_def word_le_nat_alt)
  with restart show ?case by (fastforce simp: counters_ok_def restarted_def)
qed

lemma counter_step_reach:
  assumes "counters_reach n cs" "in_range ev n" "\<forall>e. ev = Next e \<longrightarrow> read_ok e" "counter_step ev n = (c, n')"
  shows "counters_reach n' (case c of None \<Rightarrow> cs | Some c \<Rightarrow> c # cs)"
proof (cases ev)
  case (Next e)
  with assms show ?thesis by (cases c) (auto intro: counters_reach.handed counters_reach.failed)
next
  case (Bump e b)
  with assms counters_reach.bumped [OF assms(1), of b e "fst (BumpBallot e b n)" "snd (BumpBallot e b n)"]
  show ?thesis by auto
next
  case Restart
  with assms show ?thesis by (auto intro: counters_reach.restart)
qed

lemma counters_run_reach:
  assumes "counters_reach n cs" "stays_in_range evs n" "\<forall>e. Next e \<in> set evs \<longrightarrow> read_ok e"
  shows "counters_reach (snd (counters_run evs n)) (rev (fst (counters_run evs n)) @ cs)"
  using assms
proof (induction evs arbitrary: n cs)
  case (Cons ev evs)
  obtain c n' where c: "counter_step ev n = (c, n')" by fastforce
  have "counters_reach n' (case c of None \<Rightarrow> cs | Some c \<Rightarrow> c # cs)"
    by (rule counter_step_reach [OF Cons.prems(1) _ _ c]) (use Cons.prems in auto)
  from Cons.IH [OF this] Cons.prems(2,3) c show ?case
    by (auto simp: split_beta Let_def split: option.splits)
qed simp

lemma used_counters_eq: "NextBallot disk_fine fresh_counters = (Some 1, used_counters)"
  "nbNext used_counters = 2" "nbMax used_counters = 1000"
  unfolding used_counters_def by code_simp+

lemma used_counters_reach: "counters_reach used_counters [1]"
  by (rule counters_reach.handed [OF counters_reach.fresh [folded fresh_counters_def] _ _ used_counters_eq(1)])
    (simp_all add: disk_fine_def fresh_counters_def last_counter_def stored_counter_def counter_bound_def db_get_def)

lemma used_last_counter: "last_counter used_counters = 1"
  by (simp add: last_counter_def used_counters_eq)

section \<open>Properties\<close>

text \<open>
  C5: A node does not hand out a ballot counter twice over any sequence of calls of \<^verbatim>\<open>NextBallot\<close>,
  bumps and restarts from an empty database, provided that the stored counter can be read at every
  \<^verbatim>\<open>NextBallot\<close>, that bumps come after a \<^verbatim>\<open>NextBallot\<close> of the same process, and that counters stay
  below 2 to the 64 less a block: the counters come out strictly increasing. Writes may fail at
  any time.
\<close>

theorem counters_never_reused:
  assumes "\<forall>e. Next e \<in> set evs \<longrightarrow> read_ok e" "stays_in_range evs fresh_counters"
  shows "sorted_wrt (<) (fst (counters_run evs fresh_counters)) \<and> distinct (fst (counters_run evs fresh_counters))"
proof -
  have "counters_reach fresh_counters []" unfolding fresh_counters_def by (rule counters_reach.fresh)
  from counters_reach_inv [OF counters_run_reach [OF this assms(2,1)]]
  have s: "sorted_wrt (<) (fst (counters_run evs fresh_counters))" by (simp add: sorted_wrt_rev)
  then have "distinct (fst (counters_run evs fresh_counters))" by (simp add: strict_sorted_iff)
  with s show ?thesis ..
qed

theorem counters_never_reused_witness:
  "fst (counters_run example_life fresh_counters) = [1, 1001, 5001] \<and>
    distinct (fst (counters_run example_life fresh_counters))"
proof -
  have "fst (counters_run example_life fresh_counters) = [1, 1001, 5001]" by code_simp
  moreover have "stays_in_range example_life fresh_counters" unfolding example_life_def by code_simp
  moreover have "\<forall>e. Next e \<in> set example_life \<longrightarrow> read_ok e" by (auto simp: example_life_def disk_fine_def)
  ultimately show ?thesis using counters_never_reused [of example_life] by simp
qed

text \<open>
  C6: The search for a fresh ballot ends: on the node's counters, while they can be read and are
  below the bound, \<^verbatim>\<open>ballotAbove\<close> returns, with an error of the storage or with a ballot of this
  node above the given one and above every counter handed out before.
\<close>

theorem ballotAbove_returns:
  assumes "counters_reach (prWorld p) cs" "last_counter (prWorld p) < counter_bound"
    "unat (Counter b) < counter_bound"
    "blNext env = NextBallot (e\<lparr>read_ok := True\<rparr>)" "blBump env = Some (BumpBallot e)"
  shows "\<exists>r p'. ballotAbove env b p = Some (r, p') \<and>
    (\<forall>nb. r = Some nb \<longrightarrow> b < nb \<and> Proposer nb = prSelf p \<and> (\<forall>c \<in> set cs. c < Counter nb))"
proof -
  have inv: "counters_ok (prWorld p)" "\<And>c. c \<in> set cs \<Longrightarrow> unat c \<le> last_counter (prWorld p)"
    using counters_reach_inv [OF assms(1)] by auto
  from nb.above_returns [OF assms(4,5) inv(1) assms(2,3)] obtain r p' where r: "ballotAbove env b p = Some (r, p')"
    "\<And>nb. r = Some nb \<Longrightarrow> b < nb \<and> Proposer nb = prSelf p \<and> last_counter (prWorld p) < unat (Counter nb)" by blast
  have "c < Counter nb" if "r = Some nb" "c \<in> set cs" for nb c
    using r(2) [OF that(1)] inv(2) [OF that(2)] unfolding word_less_nat_alt by linarith
  with r show ?thesis by blast
qed

theorem ballotAbove_returns_witness:
  "\<exists>r p'. ballotAbove counters_env (Ballot 7000 zero_id) (NewProposer zero_id 0 used_counters) = Some (r, p') \<and>
    (\<forall>nb. r = Some nb \<longrightarrow> Ballot 7000 zero_id < nb)"
proof -
  have "blNext counters_env = NextBallot (disk_fine\<lparr>read_ok := True\<rparr>)" "blBump counters_env = Some (BumpBallot disk_fine)"
    by (simp_all add: counters_env_def disk_fine_def)
  from ballotAbove_returns [OF _ _ _ this, of "NewProposer zero_id 0 used_counters" "[1]" "Ballot 7000 zero_id"]
  show ?thesis using used_counters_reach used_last_counter by (auto simp: NewProposer_def counter_bound_def)
qed

text \<open>
  C36: A read error makes a node reuse counters. \<^verbatim>\<open>GetU64\<close> gives 0 for a counter that cannot be
  read as for an absent one, so a restarted node whose read fails starts again at 1.
\<close>

theorem NextBallot_read_error:
  "\<exists>n cs c. counters_reach n cs \<and> c \<in> set cs \<and> fst (NextBallot (disk_fine\<lparr>read_ok := False\<rparr>) n) = Some c"
proof -
  have "fst (NextBallot (disk_fine\<lparr>read_ok := False\<rparr>) (restarted used_counters)) = Some 1" by code_simp
  with counters_reach.restart [OF used_counters_reach] show ?thesis by fastforce
qed

end
