(* ===== verification/Catalog.thy ===== *)
theory Catalog
  imports Proposer
begin

text \<open>
  The typed layer over the registers, \<^verbatim>\<open>src/catalog/catalog.go\<close>: the view, references, the
  maintenance lease, join tokens, the GC state and keep flags. Each operation proposes a change
  function of its own; the functions are separate definitions here. A variable that a Go
  change function assigns and its caller reads is part of the result or of the error. CBOR is a
  codec per value type, BLAKE3 and the random source are parameters, \<open>n\<close> bounds the retries.
\<close>

section \<open>Definitions\<close>

definition RegView :: bytes where "RegView = ''view''"
definition RegLease :: bytes where "RegLease = ''lease/maintenance''"
definition RegGC :: bytes where "RegGC = ''gc''"
definition PrefixRef :: bytes where "PrefixRef = ''ref/''"
definition PrefixJoin :: bytes where "PrefixJoin = ''join/''"
definition PrefixKeep :: bytes where "PrefixKeep = ''keep/''"

record ref_value =
  rvRecord :: bytes
  rvDeletedAt :: int
  rvVersion :: bytes

record cas_mismatch =
  cmCurrent :: "ref_value option"
  cmVersion :: bytes
  cmHasCurrent :: bool

record lease =
  lsHolder :: bytes
  lsExpires :: int

record token =
  tkCreatedAt :: int
  tkWeight :: u32

record node_stat =
  nsID :: bytes
  nsMarked :: u64
  nsLive :: u64
  nsFreed :: u64
  nsPacks :: int
  nsNoMark :: bool
  nsCopied :: u64
  nsDuration :: int

text \<open>The garbage ratio is kept as the bits of its \<^verbatim>\<open>float64\<close>.\<close>

record gc_state =
  gcEpoch :: u64
  gcPhase :: int
  gcBarrierAt :: int
  gcSnapshotAt :: int
  gcPlacement :: bytes
  gcAcked :: "bytes list"
  gcMarkDone :: bool
  gcSweepWave :: int
  gcSweepDone :: "node_stat list"
  gcHold :: bool
  gcLast :: "node_stat list"
  gcNonce :: bytes
  gcMarked :: "node_stat list"
  gcError :: string
  gcMissing :: "bytes list"
  gcTolerate :: bool
  gcLastOK :: u64
  gcGarbage :: u64

definition zero_gc :: gc_state where
  "zero_gc = \<lparr> gcEpoch = 0, gcPhase = 0, gcBarrierAt = 0, gcSnapshotAt = 0, gcPlacement = [], gcAcked = [],
     gcMarkDone = False, gcSweepWave = 0, gcSweepDone = [], gcHold = False, gcLast = [], gcNonce = [],
     gcMarked = [], gcError = [], gcMissing = [], gcTolerate = False, gcLastOK = 0, gcGarbage = 0 \<rparr>"

record cat_codecs =
  base_codecs :: codecs
  ref_codec :: "ref_value codec"
  lease_codec :: "lease codec"
  token_codec :: "token codec"
  gc_codec :: "gc_state codec"
  keep_codec :: "int codec"

text \<open>The errors of change functions and of the layer; \<open>FnError\<close> is an error of a caller's function.\<close>

datatype 'e cat_err =
    ErrNoView | ErrDecode | ErrUnknownRef "ref_value option" | ErrAlreadyDone bytes lease
  | ErrMismatch cas_mismatch | ErrViewExists | ErrTokenExists | ErrLost "view option" | FnError 'e "view option"

definition zero_lease :: lease where
  "zero_lease = \<lparr> lsHolder = [], lsExpires = 0 \<rparr>"

definition already_done :: "'e cat_err" where
  "already_done = ErrAlreadyDone [] zero_lease"

subsection \<open>The view\<close>

definition ReadView :: "nat \<Rightarrow> cat_codecs \<Rightarrow> 'w penv \<Rightarrow> 'w proposer \<Rightarrow>
    (('e cat_err perr, view) res \<times> 'w proposer) option" where
  "ReadView n cc env p =
    (case Read n (base_codecs cc) env RegView p of
       None \<Rightarrow> None
     | Some (Inl err, p) \<Rightarrow> Some (Inl err, p)
     | Some (Inr row, p) \<Rightarrow>
         if \<not> roHasValue row then Some (Inl (ChangeError ErrNoView), p)
         else (case Unmarshal (view_codec (base_codecs cc)) (roValue row) of
                 None \<Rightarrow> Some (Inl (ChangeError ErrDecode), p)
               | Some v \<Rightarrow> Some (Inr v, p)))"

definition casview_fn :: "cat_codecs \<Rightarrow> (view \<Rightarrow> view \<times> ('e, bool) res) \<Rightarrow> 'e cat_err change_func" where
  "casview_fn cc fn cur b =
    (if \<not> roHasValue cur then Inl ErrNoView
     else case Unmarshal (view_codec (base_codecs cc)) (roValue cur) of
            None \<Rightarrow> Inl ErrDecode
          | Some v \<Rightarrow>
              (case fn v of
                 (_, Inl e) \<Rightarrow> Inl (FnError e (Some v))
               | (nv, Inr bump) \<Rightarrow>
                   (let nv = nv\<lparr>vVersion := vVersion v + 1\<rparr>;
                        nv = (if bump then nv\<lparr>vEpoch := vEpoch v + 1\<rparr> else nv)
                    in Inr (Marshal (view_codec (base_codecs cc)) nv, True))))"

text \<open>
  After an unknown outcome \<^verbatim>\<open>CASView\<close> settles the register and compares versions; the version it
  proposed is the one of the value in the result.
\<close>

definition CASView :: "nat \<Rightarrow> cat_codecs \<Rightarrow> 'w penv \<Rightarrow> (view \<Rightarrow> view \<times> ('e, bool) res) \<Rightarrow> 'w proposer \<Rightarrow>
    (('e cat_err perr, view) res \<times> 'w proposer) option" where
  "CASView n cc env fn p =
    (let dec = Unmarshal (view_codec (base_codecs cc)) in
     case Propose n (base_codecs cc) env RegView (casview_fn cc fn) 0 p of
       None \<Rightarrow> None
     | Some (res, None, p) \<Rightarrow>
         (case dec (reValue res) of
            None \<Rightarrow> Some (Inl (ChangeError ErrDecode), p)
          | Some v \<Rightarrow> Some (Inr v, p))
     | Some (res, Some err, p) \<Rightarrow>
         if is_unknown err
         then (case Settle n (base_codecs cc) env RegView p of
                 None \<Rightarrow> None
               | Some (Inl (serr :: 'e cat_err perr), p) \<Rightarrow> Some (Inl err, p)
               | Some (Inr row, p) \<Rightarrow>
                   if \<not> roHasValue row then Some (Inl err, p)
                   else (case (dec (roValue row), dec (reValue res)) of
                           (Some v, Some out) \<Rightarrow>
                             if vVersion v = vVersion out then Some (Inr v, p)
                             else Some (Inl (ChangeError (ErrLost (Some v))), p)
                         | _ \<Rightarrow> Some (Inl err, p)))
         else Some (Inl err, p))"

definition initview_fn :: "cat_codecs \<Rightarrow> view \<Rightarrow> 'e cat_err change_func" where
  "initview_fn cc v cur b =
    (if roHasValue cur then Inl ErrViewExists
     else Inr (Marshal (view_codec (base_codecs cc)) v, True))"

definition InitView :: "nat \<Rightarrow> cat_codecs \<Rightarrow> 'w penv \<Rightarrow> view \<Rightarrow> 'w proposer \<Rightarrow>
    ('e cat_err perr option \<times> 'w proposer) option" where
  "InitView n cc env v p =
    map_option (\<lambda>(res, err, p). (err, p)) (Propose n (base_codecs cc) env RegView (initview_fn cc v) 0 p)"

subsection \<open>References\<close>

definition IsTombstone :: "ref_value \<Rightarrow> bool" where
  "IsTombstone r \<longleftrightarrow> rvRecord r = []"

definition DecodeRef :: "cat_codecs \<Rightarrow> bytes \<Rightarrow> ref_value option" where
  "DecodeRef cc b = Unmarshal (ref_codec cc) b"

definition RefReg :: "string \<Rightarrow> bytes" where
  "RefReg name = PrefixRef @ name"

definition RefGet :: "nat \<Rightarrow> cat_codecs \<Rightarrow> 'w penv \<Rightarrow> string \<Rightarrow> 'w proposer \<Rightarrow>
    (('e cat_err perr, ref_value) res \<times> 'w proposer) option" where
  "RefGet n cc env name p =
    (case Read n (base_codecs cc) env (RefReg name) p of
       None \<Rightarrow> None
     | Some (Inl err, p) \<Rightarrow> Some (Inl err, p)
     | Some (Inr row, p) \<Rightarrow>
         if \<not> roHasValue row then Some (Inl (ChangeError (ErrUnknownRef None)), p)
         else (case DecodeRef cc (roValue row) of
                 None \<Rightarrow> Some (Inl (ChangeError ErrDecode), p)
               | Some rv \<Rightarrow>
                   if IsTombstone rv then Some (Inl (ChangeError (ErrUnknownRef (Some rv))), p)
                   else Some (Inr rv, p)))"

record cond =
  cdExpectedVersion :: "bytes option"
  cdVersioned :: bool
  cdExpectedOld :: "bytes option"
  cdKeyed :: bool
  cdForce :: bool

definition mismatch :: "ref_value \<Rightarrow> bool \<Rightarrow> cas_mismatch" where
  "mismatch cur present =
    (if present then \<lparr> cmCurrent = Some cur, cmVersion = rvVersion cur, cmHasCurrent = True \<rparr>
     else \<lparr> cmCurrent = None, cmVersion = [], cmHasCurrent = False \<rparr>)"

text \<open>\<open>None\<close>: the condition holds. An optional byte string is \<open>None\<close> where Go has nil.\<close>

definition check :: "cond \<Rightarrow> ref_value \<Rightarrow> bool \<Rightarrow> bytes \<Rightarrow> cas_mismatch option" where
  "check c cur present curKey =
    (if cdForce c then None
     else if cdVersioned c then
       (case cdExpectedVersion c of
          None \<Rightarrow> if present then Some (mismatch cur present) else None
        | Some ev \<Rightarrow> if \<not> present \<or> ev \<noteq> rvVersion cur then Some (mismatch cur present) else None)
     else if cdKeyed c then
       (case cdExpectedOld c of
          None \<Rightarrow> if present then Some (mismatch cur present) else None
        | Some eo \<Rightarrow> if \<not> present \<or> eo \<noteq> curKey then Some (mismatch cur present) else None)
     else None)"

definition zero_ref :: ref_value where
  "zero_ref = \<lparr> rvRecord = [], rvDeletedAt = 0, rvVersion = [] \<rparr>"

text \<open>What a change function sees of a reference register: the value and whether it is present.\<close>

definition ref_current :: "cat_codecs \<Rightarrow> Row \<Rightarrow> (ref_value \<times> bool) option" where
  "ref_current cc cur =
    (if roHasValue cur
     then map_option (\<lambda>rv. (rv, \<not> IsTombstone rv)) (DecodeRef cc (roValue cur))
     else Some (zero_ref, False))"

definition refput_fn :: "cat_codecs \<Rightarrow> bytes \<Rightarrow> cond \<Rightarrow> (bytes \<Rightarrow> bytes) \<Rightarrow> 'e cat_err change_func" where
  "refput_fn cc rec c keyOf cur b =
    (case ref_current cc cur of
       None \<Rightarrow> Inl ErrDecode
     | Some (rv, present) \<Rightarrow>
         (let curKey = (if present then keyOf (rvRecord rv) else [])
          in case check c rv present curKey of
               Some m \<Rightarrow>
                 if present \<and> rvRecord rv = rec then Inl (ErrAlreadyDone (rvVersion rv) zero_lease)
                 else Inl (ErrMismatch m)
             | None \<Rightarrow>
                 Inr (Marshal (ref_codec cc) \<lparr> rvRecord = rec, rvDeletedAt = 0, rvVersion = Bytes b \<rparr>, True)))"

definition RefPut :: "nat \<Rightarrow> cat_codecs \<Rightarrow> 'w penv \<Rightarrow> string \<Rightarrow> bytes \<Rightarrow> cond \<Rightarrow> int \<Rightarrow> (bytes \<Rightarrow> bytes) \<Rightarrow> 'w proposer \<Rightarrow>
    (('e cat_err perr, bytes) res \<times> 'w proposer) option" where
  "RefPut n cc env name rec c notAfter keyOf p =
    (case Propose n (base_codecs cc) env (RefReg name) (refput_fn cc rec c keyOf) notAfter p of
       None \<Rightarrow> None
     | Some (res, None, p) \<Rightarrow> Some (Inr (Bytes (reBallot res)), p)
     | Some (res, Some err, p) \<Rightarrow>
         (case err of
            ChangeError (ErrAlreadyDone version _) \<Rightarrow> Some (Inr version, p)
          | ErrUnknown _ _ \<Rightarrow>
              (case Settle n (base_codecs cc) env (RefReg name) p of
                 None \<Rightarrow> None
               | Some (Inl (serr :: 'e cat_err perr), p) \<Rightarrow> Some (Inl err, p)
               | Some (Inr row, p) \<Rightarrow>
                   (case (if roHasValue row then DecodeRef cc (roValue row) else None) of
                      Some rv \<Rightarrow>
                        if rvRecord rv = rec then Some (Inr (rvVersion rv), p)
                        else Some (Inl (ChangeError (ErrLost None)), p)
                    | None \<Rightarrow> Some (Inl (ChangeError (ErrLost None)), p)))
          | _ \<Rightarrow> Some (Inl err, p)))"

definition refdelete_fn :: "cat_codecs \<Rightarrow> int \<Rightarrow> cond \<Rightarrow> (bytes \<Rightarrow> bytes) \<Rightarrow> 'e cat_err change_func" where
  "refdelete_fn cc t c keyOf cur b =
    (case ref_current cc cur of
       None \<Rightarrow> Inl ErrDecode
     | Some (rv, present) \<Rightarrow>
         if \<not> present \<and> (cdForce c \<or> cdVersioned c \<and> cdExpectedVersion c \<noteq> None \<or> cdKeyed c \<and> cdExpectedOld c \<noteq> None)
         then Inl already_done
         else (let curKey = (if present then keyOf (rvRecord rv) else [])
               in case check c rv present curKey of
                    Some m \<Rightarrow> Inl (ErrMismatch m)
                  | None \<Rightarrow>
                      if \<not> present then Inl already_done
                      else Inr (Marshal (ref_codec cc) \<lparr> rvRecord = [], rvDeletedAt = t, rvVersion = Bytes b \<rparr>, True)))"

definition RefDelete :: "nat \<Rightarrow> cat_codecs \<Rightarrow> 'w penv \<Rightarrow> int \<Rightarrow> string \<Rightarrow> cond \<Rightarrow> (bytes \<Rightarrow> bytes) \<Rightarrow> 'w proposer \<Rightarrow>
    (('e cat_err perr, ballot) res \<times> 'w proposer) option" where
  "RefDelete n cc env t name c keyOf p =
    (case Propose n (base_codecs cc) env (RefReg name) (refdelete_fn cc t c keyOf) 0 p of
       None \<Rightarrow> None
     | Some (res, None, p) \<Rightarrow> Some (Inr (reBallot res), p)
     | Some (res, Some err, p) \<Rightarrow>
         (case err of
            ChangeError (ErrAlreadyDone _ _) \<Rightarrow> Some (Inr zero_ballot, p)
          | ErrUnknown _ _ \<Rightarrow>
              (case Settle n (base_codecs cc) env (RefReg name) p of
                 None \<Rightarrow> None
               | Some (Inl (serr :: 'e cat_err perr), p) \<Rightarrow> Some (Inl err, p)
               | Some (Inr row, p) \<Rightarrow>
                   (case (if roHasValue row then DecodeRef cc (roValue row) else None) of
                      Some rv \<Rightarrow> if IsTombstone rv then Some (Inr (roAccepted row), p) else Some (Inl err, p)
                    | None \<Rightarrow> Some (Inl err, p)))
          | _ \<Rightarrow> Some (Inl err, p)))"

definition TryPurge :: "cat_codecs \<Rightarrow> 'w penv \<Rightarrow> string \<Rightarrow> ballot \<Rightarrow> 'w proposer \<Rightarrow> bool \<times> 'w proposer" where
  "TryPurge cc env name b p =
    (let (rows, p) = ReadAll (base_codecs cc) env (RefReg name) p
     in case vwView env (prWorld p) of
          None \<Rightarrow> (False, p)
        | Some cur \<Rightarrow>
            if length rows < length (vVoters cur) then (False, p)
            else if \<exists>r \<in> set rows. Ballot_Compare (roAccepted (snd r)) b \<noteq> 0 then (False, p)
            else (True, snd (Purge (base_codecs cc) env (RefReg name) b p)))"

record ref_entry =
  reName :: string
  reValue' :: ref_value
  reUndecided :: bool

text \<open>The entry a listing shows for a row, if any.\<close>

definition list_entry :: "cat_codecs \<Rightarrow> bytes \<Rightarrow> Row \<Rightarrow> bool \<Rightarrow> ref_entry option" where
  "list_entry cc reg row undecided =
    (if \<not> roHasValue row then None
     else case DecodeRef cc (roValue row) of
            None \<Rightarrow> None
          | Some rv \<Rightarrow>
              if IsTombstone rv then None
              else Some \<lparr> reName = drop (length PrefixRef) reg, reValue' = rv, reUndecided = undecided \<rparr>)"

definition RefList :: "nat \<Rightarrow> cat_codecs \<Rightarrow> 'w penv \<Rightarrow> string \<Rightarrow> string \<Rightarrow> int \<Rightarrow> 'w proposer \<Rightarrow>
    (('e perr, ref_entry list \<times> string) res \<times> 'w proposer) option" where
  "RefList n cc env pfx after limit p =
    (let afterReg = (if after \<noteq> [] then RefReg after else [])
     in case Scan n (base_codecs cc) env (PrefixRef @ pfx) afterReg limit p of
          None \<Rightarrow> None
        | Some (Inl err, p) \<Rightarrow> Some (Inl err, p)
        | Some (Inr (rows, next), p) \<Rightarrow>
            Some (Inr (List.map_filter (\<lambda>r. list_entry cc (mrReg r) (mrRow r) (mrUndecided r)) rows,
                       case next of None \<Rightarrow> [] | Some nx \<Rightarrow> drop (length PrefixRef) nx), p))"

text \<open>The rows of a page, undecided ones settled first.\<close>

fun settle_rows :: "nat \<Rightarrow> cat_codecs \<Rightarrow> 'w penv \<Rightarrow> merged_row list \<Rightarrow> 'w proposer \<Rightarrow>
    (('e perr, ref_entry list) res \<times> 'w proposer) option" where
  "settle_rows n cc env [] p = Some (Inr [], p)"
| "settle_rows n cc env (r # rs) p =
    (case (if mrUndecided r then Settle n (base_codecs cc) env (mrReg r) p else Some (Inr (mrRow r), p)) of
       None \<Rightarrow> None
     | Some (Inl err, p) \<Rightarrow> Some (Inl err, p)
     | Some (Inr row, p) \<Rightarrow>
         (case settle_rows n cc env rs p of
            None \<Rightarrow> None
          | Some (Inl err, p) \<Rightarrow> Some (Inl err, p)
          | Some (Inr es, p) \<Rightarrow>
              Some (Inr (case list_entry cc (mrReg r) row False of None \<Rightarrow> es | Some e \<Rightarrow> e # es), p)))"

fun snapshot_pages :: "nat \<Rightarrow> nat \<Rightarrow> cat_codecs \<Rightarrow> 'w penv \<Rightarrow> bytes \<Rightarrow> 'w proposer \<Rightarrow>
    (('e perr, ref_entry list) res \<times> 'w proposer) option" where
  "snapshot_pages 0 n cc env after p = None"
| "snapshot_pages (Suc k) n cc env after p =
    (case Scan n (base_codecs cc) env PrefixRef after 10000 p of
       None \<Rightarrow> None
     | Some (Inl err, p) \<Rightarrow> Some (Inl err, p)
     | Some (Inr (rows, next), p) \<Rightarrow>
         (case settle_rows n cc env rows p of
            None \<Rightarrow> None
          | Some (Inl err, p) \<Rightarrow> Some (Inl err, p)
          | Some (Inr es, p) \<Rightarrow>
              (case next of
                 None \<Rightarrow> Some (Inr es, p)
               | Some nx \<Rightarrow>
                   (case snapshot_pages k n cc env nx p of
                      None \<Rightarrow> None
                    | Some (Inl err, p) \<Rightarrow> Some (Inl err, p)
                    | Some (Inr es', p) \<Rightarrow> Some (Inr (es @ es'), p)))))"

definition RefsSnapshot :: "nat \<Rightarrow> cat_codecs \<Rightarrow> 'w penv \<Rightarrow> 'w proposer \<Rightarrow>
    (('e perr, ref_entry list) res \<times> 'w proposer) option" where
  "RefsSnapshot n cc env p = snapshot_pages n n cc env [] p"

subsection \<open>The lease\<close>

definition row_lease :: "cat_codecs \<Rightarrow> Row \<Rightarrow> lease" where
  "row_lease cc row =
    (if roHasValue row
     then (case Unmarshal (lease_codec cc) (roValue row) of None \<Rightarrow> zero_lease | Some l \<Rightarrow> l)
     else zero_lease)"

definition acquire_fn :: "cat_codecs \<Rightarrow> node_id \<Rightarrow> int \<Rightarrow> int \<Rightarrow> 'e cat_err change_func" where
  "acquire_fn cc self t ttl row b =
    (let cur = row_lease cc row
     in if lsHolder cur \<noteq> [] \<and> lsHolder cur \<noteq> self \<and> lsExpires cur > t
        then Inl (ErrAlreadyDone [] cur)
        else Inr (Marshal (lease_codec cc) \<lparr> lsHolder = self, lsExpires = t + ttl \<rparr>, True))"

definition AcquireLease :: "nat \<Rightarrow> cat_codecs \<Rightarrow> 'w penv \<Rightarrow> node_id \<Rightarrow> int \<Rightarrow> 'w proposer \<Rightarrow>
    (('e cat_err perr, bool \<times> lease) res \<times> 'w proposer) option" where
  "AcquireLease n cc env self ttl p =
    (let t = ckNow env (prWorld p)
     in case Propose n (base_codecs cc) env RegLease (acquire_fn cc self t ttl) 0 p of
          None \<Rightarrow> None
        | Some (res, None, p) \<Rightarrow> Some (Inr (True, \<lparr> lsHolder = self, lsExpires = t + ttl \<rparr>), p)
        | Some (res, Some (ChangeError (ErrAlreadyDone _ cur)), p) \<Rightarrow> Some (Inr (False, cur), p)
        | Some (res, Some err, p) \<Rightarrow> Some (Inl err, p))"

definition release_fn :: "cat_codecs \<Rightarrow> node_id \<Rightarrow> 'e cat_err change_func" where
  "release_fn cc self row b =
    (if lsHolder (row_lease cc row) \<noteq> self then Inl already_done
     else Inr (Marshal (lease_codec cc) zero_lease, True))"

definition ReleaseLease :: "nat \<Rightarrow> cat_codecs \<Rightarrow> 'w penv \<Rightarrow> node_id \<Rightarrow> 'w proposer \<Rightarrow>
    ('e cat_err perr option \<times> 'w proposer) option" where
  "ReleaseLease n cc env self p =
    (case Propose n (base_codecs cc) env RegLease (release_fn cc self) 0 p of
       None \<Rightarrow> None
     | Some (res, Some (ChangeError (ErrAlreadyDone _ _)), p) \<Rightarrow> Some (None, p)
     | Some (res, err, p) \<Rightarrow> Some (err, p))"

definition ReadLease :: "nat \<Rightarrow> cat_codecs \<Rightarrow> 'w penv \<Rightarrow> 'w proposer \<Rightarrow> (('e perr, lease) res \<times> 'w proposer) option" where
  "ReadLease n cc env p =
    map_option (\<lambda>(r, p). (map_sum id (row_lease cc) r, p)) (Read n (base_codecs cc) env RegLease p)"

subsection \<open>Join tokens\<close>

definition TokenID :: "(bytes \<Rightarrow> bytes) \<Rightarrow> bytes \<Rightarrow> bytes" where
  "TokenID blake3 token = blake3 token"

definition TokenReg :: "bytes \<Rightarrow> bytes" where
  "TokenReg tid = PrefixJoin @ tid"

definition token_fn :: "cat_codecs \<Rightarrow> int \<Rightarrow> u32 \<Rightarrow> 'e cat_err change_func" where
  "token_fn cc t weight row b =
    (if roHasValue row \<and> roValue row \<noteq> [] then Inl ErrTokenExists
     else Inr (Marshal (token_codec cc) \<lparr> tkCreatedAt = t, tkWeight = weight \<rparr>, True))"

text \<open>The random token is an argument; \<open>None\<close>: the random source failed.\<close>

definition CreateToken :: "nat \<Rightarrow> (bytes \<Rightarrow> bytes) \<Rightarrow> cat_codecs \<Rightarrow> 'w penv \<Rightarrow> bytes option \<Rightarrow> int \<Rightarrow> u32 \<Rightarrow> 'w proposer \<Rightarrow>
    (('e cat_err perr, bytes) res \<times> 'w proposer) option" where
  "CreateToken n blake3 cc env rnd t weight p =
    (case rnd of
       None \<Rightarrow> Some (Inl (CallError ''rand''), p)
     | Some token \<Rightarrow>
         (case Propose n (base_codecs cc) env (TokenReg (TokenID blake3 token)) (token_fn cc t weight) 0 p of
            None \<Rightarrow> None
          | Some (res, Some err, p) \<Rightarrow> Some (Inl err, p)
          | Some (res, None, p) \<Rightarrow> Some (Inr token, p)))"

definition ReadToken :: "nat \<Rightarrow> cat_codecs \<Rightarrow> 'w penv \<Rightarrow> bytes \<Rightarrow> 'w proposer \<Rightarrow>
    (('e cat_err perr, token) res \<times> 'w proposer) option" where
  "ReadToken n cc env tid p =
    (case Read n (base_codecs cc) env (TokenReg tid) p of
       None \<Rightarrow> None
     | Some (Inl err, p) \<Rightarrow> Some (Inl err, p)
     | Some (Inr row, p) \<Rightarrow>
         if \<not> roHasValue row \<or> roValue row = [] then Some (Inl (ChangeError (ErrUnknownRef None)), p)
         else (case Unmarshal (token_codec cc) (roValue row) of
                 None \<Rightarrow> Some (Inl (ChangeError ErrDecode), p)
               | Some t \<Rightarrow> Some (Inr t, p)))"

definition DeleteToken :: "nat \<Rightarrow> cat_codecs \<Rightarrow> 'w penv \<Rightarrow> bytes \<Rightarrow> 'w proposer \<Rightarrow>
    ('e perr option \<times> 'w proposer) option" where
  "DeleteToken n cc env tid p =
    map_option (\<lambda>(res, err, p). (err, p)) (Propose n (base_codecs cc) env (TokenReg tid) (\<lambda>row b. Inr ([], True)) 0 p)"

definition ListTokens :: "nat \<Rightarrow> cat_codecs \<Rightarrow> 'w penv \<Rightarrow> 'w proposer \<Rightarrow>
    (('e perr, (bytes \<times> token) list) res \<times> 'w proposer) option" where
  "ListTokens n cc env p =
    map_option (\<lambda>(r, p). (map_sum id (\<lambda>(rows, next).
        List.map_filter (\<lambda>r. if \<not> roHasValue (mrRow r) \<or> roValue (mrRow r) = [] then None
          else map_option (\<lambda>t. (drop (length PrefixJoin) (mrReg r), t))
                 (Unmarshal (token_codec cc) (roValue (mrRow r)))) rows) r, p))
      (Scan n (base_codecs cc) env PrefixJoin [] 100000 p)"

subsection \<open>The GC state and keep flags\<close>

definition PhaseIdle :: int where "PhaseIdle = 0"
definition PhaseBarrier :: int where "PhaseBarrier = 1"
definition PhaseMark :: int where "PhaseMark = 2"
definition PhaseSweep :: int where "PhaseSweep = 3"
definition PhaseAborted :: int where "PhaseAborted = 4"

text \<open>The GC state of a row; \<open>None\<close> when it does not decode.\<close>

definition row_gc :: "cat_codecs \<Rightarrow> Row \<Rightarrow> gc_state option" where
  "row_gc cc row = (if roHasValue row then Unmarshal (gc_codec cc) (roValue row) else Some zero_gc)"

definition ReadGC :: "nat \<Rightarrow> cat_codecs \<Rightarrow> 'w penv \<Rightarrow> 'w proposer \<Rightarrow>
    (('e cat_err perr, gc_state) res \<times> 'w proposer) option" where
  "ReadGC n cc env p =
    (case Read n (base_codecs cc) env RegGC p of
       None \<Rightarrow> None
     | Some (Inl err, p) \<Rightarrow> Some (Inl err, p)
     | Some (Inr row, p) \<Rightarrow>
         Some (case row_gc cc row of None \<Rightarrow> Inl (ChangeError ErrDecode) | Some g \<Rightarrow> Inr g, p))"

definition casgc_fn :: "cat_codecs \<Rightarrow> (gc_state \<Rightarrow> gc_state \<times> 'e option) \<Rightarrow> 'e cat_err change_func" where
  "casgc_fn cc fn row b =
    (case row_gc cc row of
       None \<Rightarrow> Inl ErrDecode
     | Some g \<Rightarrow>
         (case fn g of
            (_, Some e) \<Rightarrow> Inl (FnError e None)
          | (g, None) \<Rightarrow> Inr (Marshal (gc_codec cc) g, True)))"

text \<open>The state that \<^verbatim>\<open>CASGC\<close> returns is the one of the committed value.\<close>

definition CASGC :: "nat \<Rightarrow> cat_codecs \<Rightarrow> 'w penv \<Rightarrow> (gc_state \<Rightarrow> gc_state \<times> 'e option) \<Rightarrow> 'w proposer \<Rightarrow>
    (('e cat_err perr, gc_state) res \<times> 'w proposer) option" where
  "CASGC n cc env fn p =
    (case Propose n (base_codecs cc) env RegGC (casgc_fn cc fn) 0 p of
       None \<Rightarrow> None
     | Some (res, None, p) \<Rightarrow>
         Some (case Unmarshal (gc_codec cc) (reValue res) of None \<Rightarrow> Inl (ChangeError ErrDecode) | Some g \<Rightarrow> Inr g, p)
     | Some (res, Some err, p) \<Rightarrow> Some (Inl err, p))"

definition SetKeep :: "nat \<Rightarrow> cat_codecs \<Rightarrow> 'w penv \<Rightarrow> int \<Rightarrow> string \<Rightarrow> 'w proposer \<Rightarrow>
    ('e perr option \<times> 'w proposer) option" where
  "SetKeep n cc env t name p =
    map_option (\<lambda>(res, err, p). (err, p))
      (Propose n (base_codecs cc) env (PrefixKeep @ name) (\<lambda>row b. Inr (Marshal (keep_codec cc) t, True)) 0 p)"

end
