(* ===== verification/Catalog_Props.thy ===== *)
theory Catalog_Props
  imports Catalog Acceptor_Props
begin

text \<open>
  What the catalog's change functions promise: references refine a compare-and-set cell, the
  maintenance lease excludes other holders until it expires, and the views written one after
  the other are ones that acceptors install.
\<close>

section \<open>Definitions\<close>

text \<open>The abstract state of a reference: absent, or a record and its version.\<close>

type_synonym cell = "(bytes \<times> bytes) option"

definition abs_ref :: "cat_codecs \<Rightarrow> Row \<Rightarrow> cell" where
  "abs_ref cc row =
    (case ref_current cc row of
       Some (rv, True) \<Rightarrow> Some (rvRecord rv, rvVersion rv)
     | _ \<Rightarrow> None)"

text \<open>A condition asks for a version or for a key; asking for none means that the name is absent.\<close>

definition cell_ok :: "cond \<Rightarrow> (bytes \<Rightarrow> bytes) \<Rightarrow> cell \<Rightarrow> bool" where
  "cell_ok c keyOf x \<longleftrightarrow> cdForce c \<or>
    (if cdVersioned c then map_option snd x = cdExpectedVersion c
     else cdKeyed c \<longrightarrow> map_option (keyOf \<circ> fst) x = cdExpectedOld c)"

text \<open>The abstract operations; the left result is the version found or \<open>None\<close> for a mismatch.\<close>

definition cell_put :: "bytes \<Rightarrow> cond \<Rightarrow> (bytes \<Rightarrow> bytes) \<Rightarrow> ballot \<Rightarrow> cell \<Rightarrow> (bytes option, cell) res" where
  "cell_put rec c keyOf b x =
    (if cell_ok c keyOf x then Inr (Some (rec, Bytes b))
     else Inl (case x of Some (r, v) \<Rightarrow> if r = rec then Some v else None | None \<Rightarrow> None))"

definition row_of_value :: "bytes \<times> bool \<Rightarrow> ballot \<Rightarrow> Row" where
  "row_of_value vh b = \<lparr> roAccepted = b, roValue = fst vh, roHasValue = snd vh \<rparr>"

definition done_version :: "'e cat_err \<Rightarrow> bytes option" where
  "done_version e = (case e of ErrAlreadyDone v _ \<Rightarrow> Some v | _ \<Rightarrow> None)"

datatype lease_event = Acquire node_id int int | Release node_id

definition event_node :: "lease_event \<Rightarrow> node_id" where
  "event_node ev = (case ev of Acquire n _ _ \<Rightarrow> n | Release n \<Rightarrow> n)"

definition event_fn :: "cat_codecs \<Rightarrow> lease_event \<Rightarrow> unit cat_err change_func" where
  "event_fn cc ev = (case ev of Acquire n t ttl \<Rightarrow> acquire_fn cc n t ttl | Release n \<Rightarrow> release_fn cc n)"

text \<open>Runs of the lease register: the proposals that were committed, one after the other.\<close>

inductive lease_run :: "cat_codecs \<Rightarrow> Row \<Rightarrow> lease_event list \<Rightarrow> Row \<Rightarrow> bool" for cc where
  none: "lease_run cc row [] row"
| step: "event_fn cc ev row b = Inr vh \<Longrightarrow> lease_run cc (row_of_value vh b) evs row' \<Longrightarrow> lease_run cc row (ev # evs) row'"

inductive_cases lease_run_ConsE: "lease_run cc row (ev # evs) row'"

text \<open>Codecs for the examples.\<close>

definition ref_value_p :: "ref_value pickler" where
  "ref_value_p = map_p (\<lambda>r. (rvRecord r, rvDeletedAt r, rvVersion r))
     (\<lambda>(a, b, c). \<lparr> rvRecord = a, rvDeletedAt = b, rvVersion = c \<rparr>) (pair_p bytes_p (pair_p int_p bytes_p))"

definition lease_p :: "lease pickler" where
  "lease_p = map_p (\<lambda>l. (lsHolder l, lsExpires l)) (\<lambda>(a, b). \<lparr> lsHolder = a, lsExpires = b \<rparr>) (pair_p bytes_p int_p)"

definition token_p :: "token pickler" where
  "token_p = map_p (\<lambda>t. (tkCreatedAt t, tkWeight t)) (\<lambda>(a, b). \<lparr> tkCreatedAt = a, tkWeight = b \<rparr>) (pair_p int_p u32_p)"

definition node_stat_p :: "node_stat pickler" where
  "node_stat_p = map_p
     (\<lambda>s. (nsID s, nsMarked s, nsLive s, nsFreed s, nsPacks s, nsNoMark s, nsCopied s, nsDuration s))
     (\<lambda>(a, b, c, d, e, f, g, h). \<lparr> nsID = a, nsMarked = b, nsLive = c, nsFreed = d, nsPacks = e, nsNoMark = f,
        nsCopied = g, nsDuration = h \<rparr>)
     (pair_p bytes_p (pair_p u64_p (pair_p u64_p (pair_p u64_p (pair_p int_p (pair_p bool_p (pair_p u64_p int_p)))))))"

definition gc_p :: "gc_state pickler" where
  "gc_p = map_p
     (\<lambda>g. ((gcEpoch g, gcPhase g, gcBarrierAt g, gcSnapshotAt g, gcPlacement g, gcAcked g, gcMarkDone g, gcSweepWave g, gcSweepDone g),
           (gcHold g, gcLast g, gcNonce g, gcMarked g, gcError g, gcMissing g, gcTolerate g, gcLastOK g, gcGarbage g)))
     (\<lambda>((a, b, c, d, e, f, g, h, i), (j, k, l, m, n, o', p, q, r)). \<lparr> gcEpoch = a, gcPhase = b, gcBarrierAt = c,
        gcSnapshotAt = d, gcPlacement = e, gcAcked = f, gcMarkDone = g, gcSweepWave = h, gcSweepDone = i, gcHold = j,
        gcLast = k, gcNonce = l, gcMarked = m, gcError = n, gcMissing = o', gcTolerate = p, gcLastOK = q, gcGarbage = r \<rparr>)
     (pair_p (pair_p u64_p (pair_p int_p (pair_p int_p (pair_p int_p (pair_p bytes_p (pair_p (list_p bytes_p)
         (pair_p bool_p (pair_p int_p (list_p node_stat_p)))))))))
       (pair_p bool_p (pair_p (list_p node_stat_p) (pair_p bytes_p (pair_p (list_p node_stat_p) (pair_p bytes_p
         (pair_p (list_p bytes_p) (pair_p bool_p (pair_p u64_p u64_p)))))))))"

definition std_cat :: cat_codecs where
  "std_cat = \<lparr> base_codecs = std_codecs, ref_codec = codec_of ref_value_p, lease_codec = codec_of lease_p,
     token_codec = codec_of token_p, gc_codec = codec_of gc_p, keep_codec = codec_of int_p \<rparr>"

definition cat_ok :: "cat_codecs \<Rightarrow> bool" where
  "cat_ok cc \<longleftrightarrow> codecs_ok (base_codecs cc) \<and> codec_ok (ref_codec cc) \<and> codec_ok (lease_codec cc) \<and>
    codec_ok (token_codec cc) \<and> codec_ok (gc_codec cc) \<and> codec_ok (keep_codec cc)"

definition example_cond :: cond where
  "example_cond = \<lparr> cdExpectedVersion = None, cdVersioned = True, cdExpectedOld = None, cdKeyed = False, cdForce = False \<rparr>"

section \<open>Codecs\<close>

interpretation ref_value_p: pickling ref_value_p
  unfolding ref_value_p_def by (intro pickling_map pickling_intros) simp

interpretation lease_p: pickling lease_p
  unfolding lease_p_def by (intro pickling_map pickling_intros) simp

interpretation token_p: pickling token_p
  unfolding token_p_def by (intro pickling_map pickling_intros) simp

interpretation node_stat_p: pickling node_stat_p
  unfolding node_stat_p_def by (intro pickling_map pickling_intros) simp

interpretation gc_p: pickling gc_p
  unfolding gc_p_def by (intro pickling_map pickling_intros node_stat_p.pickling_axioms) simp

lemma std_cat_ok: "cat_ok std_cat"
  by (simp add: cat_ok_def std_cat_def std_codecs_ok ref_value_p.codec_ok lease_p.codec_ok token_p.codec_ok
      gc_p.codec_ok int_p.codec_ok)

section \<open>References\<close>

lemma check_cell:
  assumes "ref_current cc row = Some (rv, present)"
  shows "check c rv present (if present then keyOf (rvRecord rv) else []) = None \<longleftrightarrow> cell_ok c keyOf (abs_ref cc row)"
  using assms by (cases present) (auto simp: check_def cell_ok_def abs_ref_def split: option.splits)

lemma abs_ref_written:
  "codec_ok (ref_codec cc) \<Longrightarrow> abs_ref cc (row_of_value (Marshal (ref_codec cc) rv, True) b) =
    (if IsTombstone rv then None else Some (rvRecord rv, rvVersion rv))"
  by (auto simp: abs_ref_def ref_current_def row_of_value_def DecodeRef_def codec_ok_def)

section \<open>The lease\<close>

lemma row_lease_written:
  "codec_ok (lease_codec cc) \<Longrightarrow> row_lease cc (row_of_value (Marshal (lease_codec cc) l, True) b) = l"
  by (simp add: row_lease_def row_of_value_def codec_ok_def)

lemma lease_step:
  assumes "codec_ok (lease_codec cc)" "event_fn cc ev row b = Inr vh" "lsHolder (row_lease cc row) = A" "A \<noteq> []"
    "E \<le> lsExpires (row_lease cc row)" "ev \<noteq> Release A" "\<And>t ttl. ev = Acquire A t ttl \<Longrightarrow> E \<le> t + ttl"
  shows "(lsHolder (row_lease cc (row_of_value vh b)) = A \<and> E \<le> lsExpires (row_lease cc (row_of_value vh b))) \<or>
    (\<exists>n t ttl. ev = Acquire n t ttl \<and> n \<noteq> A \<and> E \<le> t)"
  using assms
  by (cases ev) (auto simp: event_fn_def acquire_fn_def release_fn_def Let_def not_less row_lease_written split: if_splits)

lemma lease_kept:
  assumes "lease_run cc row evs row'" "codec_ok (lease_codec cc)" "A \<noteq> []"
    "lsHolder (row_lease cc row) = A" "E \<le> lsExpires (row_lease cc row)"
    "Release A \<notin> set evs" "\<And>t ttl. Acquire A t ttl \<in> set evs \<Longrightarrow> E \<le> t + ttl"
  shows "lsHolder (row_lease cc row') = A \<or> (\<exists>n t ttl. Acquire n t ttl \<in> set evs \<and> n \<noteq> A \<and> E \<le> t)"
  using assms
proof (induction rule: lease_run.induct)
  case (step ev row b vh evs row')
  from lease_step [OF step.prems(1) step.hyps(1) step.prems(3) step.prems(2) step.prems(4)] step.prems(5,6)
  consider "lsHolder (row_lease cc (row_of_value vh b)) = A" "E \<le> lsExpires (row_lease cc (row_of_value vh b))"
    | n t ttl where "ev = Acquire n t ttl" "n \<noteq> A" "E \<le> t" by fastforce
  then show ?case
  proof cases
    case 1
    from step.IH [OF step.prems(1,2) 1] step.prems(5,6)
    have "lsHolder (row_lease cc row') = A \<or> (\<exists>n t ttl. Acquire n t ttl \<in> set evs \<and> n \<noteq> A \<and> E \<le> t)" by simp
    then show ?thesis by (metis list.set_intros(2))
  next
    case 2
    then show ?thesis by auto
  qed
qed simp

section \<open>Properties\<close>

text \<open>
  C9: A reference put refines a compare-and-set cell. Seen as an optional pair of a record and
  its version, the register takes the record with the proposal's ballot as its version exactly
  when the condition holds of the current pair; otherwise nothing is written, and the put is
  reported as already done with the version found when the record is already there.
\<close>

theorem refput_refines:
  fixes keyOf
  assumes "cat_ok cc" "ref_current cc row \<noteq> None" "rec \<noteq> []"
  shows "(case refput_fn cc rec c keyOf row b :: ('e cat_err, bytes \<times> bool) res of
       Inr vh \<Rightarrow> Inr (abs_ref cc (row_of_value vh b))
     | Inl e \<Rightarrow> Inl (done_version e)) = cell_put rec c keyOf b (abs_ref cc row)"
proof -
  obtain rv present where cur: "ref_current cc row = Some (rv, present)" using assms(2) by auto
  have ok: "codec_ok (ref_codec cc)" using assms(1) by (simp add: cat_ok_def)
  have tomb: "present \<Longrightarrow> \<not> IsTombstone rv" using cur by (auto simp: ref_current_def split: if_splits)
  show ?thesis
  proof (cases "check c rv present (if present then keyOf (rvRecord rv) else [])")
    case None
    then show ?thesis using check_cell [OF cur, of c keyOf] assms(3)
      by (simp add: refput_fn_def cur cell_put_def abs_ref_written [OF ok] IsTombstone_def)
  next
    case (Some m)
    then have "\<not> cell_ok c keyOf (abs_ref cc row)" using check_cell [OF cur, of c keyOf] by simp
    with Some show ?thesis
      by (auto simp: refput_fn_def cur cell_put_def abs_ref_def done_version_def Let_def split: bool.splits)
  qed
qed

theorem refput_refines_witness:
  "(case refput_fn std_cat ''r'' example_cond id zero_Row (Ballot 5 zero_id) :: (unit cat_err, bytes \<times> bool) res of
       Inr vh \<Rightarrow> Inr (abs_ref std_cat (row_of_value vh (Ballot 5 zero_id)))
     | Inl e \<Rightarrow> Inl (done_version e)) = Inr (Some (''r'', Bytes (Ballot 5 zero_id)))"
  using refput_refines [OF std_cat_ok, where ?'e = unit and row = zero_Row and rec = "''r''" and c = example_cond
      and keyOf = id and b = "Ballot 5 zero_id"]
  by (simp add: ref_current_def zero_Row_def cell_put_def cell_ok_def example_cond_def abs_ref_def)

text \<open>
  C10: The maintenance lease is exclusive. In every run of the committed proposals on the lease
  register after a node acquired it at time t for ttl, as long as that node does not release it
  and does not shorten it, the lease stops being held by that node only through an acquire of
  another node whose clock has reached t + ttl.
\<close>

theorem lease_exclusive:
  assumes "cat_ok cc" "lease_run cc row (Acquire A t ttl # evs) row'" "A \<noteq> []" "Release A \<notin> set evs"
    "\<And>t' ttl'. Acquire A t' ttl' \<in> set evs \<Longrightarrow> t + ttl \<le> t' + ttl'"
    "lsHolder (row_lease cc row') \<noteq> A"
  shows "\<exists>n t' ttl'. Acquire n t' ttl' \<in> set evs \<and> n \<noteq> A \<and> t + ttl \<le> t'"
proof -
  have ok: "codec_ok (lease_codec cc)" using assms(1) by (simp add: cat_ok_def)
  from assms(2) obtain b vh where ev: "event_fn cc (Acquire A t ttl) row b = Inr vh"
    and run: "lease_run cc (row_of_value vh b) evs row'" by (auto elim: lease_run_ConsE)
  have "row_lease cc (row_of_value vh b) = \<lparr> lsHolder = A, lsExpires = t + ttl \<rparr>"
    using ev by (auto simp: event_fn_def acquire_fn_def Let_def row_lease_written [OF ok] split: if_splits)
  with lease_kept [OF run ok assms(3), of "t + ttl"] assms(4-6) show ?thesis by auto
qed

theorem lease_exclusive_witness:
  "\<exists>n t' ttl'. Acquire n t' ttl' \<in> set [Acquire ''b'' 20 5] \<and> n \<noteq> ''a'' \<and> 10 + 5 \<le> t'"
proof -
  let ?la = "(Marshal (lease_codec std_cat) \<lparr> lsHolder = ''a'', lsExpires = 15 \<rparr>, True)"
  let ?lb = "(Marshal (lease_codec std_cat) \<lparr> lsHolder = ''b'', lsExpires = 25 \<rparr>, True)"
  have ok: "codec_ok (lease_codec std_cat)" using std_cat_ok by (simp add: cat_ok_def)
  note [simp] = event_fn_def acquire_fn_def row_lease_written [OF ok]
  have "event_fn std_cat (Acquire ''a'' 10 5) zero_Row zero_ballot = Inr ?la"
    by (simp add: row_lease_def zero_Row_def zero_lease_def)
  moreover have "event_fn std_cat (Acquire ''b'' 20 5) (row_of_value ?la zero_ballot) zero_ballot = Inr ?lb" by simp
  ultimately have "lease_run std_cat zero_Row (Acquire ''a'' 10 5 # [Acquire ''b'' 20 5]) (row_of_value ?lb zero_ballot)"
    by (rule lease_run.step [OF _ lease_run.step [OF _ lease_run.none]])
  then show ?thesis by (rule lease_exclusive [OF std_cat_ok]) simp_all
qed

text \<open>
  C11: Views written one after the other are views that acceptors install. When a change of the
  view register is accepted for writing, the value decodes to a view one version up, at the next
  epoch exactly when the change asked for it, and an acceptor that had installed the view it was
  computed from takes it, provided that its disk accepts the write.
\<close>

theorem casview_installable:
  fixes fn :: "view \<Rightarrow> view \<times> ('e, bool) res"
  assumes "cat_ok cc" "roHasValue row" "Unmarshal (view_codec (base_codecs cc)) (roValue row) = Some v"
    "casview_fn cc fn row b = Inr (bs, hv)" "fn v = (nv, Inr bump)"
    "vIncarnation nv = vIncarnation v" "vEpoch nv = vEpoch v"
    "unat (vVersion v) < 2 ^ 64 - 1" "unat (vEpoch v) < 2 ^ 64 - 1" "aInstalled a = Some v" "write_ok e"
  shows "\<exists>w. Unmarshal (view_codec (base_codecs cc)) bs = Some w \<and> hv \<and> vVersion w = vVersion v + 1 \<and>
    vEpoch w = (if bump then vEpoch v + 1 else vEpoch v) \<and>
    aInstalled (snd (Install (base_codecs cc) e a w)) = Some w"
proof -
  let ?n = "nv\<lparr>vVersion := vVersion v + 1\<rparr>"
  let ?w = "if bump then ?n\<lparr>vEpoch := vEpoch v + 1\<rparr> else ?n"
  have ok: "codec_ok (view_codec (base_codecs cc))" using assms(1) by (simp add: cat_ok_def codecs_ok_def)
  have bs: "bs = Marshal (view_codec (base_codecs cc)) ?w \<and> hv"
    using assms(2-5) by (auto simp: casview_fn_def Let_def split: if_splits)
  have up: "vVersion v < vVersion v + 1" "vEpoch v < vEpoch v + 1"
    using assms(8,9) by (simp_all add: word_less_nat_alt unat_word_ariths)
  have "\<not> not_newer a ?w"
    using assms(6,7,10) up by (auto simp: not_newer_def Compare_def Let_def not_le)
  then have "aInstalled (snd (Install (base_codecs cc) e a ?w)) = Some ?w"
    using assms(11) by (simp add: Install_def Let_def)
  moreover have "vVersion ?w = vVersion v + 1" "vEpoch ?w = (if bump then vEpoch v + 1 else vEpoch v)"
    using assms(7) by simp_all
  moreover have "Unmarshal (view_codec (base_codecs cc)) bs = Some ?w" using bs ok by (simp add: codec_ok_def)
  ultimately show ?thesis using bs by blast
qed

theorem casview_installable_witness:
  "\<exists>w. vVersion w = vVersion example_view + 1 \<and> vEpoch w = 4 \<and>
    aInstalled (snd (Install (base_codecs std_cat) good_env voting_acceptor w)) = Some w"
proof -
  let ?fn = "\<lambda>v. (v, Inr True) :: view \<times> (unit, bool) res"
  let ?row = "row_of_value (Marshal (view_codec (base_codecs std_cat)) example_view, True) zero_ballot"
  have "codec_ok (view_codec (base_codecs std_cat))" using std_cat_ok by (simp add: cat_ok_def codecs_ok_def)
  then have dec: "Unmarshal (view_codec (base_codecs std_cat)) (roValue ?row) = Some example_view"
    by (simp add: codec_ok_def row_of_value_def)
  obtain bs hv where fn: "casview_fn std_cat ?fn ?row zero_ballot = Inr (bs, hv)"
    using dec by (simp add: casview_fn_def row_of_value_def)
  have "vEpoch example_view = 3" "unat (vVersion example_view) < 2 ^ 64 - 1" by (simp_all add: example_view_def)
  with casview_installable [OF std_cat_ok _ dec fn, of example_view True voting_acceptor good_env]
  show ?thesis by (auto simp: voting_fields row_of_value_def good_env_def)
qed

end
