(* ===== verification/Changes.thy ===== *)
theory Changes
  imports Prelude
begin

text \<open>
  Working copies, the pure part (\<^verbatim>\<open>worktree/change.go\<close>, \<^verbatim>\<open>worktree/merge.go\<close> and the path check of
  \<^verbatim>\<open>worktree/apply.go\<close>): how two entries differ, the differences between two trees, and which
  incoming changes can be applied over local ones. Directory objects are read through the
  operations of a \<open>tree_store\<close>, which stand for \<^verbatim>\<open>key.Parse\<close> and \<^verbatim>\<open>fstree.CollectEntries\<close> of the
  core library; trees have no bound on their depth, so the recursive functions take fuel.
\<close>

section \<open>Definitions\<close>

text \<open>The fields of \<^verbatim>\<open>fstree.Entry\<close> that the package uses; an absent byte string is empty.\<close>

record entry =
  eName :: bytes
  eMode :: u64
  eUID :: u64
  eGID :: u64
  eMtime :: int
  eContentKey :: bytes
  eLinkTarget :: bytes
  eRdev :: "u64 list"
  eXattrsIn :: bytes
  eXattrsKey :: bytes

record tree_store =
  tsParse :: "bytes \<Rightarrow> obj_key option"
  tsCollect :: "obj_key \<Rightarrow> entry list option"

datatype tree_err = Exhausted | ReadError | ParseError

subsection \<open>Kinds of changes\<close>

datatype Kind = Added | Deleted | Modified | TypeChanged | ModeChanged | MetaChanged

fun Kind_String :: "Kind \<Rightarrow> string" where
  "Kind_String Added = ''new''"
| "Kind_String Deleted = ''deleted''"
| "Kind_String Modified = ''modified''"
| "Kind_String TypeChanged = ''type''"
| "Kind_String ModeChanged = ''mode''"
| "Kind_String MetaChanged = ''meta''"

record change =
  chPath :: string
  chKind :: Kind
  chOld :: "entry option"
  chNew :: "entry option"

text \<open>The type bits of \<^verbatim>\<open>st_mode\<close> and the permission bits.\<close>

definition S_IFMT :: u64 where "S_IFMT = 0xF000"
definition S_IFSOCK :: u64 where "S_IFSOCK = 0xC000"
definition S_IFLNK :: u64 where "S_IFLNK = 0xA000"
definition S_IFREG :: u64 where "S_IFREG = 0x8000"
definition S_IFBLK :: u64 where "S_IFBLK = 0x6000"
definition S_IFDIR :: u64 where "S_IFDIR = 0x4000"
definition S_IFCHR :: u64 where "S_IFCHR = 0x2000"
definition S_IFIFO :: u64 where "S_IFIFO = 0x1000"

definition ftype :: "entry \<Rightarrow> u64" where
  "ftype e = and (eMode e) S_IFMT"

definition perm :: "entry \<Rightarrow> u64" where
  "perm e = and (eMode e) 0xFFF"

definition IsDir :: "entry option \<Rightarrow> bool" where
  "IsDir e = (case e of None \<Rightarrow> False | Some e \<Rightarrow> ftype e = S_IFDIR)"

text \<open>Octal digits; \<^verbatim>\<open>%#o\<close> puts a zero in front of a number that does not start with one.\<close>

fun octal :: "nat \<Rightarrow> string" where
  "octal n = (if n < 8 then [char_of (48 + n)] else octal (n div 8) @ [char_of (48 + n mod 8)])"

definition TypeName :: "u64 \<Rightarrow> string" where
  "TypeName mode =
    (let t = and mode S_IFMT
     in if t = S_IFREG then ''file''
        else if t = S_IFDIR then ''directory''
        else if t = S_IFLNK then ''symlink''
        else if t = S_IFIFO then ''fifo''
        else if t = S_IFSOCK then ''socket''
        else if t = S_IFCHR then ''char device''
        else if t = S_IFBLK then ''block device''
        else ''type '' @ (if t = 0 then ''0'' else ''0'' @ octal (unat t)))"

definition SameContent :: "entry \<Rightarrow> entry \<Rightarrow> bool" where
  "SameContent a b =
    (if ftype a = S_IFREG then eContentKey a = eContentKey b
     else if ftype a = S_IFLNK then eLinkTarget a = eLinkTarget b
     else if ftype a = S_IFCHR \<or> ftype a = S_IFBLK then eRdev a = eRdev b
     else True)"

definition Equivalent :: "entry \<Rightarrow> entry \<Rightarrow> bool" where
  "Equivalent a b \<longleftrightarrow> ftype a = ftype b \<and> SameContent a b \<and> perm a = perm b"

text \<open>\<open>None\<close>: the entries are identical.\<close>

definition Change_Compare :: "entry \<Rightarrow> entry \<Rightarrow> Kind option" where
  "Change_Compare x y =
    (if ftype x \<noteq> ftype y then Some TypeChanged
     else if \<not> SameContent x y then Some Modified
     else if perm x \<noteq> perm y then Some ModeChanged
     else if eUID x \<noteq> eUID y \<or> eGID x \<noteq> eGID y \<or> eMtime x \<noteq> eMtime y \<or>
       eXattrsIn x \<noteq> eXattrsIn y \<or> eXattrsKey x \<noteq> eXattrsKey y then Some MetaChanged
     else None)"

definition joinPath :: "string \<Rightarrow> string \<Rightarrow> string" where
  "joinPath pfx name = (if pfx = [] then name else pfx @ ''/'' @ name)"

subsection \<open>Differences of trees\<close>

fun res_bind :: "('e, 'a) res \<Rightarrow> ('a \<Rightarrow> ('e, 'b) res) \<Rightarrow> ('e, 'b) res" where
  "res_bind (Inl e) f = Inl e"
| "res_bind (Inr x) f = f x"

definition parse_key :: "tree_store \<Rightarrow> bytes \<Rightarrow> (tree_err, obj_key) res" where
  "parse_key st b = (case tsParse st b of None \<Rightarrow> Inl ParseError | Some k \<Rightarrow> Inr k)"

definition CollectEntries :: "tree_store \<Rightarrow> obj_key \<Rightarrow> (tree_err, entry list) res" where
  "CollectEntries st k = (case tsCollect st k of None \<Rightarrow> Inl ReadError | Some es \<Rightarrow> Inr es)"

text \<open>Run a step on every element and concatenate what the steps append.\<close>

fun res_concat :: "('a \<Rightarrow> ('e, 'b list) res) \<Rightarrow> 'a list \<Rightarrow> ('e, 'b list) res" where
  "res_concat f [] = Inr []"
| "res_concat f (x # xs) = res_bind (f x) (\<lambda>a. res_bind (res_concat f xs) (\<lambda>b. Inr (a @ b)))"

definition one_sided :: "string \<Rightarrow> entry \<Rightarrow> Kind \<Rightarrow> change" where
  "one_sided p e kind =
    \<lparr> chPath = p, chKind = kind, chOld = (if kind = Added then None else Some e),
      chNew = (if kind = Added then Some e else None) \<rparr>"

fun expand :: "nat \<Rightarrow> tree_store \<Rightarrow> string \<Rightarrow> entry \<Rightarrow> Kind \<Rightarrow> (tree_err, change list) res"
and expandChildren :: "nat \<Rightarrow> tree_store \<Rightarrow> string \<Rightarrow> entry \<Rightarrow> Kind \<Rightarrow> (tree_err, change list) res" where
  "expand n st pfx e kind =
    (let p = joinPath pfx (eName e)
     in res_bind (expandChildren n st p e kind) (\<lambda>cs. Inr (one_sided p e kind # cs)))"
| "expandChildren n st p e kind =
    (if \<not> IsDir (Some e) then Inr []
     else res_bind (parse_key st (eContentKey e)) (\<lambda>k.
          case n of
            0 \<Rightarrow> Inl Exhausted
          | Suc m \<Rightarrow> res_bind (CollectEntries st k) (\<lambda>entries. res_concat (\<lambda>e. expand m st p e kind) entries)))"

text \<open>
  The loop of \<^verbatim>\<open>diffDirs\<close> over the entries left on both sides; \<open>rec\<close> is the recursive call. An
  entry with the same name on both sides is handled by \<open>diff_both\<close>.
\<close>

definition diff_both :: "(string \<Rightarrow> obj_key \<Rightarrow> obj_key \<Rightarrow> (tree_err, change list) res) \<Rightarrow> nat \<Rightarrow> tree_store \<Rightarrow>
    string \<Rightarrow> entry \<Rightarrow> entry \<Rightarrow> (tree_err, change list) res" where
  "diff_both rec n st pfx x y =
    (let p = joinPath pfx (eName x)
     in res_bind
          (case Change_Compare x y of
             None \<Rightarrow> Inr []
           | Some k \<Rightarrow>
               res_bind
                 (if k = TypeChanged
                  then res_bind (expandChildren n st p x Deleted) (\<lambda>ds.
                       res_bind (expandChildren n st p y Added) (\<lambda>as. Inr (ds @ as)))
                  else Inr [])
                 (\<lambda>below. Inr (\<lparr> chPath = p, chKind = k, chOld = Some x, chNew = Some y \<rparr> # below)))
          (\<lambda>own. res_bind
             (if IsDir (Some x) \<and> IsDir (Some y) \<and> eContentKey x \<noteq> eContentKey y
              then res_bind (parse_key st (eContentKey x)) (\<lambda>kx.
                   res_bind (parse_key st (eContentKey y)) (\<lambda>ky. rec p kx ky))
              else Inr [])
             (\<lambda>below. Inr (own @ below))))"

fun diff_merge :: "(string \<Rightarrow> obj_key \<Rightarrow> obj_key \<Rightarrow> (tree_err, change list) res) \<Rightarrow> nat \<Rightarrow> tree_store \<Rightarrow>
    string \<Rightarrow> entry list \<Rightarrow> entry list \<Rightarrow> (tree_err, change list) res" where
  "diff_merge rec n st pfx [] [] = Inr []"
| "diff_merge rec n st pfx (x # ea) [] =
    res_bind (expand n st pfx x Deleted) (\<lambda>a. res_bind (diff_merge rec n st pfx ea []) (\<lambda>b. Inr (a @ b)))"
| "diff_merge rec n st pfx [] (y # eb) =
    res_bind (expand n st pfx y Added) (\<lambda>a. res_bind (diff_merge rec n st pfx [] eb) (\<lambda>b. Inr (a @ b)))"
| "diff_merge rec n st pfx (x # ea) (y # eb) =
    (if eName x < eName y
     then res_bind (expand n st pfx x Deleted) (\<lambda>a. res_bind (diff_merge rec n st pfx ea (y # eb)) (\<lambda>b. Inr (a @ b)))
     else if eName y < eName x
     then res_bind (expand n st pfx y Added) (\<lambda>a. res_bind (diff_merge rec n st pfx (x # ea) eb) (\<lambda>b. Inr (a @ b)))
     else res_bind (diff_both rec n st pfx x y) (\<lambda>a. res_bind (diff_merge rec n st pfx ea eb) (\<lambda>b. Inr (a @ b))))"

fun diffDirs :: "nat \<Rightarrow> tree_store \<Rightarrow> string \<Rightarrow> obj_key \<Rightarrow> obj_key \<Rightarrow> (tree_err, change list) res" where
  "diffDirs 0 st pfx a b = Inl Exhausted"
| "diffDirs (Suc n) st pfx a b =
    res_bind (CollectEntries st a) (\<lambda>ea.
    res_bind (CollectEntries st b) (\<lambda>eb. diff_merge (diffDirs n st) n st pfx ea eb))"

definition DiffTrees :: "nat \<Rightarrow> tree_store \<Rightarrow> obj_key \<Rightarrow> obj_key \<Rightarrow> (tree_err, change list) res" where
  "DiffTrees n st a b = (if a = b then Inr [] else diffDirs n st [] a b)"

subsection \<open>Merging changes\<close>

record conflict =
  cfPath :: string
  cfLocal :: change
  cfIncoming :: change

text \<open>\<^verbatim>\<open>strings.LastIndexByte\<close> and \<^verbatim>\<open>sort.SearchStrings\<close>.\<close>

fun LastIndexByte :: "string \<Rightarrow> char \<Rightarrow> int" where
  "LastIndexByte [] c = - 1"
| "LastIndexByte (x # xs) c =
    (let i = LastIndexByte xs c in if i \<ge> 0 then i + 1 else if x = c then 0 else - 1)"

definition SearchStrings :: "string list \<Rightarrow> string \<Rightarrow> nat" where
  "SearchStrings a x = length (takeWhile (\<lambda>s. s < x) a)"

lemma LastIndexByte_less: "LastIndexByte p c < int (length p)"
  by (induction p) (auto simp: Let_def)

lemma LastIndexByte_take: "0 < i \<Longrightarrow> LastIndexByte (take (nat i) p) c < i"
  using LastIndexByte_less [of "take (nat i) p" c] by simp

text \<open>The map a Go loop builds: a later change of the same path replaces an earlier one.\<close>

definition byPath :: "change list \<Rightarrow> string \<rightharpoonup> change" where
  "byPath local = map_of (rev (map (\<lambda>c. (chPath c, c)) local))"

definition gone :: "change \<Rightarrow> bool" where
  "gone l \<longleftrightarrow> chKind l = Deleted \<or> chKind l = TypeChanged \<and> IsDir (chOld l)"

function gone_loop :: "change list \<Rightarrow> string \<Rightarrow> int \<Rightarrow> change option" where
  "gone_loop local p i =
    (if i > 0 then
       let above = take (nat i) p
       in case byPath local above of
            Some l \<Rightarrow> if gone l then Some l else gone_loop local p (LastIndexByte above CHR ''/'')
          | None \<Rightarrow> gone_loop local p (LastIndexByte above CHR ''/'')
     else None)"
  by auto
termination
  by (relation "measure (\<lambda>(local, p, i). nat i)") (auto simp: LastIndexByte_take)

definition goneAbove :: "change list \<Rightarrow> string \<Rightarrow> change option" where
  "goneAbove local p = gone_loop local p (LastIndexByte p CHR ''/'')"

definition firstBelow :: "change list \<Rightarrow> string \<Rightarrow> change option" where
  "firstBelow local p =
    (let paths = sort (map chPath local);
         i = SearchStrings paths (p @ ''/'')
     in if i < length paths \<and> take (length p + 1) (paths ! i) = p @ ''/'' then byPath local (paths ! i) else None)"

datatype decision = TakeIt | Drop | Refuse change

text \<open>A local change of a kind other than \<open>Deleted\<close> has a new side.\<close>

definition decide :: "change list \<Rightarrow> change \<Rightarrow> decision" where
  "decide local inc =
    (case byPath local (chPath inc) of
       Some l \<Rightarrow>
         if chKind l = MetaChanged then TakeIt
         else if chKind l = Deleted \<and> chKind inc = Deleted then Drop
         else if chKind l = Deleted \<or> chKind inc = Deleted then Refuse l
         else if Equivalent (the (chNew l)) (the (chNew inc)) then TakeIt
         else Refuse l
     | None \<Rightarrow>
         (case goneAbove local (chPath inc) of
            Some l \<Rightarrow> if chKind inc \<noteq> Deleted then Refuse l else Drop
          | None \<Rightarrow>
              if chKind inc = TypeChanged \<and> IsDir (chOld inc)
              then (case firstBelow local (chPath inc) of Some l \<Rightarrow> Refuse l | None \<Rightarrow> TakeIt)
              else TakeIt))"

fun Merge :: "change list \<Rightarrow> change list \<Rightarrow> change list \<times> conflict list" where
  "Merge local [] = ([], [])"
| "Merge local (inc # incoming) =
    (let (apply', conflicts) = Merge local incoming
     in case decide local inc of
          TakeIt \<Rightarrow> (inc # apply', conflicts)
        | Drop \<Rightarrow> (apply', conflicts)
        | Refuse l \<Rightarrow> (apply', \<lparr> cfPath = chPath inc, cfLocal = l, cfIncoming = inc \<rparr> # conflicts))"

subsection \<open>Paths\<close>

text \<open>\<^verbatim>\<open>strings.Split\<close> at a slash.\<close>

fun split_slash :: "string \<Rightarrow> string list" where
  "split_slash [] = [[]]"
| "split_slash (c # cs) =
    (if c = CHR ''/'' then [] # split_slash cs
     else case split_slash cs of [] \<Rightarrow> [[c]] | w # ws \<Rightarrow> (c # w) # ws)"

definition checkPath :: "string \<Rightarrow> bool" where
  "checkPath p \<longleftrightarrow> p \<noteq> [] \<and> (\<forall>part \<in> set (split_slash p). part \<noteq> [] \<and> part \<noteq> ''.'' \<and> part \<noteq> ''..'')"

end
