(* ===== verification/Changes_Props.thy ===== *)
theory Changes_Props
  imports Changes
begin

text \<open>
  Correctness of tree differences and of the merge: \<^verbatim>\<open>DiffTrees\<close> lists exactly the paths at which
  two trees differ, each with the kind of its difference, and a merge applies the changes that leave
  local work alone, with the exception that a local change at the path of the incoming one can mask
  changes around it.
\<close>

section \<open>Definitions\<close>

text \<open>The entry at a path, by walking down the components.\<close>

definition child_entries :: "tree_store \<Rightarrow> entry \<Rightarrow> entry list option" where
  "child_entries st e = (if IsDir (Some e) then Option.bind (tsParse st (eContentKey e)) (tsCollect st) else None)"

fun look :: "tree_store \<Rightarrow> entry list \<Rightarrow> string list \<Rightarrow> entry option" where
  "look st es [] = None"
| "look st es (c # cs) =
    (case List.find (\<lambda>e. eName e = c) es of
       None \<Rightarrow> None
     | Some e \<Rightarrow> if cs = [] then Some e
         else (case child_entries st e of None \<Rightarrow> None | Some es' \<Rightarrow> look st es' cs))"

definition tree_at :: "tree_store \<Rightarrow> obj_key \<Rightarrow> string \<Rightarrow> entry option" where
  "tree_at st k p = (case tsCollect st k of None \<Rightarrow> None | Some es \<Rightarrow> look st es (split_slash p))"

text \<open>How the two sides of a path differ.\<close>

definition diff_kind :: "entry option \<Rightarrow> entry option \<Rightarrow> Kind option" where
  "diff_kind x y =
    (case (x, y) of
       (None, None) \<Rightarrow> None
     | (None, Some _) \<Rightarrow> Some Added
     | (Some _, None) \<Rightarrow> Some Deleted
     | (Some x, Some y) \<Rightarrow> Change_Compare x y)"

text \<open>Stored trees: directories parse and read, names are sorted, not empty and without slash.\<close>

definition name_ok :: "string \<Rightarrow> bool" where
  "name_ok c \<longleftrightarrow> c \<noteq> [] \<and> CHR ''/'' \<notin> set c"

fun wf_entries :: "nat \<Rightarrow> tree_store \<Rightarrow> entry list \<Rightarrow> bool" where
  "wf_entries 0 st es \<longleftrightarrow> sorted_wrt (<) (map eName es) \<and> (\<forall>e \<in> set es. name_ok (eName e) \<and> \<not> IsDir (Some e))"
| "wf_entries (Suc n) st es \<longleftrightarrow> sorted_wrt (<) (map eName es) \<and> (\<forall>e \<in> set es. name_ok (eName e) \<and>
    (IsDir (Some e) \<longrightarrow> (case child_entries st e of None \<Rightarrow> False | Some es' \<Rightarrow> wf_entries n st es')))"

definition wf_tree :: "nat \<Rightarrow> tree_store \<Rightarrow> obj_key \<Rightarrow> bool" where
  "wf_tree n st k = (case tsCollect st k of None \<Rightarrow> False | Some es \<Rightarrow> 0 < n \<and> wf_entries (n - 1) st es)"

definition path_of :: "string \<Rightarrow> string list \<Rightarrow> string" where
  "path_of pfx cs = foldl joinPath pfx cs"

text \<open>What is at and below one entry.\<close>

definition look1 :: "tree_store \<Rightarrow> entry option \<Rightarrow> string list \<Rightarrow> entry option" where
  "look1 st e cs =
    (case e of
       None \<Rightarrow> None
     | Some e \<Rightarrow> if cs = [] then Some e else (case child_entries st e of None \<Rightarrow> None | Some es \<Rightarrow> look st es cs))"

text \<open>The changes between two assignments of entries to paths below \<open>p\<close>, and between two directories.\<close>

definition delta :: "string \<Rightarrow> (string list \<Rightarrow> entry option) \<Rightarrow> (string list \<Rightarrow> entry option) \<Rightarrow> change set" where
  "delta p f g = {c. \<exists>cs. chPath c = path_of p cs \<and> chOld c = f cs \<and> chNew c = g cs \<and>
     diff_kind (f cs) (g cs) = Some (chKind c)}"

definition dir_delta :: "tree_store \<Rightarrow> string \<Rightarrow> entry list \<Rightarrow> entry list \<Rightarrow> change set" where
  "dir_delta st pfx ea eb =
    (\<Union>c. delta (joinPath pfx c) (\<lambda>cs. look st ea (c # cs)) (\<lambda>cs. look st eb (c # cs)))"

definition dir_ok :: "nat \<Rightarrow> tree_store \<Rightarrow> entry \<Rightarrow> bool" where
  "dir_ok n st e \<longleftrightarrow> (IsDir (Some e) \<longrightarrow> (\<exists>m es. n = Suc m \<and> child_entries st e = Some es \<and> wf_entries m st es))"

text \<open>The same when everything is on the old side or everything is on the new side.\<close>

definition delta_side :: "Kind \<Rightarrow> string \<Rightarrow> (string list \<Rightarrow> entry option) \<Rightarrow> change set" where
  "delta_side K p f = (if K = Added then delta p (\<lambda>_. None) f else delta p f (\<lambda>_. None))"

definition side_dir :: "Kind \<Rightarrow> tree_store \<Rightarrow> string \<Rightarrow> entry list \<Rightarrow> change set" where
  "side_dir K st p es = (if K = Added then dir_delta st p [] es else dir_delta st p es [])"

definition below :: "Kind \<Rightarrow> tree_store \<Rightarrow> string \<Rightarrow> entry \<Rightarrow> change set" where
  "below K st p e = (case child_entries st e of None \<Rightarrow> {} | Some es \<Rightarrow> side_dir K st p es)"

definition kids :: "tree_store \<Rightarrow> entry \<Rightarrow> entry list" where
  "kids st e = (case child_entries st e of None \<Rightarrow> [] | Some es \<Rightarrow> es)"

text \<open>
  A path strictly below another. The documented rules of a merge: a local change at the path is
  compatible with an incoming one if it changes metadata only or is the same edit; an incoming
  change clobbers local work around its path if it lies in a directory that is gone locally or
  retypes a directory with local changes below it; it is safe if it clobbers nothing and what is
  at its path is compatible. A compatible change at the path masks a clobbering one.
\<close>

definition under :: "string \<Rightarrow> string \<Rightarrow> bool" where
  "under p q \<longleftrightarrow> take (length p + 1) q = p @ ''/''"

definition compatible :: "change \<Rightarrow> change \<Rightarrow> bool" where
  "compatible l inc \<longleftrightarrow> chKind l = MetaChanged \<or>
    chKind l \<noteq> Deleted \<and> chKind inc \<noteq> Deleted \<and> Equivalent (the (chNew l)) (the (chNew inc))"

definition clobbers :: "change list \<Rightarrow> change \<Rightarrow> bool" where
  "clobbers local inc \<longleftrightarrow>
    (\<exists>l \<in> set local. (chKind l = Deleted \<or> chKind l = TypeChanged \<and> IsDir (chOld l)) \<and> under (chPath l) (chPath inc)) \<or>
    chKind inc = TypeChanged \<and> IsDir (chOld inc) \<and> (\<exists>l \<in> set local. under (chPath inc) (chPath l))"

definition safe :: "change list \<Rightarrow> change \<Rightarrow> bool" where
  "safe local inc \<longleftrightarrow> \<not> clobbers local inc \<and> (\<forall>l \<in> set local. chPath l = chPath inc \<longrightarrow> compatible l inc)"

definition masked :: "change list \<Rightarrow> change \<Rightarrow> bool" where
  "masked local inc \<longleftrightarrow> clobbers local inc \<and> (\<exists>l \<in> set local. chPath l = chPath inc \<and> compatible l inc)"

text \<open>When the code applies an incoming change.\<close>

definition applies :: "change list \<Rightarrow> change \<Rightarrow> bool" where
  "applies local inc \<longleftrightarrow>
    (if \<exists>l \<in> set local. chPath l = chPath inc
     then (\<forall>l \<in> set local. chPath l = chPath inc \<longrightarrow> chKind l = MetaChanged \<or>
            chKind l \<noteq> Deleted \<and> chKind inc \<noteq> Deleted \<and> Equivalent (the (chNew l)) (the (chNew inc)))
     else \<not> (\<exists>l \<in> set local. gone l \<and> under (chPath l) (chPath inc)) \<and>
          \<not> (chKind inc = TypeChanged \<and> IsDir (chOld inc) \<and> (\<exists>l \<in> set local. under (chPath inc) (chPath l))))"

text \<open>A deletion of something that is deleted already.\<close>

definition already_gone :: "change list \<Rightarrow> change \<Rightarrow> bool" where
  "already_gone local inc \<longleftrightarrow> chKind inc = Deleted \<and>
    (if \<exists>l \<in> set local. chPath l = chPath inc
     then \<exists>l \<in> set local. chPath l = chPath inc \<and> chKind l = Deleted
     else \<exists>l \<in> set local. gone l \<and> under (chPath l) (chPath inc))"

text \<open>Examples: a tree with a file, and one with a directory in its place.\<close>

definition example_file :: "string \<Rightarrow> entry" where
  "example_file name = \<lparr> eName = name, eMode = 0x81A4, eUID = 0, eGID = 0, eMtime = 0, eContentKey = ''F'',
     eLinkTarget = [], eRdev = [], eXattrsIn = [], eXattrsKey = [] \<rparr>"

definition example_dir :: "int \<Rightarrow> entry" where
  "example_dir t = (example_file ''d'')\<lparr> eMode := 0x41ED, eMtime := t, eContentKey := ''S'' \<rparr>"

definition example_store :: tree_store where
  "example_store = \<lparr> tsParse = (\<lambda>b. if length b = 1 then Some b else None),
     tsCollect = (\<lambda>k. if k = ''A'' then Some [example_file ''d'', example_file ''e'']
       else if k = ''B'' then Some [example_dir 0] else if k = ''S'' then Some [example_file ''f''] else None) \<rparr>"

definition example_local :: change where
  "example_local = \<lparr> chPath = ''d/new'', chKind = Added, chOld = None, chNew = Some (example_file ''new'') \<rparr>"

definition example_touched :: change where
  "example_touched = \<lparr> chPath = ''d'', chKind = MetaChanged, chOld = Some (example_dir 0), chNew = Some (example_dir 1) \<rparr>"

definition example_retype :: change where
  "example_retype = \<lparr> chPath = ''d'', chKind = TypeChanged, chOld = Some (example_dir 0), chNew = Some (example_file ''d'') \<rparr>"

section \<open>Paths\<close>

lemma path_of_simps [simp]: "path_of pfx [] = pfx" "path_of pfx (c # cs) = path_of (joinPath pfx c) cs"
  by (simp_all add: path_of_def)

lemma split_slash_not_Nil [simp]: "split_slash p \<noteq> []"
  by (induction p) (auto split: list.splits)

lemma split_slash_append: "CHR ''/'' \<notin> set c \<Longrightarrow> split_slash (c @ CHR ''/'' # q) = c # split_slash q"
  by (induction c) (auto split: list.splits)

lemma split_slash_name: "CHR ''/'' \<notin> set c \<Longrightarrow> split_slash c = [c]"
  by (induction c) auto

lemma unsplit_slash: "concat (map (\<lambda>w. w @ ''/'') (split_slash p)) = p @ ''/''"
  by (induction p) (auto split: list.splits)

lemma split_slash_inj: "split_slash p = split_slash q \<Longrightarrow> p = q"
  by (metis append_same_eq unsplit_slash)

lemma path_of_not_Nil: "p \<noteq> [] \<Longrightarrow> path_of p cs \<noteq> []"
  by (induction cs rule: rev_induct) (simp_all add: path_of_def joinPath_def)

lemma path_of_prefix: "c \<noteq> [] \<Longrightarrow> d \<noteq> [] \<Longrightarrow> path_of c (d # cs) = c @ CHR ''/'' # path_of d cs"
proof (induction cs rule: rev_induct)
  case Nil
  then show ?case by (simp add: joinPath_def)
next
  case (snoc e cs)
  with path_of_not_Nil [of d cs] show ?case by (simp add: path_of_def joinPath_def)
qed

lemma split_path_of: "cs \<noteq> [] \<Longrightarrow> \<forall>c \<in> set cs. name_ok c \<Longrightarrow> split_slash (path_of [] cs) = cs"
proof (induction cs)
  case (Cons c cs)
  show ?case
  proof (cases cs)
    case Nil
    with Cons show ?thesis by (simp add: joinPath_def name_ok_def split_slash_name)
  next
    case (Cons d ds)
    have "path_of [] (c # cs) = c @ CHR ''/'' # path_of [] cs"
      using path_of_prefix [of c d ds] Cons.prems Cons by (simp add: joinPath_def name_ok_def)
    with Cons.IH Cons.prems Cons show ?thesis by (simp add: split_slash_append name_ok_def)
  qed
qed simp

section \<open>Looking up entries\<close>

lemma look_Cons: "look st (e # es) (c # cs) = (if c = eName e then look1 st (Some e) cs else look st es (c # cs))"
  by (simp add: look1_def)

lemma look_absent: "c \<notin> eName ` set es \<Longrightarrow> look st es (c # cs) = None"
proof (induction es)
  case (Cons e es)
  then show ?case by (subst look_Cons) auto
qed simp

declare look.simps(2) [simp del]

lemma look_Nil [simp]: "look st [] cs = None"
  by (cases cs) (simp_all add: look_absent)

lemma look1_simps [simp]: "look1 st None cs = None" "look1 st (Some e) [] = Some e"
  by (simp_all add: look1_def)

lemma Compare_refl [simp]: "Change_Compare x x = None"
  by (simp add: Change_Compare_def SameContent_def)

lemma diff_kind_same [simp]: "diff_kind x x = None"
  by (simp add: diff_kind_def split: option.splits)

lemma delta_same [simp]: "delta p f f = {}"
  by (simp add: delta_def)

lemma dir_delta_same [simp]: "dir_delta st pfx es es = {}"
  by (simp add: dir_delta_def)

lemma UN_point:
  assumes "\<And>n. n \<noteq> m \<Longrightarrow> F n = G n" "G m = {}"
  shows "(\<Union>n. F n) = F m \<union> (\<Union>n. G n)"
proof (intro equalityI subsetI)
  fix x assume "x \<in> (\<Union>n. F n)"
  then obtain n where "x \<in> F n" by blast
  then show "x \<in> F m \<union> (\<Union>n. G n)" using assms(1) by (cases "n = m") auto
next
  fix x assume "x \<in> F m \<union> (\<Union>n. G n)"
  then show "x \<in> (\<Union>n. F n)"
  proof
    assume "x \<in> (\<Union>n. G n)"
    then obtain n where "x \<in> G n" by blast
    then show ?thesis using assms by (cases "n = m") auto
  qed auto
qed

lemma dir_delta_point:
  assumes "\<And>cs. look st ea (m # cs) = None" "\<And>cs. look st eb (m # cs) = None"
    "\<And>n cs. n \<noteq> m \<Longrightarrow> look st ea' (n # cs) = look st ea (n # cs)"
    "\<And>n cs. n \<noteq> m \<Longrightarrow> look st eb' (n # cs) = look st eb (n # cs)"
  shows "dir_delta st pfx ea' eb' =
    delta (joinPath pfx m) (\<lambda>cs. look st ea' (m # cs)) (\<lambda>cs. look st eb' (m # cs)) \<union> dir_delta st pfx ea eb"
  unfolding dir_delta_def by (rule UN_point) (simp_all add: assms)

lemma dir_delta_both:
  assumes "eName x = eName y" "eName x \<notin> eName ` set ea" "eName y \<notin> eName ` set eb"
  shows "dir_delta st pfx (x # ea) (y # eb) =
    delta (joinPath pfx (eName x)) (look1 st (Some x)) (look1 st (Some y)) \<union> dir_delta st pfx ea eb"
  using assms by (subst dir_delta_point [where m = "eName x" and ea = ea and eb = eb]) (simp_all add: look_Cons look_absent)

lemma dir_delta_left:
  assumes "eName x \<notin> eName ` set ea" "eName x \<notin> eName ` set eb"
  shows "dir_delta st pfx (x # ea) eb =
    delta (joinPath pfx (eName x)) (look1 st (Some x)) (\<lambda>_. None) \<union> dir_delta st pfx ea eb"
  using assms by (subst dir_delta_point [where m = "eName x" and ea = ea and eb = eb]) (simp_all add: look_Cons look_absent)

lemma dir_delta_right:
  assumes "eName y \<notin> eName ` set ea" "eName y \<notin> eName ` set eb"
  shows "dir_delta st pfx ea (y # eb) =
    delta (joinPath pfx (eName y)) (\<lambda>_. None) (look1 st (Some y)) \<union> dir_delta st pfx ea eb"
  using assms by (subst dir_delta_point [where m = "eName y" and ea = ea and eb = eb]) (simp_all add: look_Cons look_absent)

text \<open>One entry: its own change and the changes below it.\<close>

lemma delta_below:
  "delta p f g =
    {c. chPath c = p \<and> chOld c = f [] \<and> chNew c = g [] \<and> diff_kind (f []) (g []) = Some (chKind c)} \<union>
    (\<Union>c. delta (joinPath p c) (\<lambda>cs. f (c # cs)) (\<lambda>cs. g (c # cs)))"
  (is "?l = ?a \<union> ?b")
proof (intro equalityI subsetI)
  fix c assume "c \<in> ?l"
  then obtain cs where "chPath c = path_of p cs" "chOld c = f cs" "chNew c = g cs"
    "diff_kind (f cs) (g cs) = Some (chKind c)" by (auto simp: delta_def)
  then show "c \<in> ?a \<union> ?b" by (cases cs) (auto simp: delta_def)
next
  fix c assume "c \<in> ?a \<union> ?b"
  then show "c \<in> ?l"
  proof
    assume "c \<in> ?a"
    then show ?thesis by (auto simp: delta_def intro: exI [of _ "[]"])
  next
    assume "c \<in> ?b"
    then obtain d cs where "chPath c = path_of (joinPath p d) cs" "chOld c = f (d # cs)" "chNew c = g (d # cs)"
      "diff_kind (f (d # cs)) (g (d # cs)) = Some (chKind c)" by (auto simp: delta_def)
    then show ?thesis by (auto simp: delta_def intro!: exI [of _ "d # cs"])
  qed
qed

section \<open>Expanding one side\<close>

declare expand.simps [simp del] expandChildren.simps [simp del]

lemma wf_entries_iff:
  "wf_entries n st es \<longleftrightarrow> sorted_wrt (<) (map eName es) \<and> (\<forall>e \<in> set es. name_ok (eName e) \<and> dir_ok n st e)"
  by (cases n) (auto simp: dir_ok_def split: option.splits)

lemma side_look1:
  assumes "K = Added \<or> K = Deleted"
  shows "delta_side K p (look1 st (Some e)) = insert (one_sided p e K) (below K st p e)"
proof -
  have "look1 st (Some e) (c # cs) = (case child_entries st e of None \<Rightarrow> None | Some es \<Rightarrow> look st es (c # cs))" for c cs
    by (simp add: look1_def)
  moreover have "{c. chPath c = p \<and> chOld c = None \<and> chNew c = Some e \<and> Added = chKind c} = {one_sided p e Added}"
    "{c. chPath c = p \<and> chOld c = Some e \<and> chNew c = None \<and> Deleted = chKind c} = {one_sided p e Deleted}"
    by (auto simp: one_sided_def)
  ultimately show ?thesis using assms
    by (subst delta_side_def, subst (1 2) delta_below)
      (auto simp: below_def side_dir_def dir_delta_def diff_kind_def split: option.splits)
qed

lemma side_dir_Cons:
  "eName e \<notin> eName ` set es \<Longrightarrow> side_dir K st p (e # es) =
    delta_side K (joinPath p (eName e)) (look1 st (Some e)) \<union> side_dir K st p es"
  by (simp add: side_dir_def delta_side_def dir_delta_left dir_delta_right)

lemma sorted_name_notin: "sorted_wrt (<) (map eName (e # es)) \<Longrightarrow> eName e \<notin> eName ` set es"
  by auto

lemma expand_list_exact:
  assumes "\<And>p e. dir_ok n st e \<Longrightarrow> \<exists>cs. expandChildren n st p e K = Inr cs \<and> set cs = below K st p e"
    "wf_entries n st es" "K = Added \<or> K = Deleted"
  shows "\<exists>cs. res_concat (\<lambda>e. expand n st p e K) es = Inr cs \<and> set cs = side_dir K st p es"
  using assms(2)
proof (induction es)
  case Nil
  then show ?case by (simp add: side_dir_def dir_delta_def)
next
  case (Cons e es)
  then have wf: "wf_entries n st es" "dir_ok n st e" and new: "eName e \<notin> eName ` set es"
    by (auto simp: wf_entries_iff)
  obtain a where a: "expandChildren n st (joinPath p (eName e)) e K = Inr a" "set a = below K st (joinPath p (eName e)) e"
    using assms(1) [OF wf(2)] by blast
  obtain b where b: "res_concat (\<lambda>e. expand n st p e K) es = Inr b" "set b = side_dir K st p es"
    using Cons.IH [OF wf(1)] by blast
  show ?case using a b by (simp add: expand.simps Let_def side_dir_Cons [OF new] side_look1 [OF assms(3)])
qed

lemma expandChildren_exact:
  assumes "dir_ok n st e" "K = Added \<or> K = Deleted"
  shows "\<exists>cs. expandChildren n st p e K = Inr cs \<and> set cs = below K st p e"
  using assms(1)
proof (induction n arbitrary: p e)
  case 0
  then show ?case by (simp add: dir_ok_def expandChildren.simps below_def child_entries_def)
next
  case (Suc n)
  show ?case
  proof (cases "IsDir (Some e)")
    case True
    with Suc.prems obtain es where es: "child_entries st e = Some es" "wf_entries n st es" by (auto simp: dir_ok_def)
    then obtain k where "tsParse st (eContentKey e) = Some k" "tsCollect st k = Some es"
      by (auto simp: child_entries_def True bind_eq_Some_conv)
    moreover obtain cs where "res_concat (\<lambda>e. expand n st p e K) es = Inr cs" "set cs = side_dir K st p es"
      using expand_list_exact [OF Suc.IH es(2) assms(2)] by blast
    ultimately show ?thesis using True es
      by (simp add: expandChildren.simps parse_key_def CollectEntries_def below_def)
  next
    case False
    then show ?thesis by (simp add: expandChildren.simps below_def child_entries_def)
  qed
qed

lemma expand_exact:
  assumes "dir_ok n st e" "K = Added \<or> K = Deleted"
  shows "\<exists>cs. expand n st pfx e K = Inr cs \<and> set cs = delta_side K (joinPath pfx (eName e)) (look1 st (Some e))"
  using expandChildren_exact [OF assms, of "joinPath pfx (eName e)"]
  by (auto simp: expand.simps Let_def side_look1 [OF assms(2)])

section \<open>Both sides\<close>

lemma look1_kids: "look1 st (Some e) (c # cs) = look st (kids st e) (c # cs)"
  by (simp add: look1_def kids_def split: option.splits)

lemma kids_file [simp]: "\<not> IsDir (Some e) \<Longrightarrow> kids st e = []"
  by (simp add: kids_def child_entries_def)

lemma below_kids: "below K st p e = side_dir K st p (kids st e)"
  by (simp add: below_def kids_def side_dir_def split: option.splits)

lemma delta_look1:
  "delta p (look1 st (Some x)) (look1 st (Some y)) =
    (case Change_Compare x y of None \<Rightarrow> {} | Some k \<Rightarrow> {\<lparr> chPath = p, chKind = k, chOld = Some x, chNew = Some y \<rparr>}) \<union>
    dir_delta st p (kids st x) (kids st y)"
  by (subst delta_below) (auto simp: look1_kids dir_delta_def diff_kind_def split: option.splits)

lemma Compare_type: "Change_Compare x y = Some TypeChanged \<longleftrightarrow> ftype x \<noteq> ftype y"
  by (simp add: Change_Compare_def)

lemma diff_both_retyped:
  assumes "dir_ok n st x" "dir_ok n st y" "ftype x \<noteq> ftype y"
  shows "\<exists>cs. diff_both rec n st pfx x y = Inr cs \<and>
    set cs = delta (joinPath pfx (eName x)) (look1 st (Some x)) (look1 st (Some y))"
proof -
  let ?p = "joinPath pfx (eName x)"
  obtain ds where ds: "expandChildren n st ?p x Deleted = Inr ds" "set ds = dir_delta st ?p (kids st x) []"
    using expandChildren_exact [OF assms(1), of Deleted ?p] by (auto simp: below_kids side_dir_def)
  obtain as where as: "expandChildren n st ?p y Added = Inr as" "set as = dir_delta st ?p [] (kids st y)"
    using expandChildren_exact [OF assms(2), of Added ?p] by (auto simp: below_kids side_dir_def)
  have one: "\<not> IsDir (Some x) \<or> \<not> IsDir (Some y)" using assms(3) by (auto simp: IsDir_def)
  then have "set ds \<union> set as = dir_delta st ?p (kids st x) (kids st y)" using ds as by auto
  moreover have "Change_Compare x y = Some TypeChanged" using assms(3) by (simp add: Compare_type)
  ultimately show ?thesis using one ds(1) as(1) by (auto simp: diff_both_def delta_look1 Let_def)
qed

lemma diff_below_exact:
  assumes "dir_ok n st x" "dir_ok n st y" "IsDir (Some x) = IsDir (Some y)"
    "\<And>kx ky m ex ey. n = Suc m \<Longrightarrow> tsCollect st kx = Some ex \<Longrightarrow> tsCollect st ky = Some ey \<Longrightarrow>
       wf_entries m st ex \<Longrightarrow> wf_entries m st ey \<Longrightarrow> \<exists>cs. rec kx ky = Inr cs \<and> set cs = dir_delta st p ex ey"
  shows "\<exists>cs. (if IsDir (Some x) \<and> IsDir (Some y) \<and> eContentKey x \<noteq> eContentKey y
      then res_bind (parse_key st (eContentKey x)) (\<lambda>kx. res_bind (parse_key st (eContentKey y)) (\<lambda>ky. rec kx ky))
      else Inr []) = Inr cs \<and> set cs = dir_delta st p (kids st x) (kids st y)"
proof (cases "IsDir (Some x) \<and> eContentKey x \<noteq> eContentKey y")
  case True
  with assms(1-3) obtain m ex ey where m: "n = Suc m" "child_entries st x = Some ex" "wf_entries m st ex"
    "child_entries st y = Some ey" "wf_entries m st ey" unfolding dir_ok_def by auto
  then obtain kx ky where k: "tsParse st (eContentKey x) = Some kx" "tsCollect st kx = Some ex"
    "tsParse st (eContentKey y) = Some ky" "tsCollect st ky = Some ey"
    by (auto simp: child_entries_def bind_eq_Some_conv split: if_splits)
  with assms(4) [OF m(1) k(2,4) m(3,5)] True assms(3) m show ?thesis by (auto simp: parse_key_def kids_def)
next
  case False
  then have "kids st x = kids st y" using assms(3) by (auto simp: kids_def child_entries_def)
  with False show ?thesis by auto
qed

lemma diff_both_exact:
  assumes "dir_ok n st x" "dir_ok n st y"
    "\<And>p kx ky m ex ey. n = Suc m \<Longrightarrow> tsCollect st kx = Some ex \<Longrightarrow> tsCollect st ky = Some ey \<Longrightarrow>
       wf_entries m st ex \<Longrightarrow> wf_entries m st ey \<Longrightarrow> \<exists>cs. rec p kx ky = Inr cs \<and> set cs = dir_delta st p ex ey"
  shows "\<exists>cs. diff_both rec n st pfx x y = Inr cs \<and>
    set cs = delta (joinPath pfx (eName x)) (look1 st (Some x)) (look1 st (Some y))"
proof (cases "ftype x = ftype y")
  case False
  then show ?thesis by (rule diff_both_retyped [OF assms(1,2)])
next
  case True
  let ?p = "joinPath pfx (eName x)"
  let ?own = "case Change_Compare x y of None \<Rightarrow> []
    | Some k \<Rightarrow> [\<lparr> chPath = ?p, chKind = k, chOld = Some x, chNew = Some y \<rparr>]"
  have dirs: "IsDir (Some x) = IsDir (Some y)" using True by (simp add: IsDir_def)
  let ?sub = "if IsDir (Some x) \<and> IsDir (Some y) \<and> eContentKey x \<noteq> eContentKey y
      then res_bind (parse_key st (eContentKey x)) (\<lambda>kx. res_bind (parse_key st (eContentKey y)) (\<lambda>ky. rec ?p kx ky))
      else Inr []"
  have "\<exists>cs. ?sub = Inr cs \<and> set cs = dir_delta st ?p (kids st x) (kids st y)"
    by (rule diff_below_exact [OF assms(1,2) dirs]) (rule assms(3))
  then obtain cs where cs: "?sub = Inr cs" "set cs = dir_delta st ?p (kids st x) (kids st y)" by blast
  have "Change_Compare x y \<noteq> Some TypeChanged" using True by (simp add: Compare_type)
  with cs(1) have "diff_both rec n st pfx x y = Inr (?own @ cs)"
    by (auto simp: diff_both_def Let_def split: option.splits)
  then show ?thesis using cs(2) by (auto simp: delta_look1 split: option.splits)
qed

lemma res_bind_append:
  assumes "\<exists>a. x = Inr a \<and> set a = A" "\<exists>b. y = Inr b \<and> set b = B"
  shows "\<exists>cs. res_bind x (\<lambda>a. res_bind y (\<lambda>b. Inr (a @ b))) = Inr cs \<and> set cs = A \<union> B"
  using assms by auto

lemma wf_entries_Cons:
  "wf_entries n st (e # es) \<Longrightarrow> wf_entries n st es \<and> dir_ok n st e \<and> eName e \<notin> eName ` set es \<and> (\<forall>x \<in> set es. eName e < eName x)"
  by (auto simp: wf_entries_iff)

lemma merge_left:
  assumes "dir_ok n st x" "eName x \<notin> eName ` set ea" "eName x \<notin> eName ` set eb"
    "\<exists>cs. R = Inr cs \<and> set cs = dir_delta st pfx ea eb"
  shows "\<exists>cs. res_bind (expand n st pfx x Deleted) (\<lambda>a. res_bind R (\<lambda>b. Inr (a @ b))) = Inr cs \<and>
    set cs = dir_delta st pfx (x # ea) eb"
  using res_bind_append [OF expand_exact [OF assms(1), of Deleted pfx] assms(4)]
  by (simp add: delta_side_def dir_delta_left [OF assms(2,3)])

lemma merge_right:
  assumes "dir_ok n st y" "eName y \<notin> eName ` set ea" "eName y \<notin> eName ` set eb"
    "\<exists>cs. R = Inr cs \<and> set cs = dir_delta st pfx ea eb"
  shows "\<exists>cs. res_bind (expand n st pfx y Added) (\<lambda>a. res_bind R (\<lambda>b. Inr (a @ b))) = Inr cs \<and>
    set cs = dir_delta st pfx ea (y # eb)"
  using res_bind_append [OF expand_exact [OF assms(1), of Added pfx] assms(4)]
  by (simp add: delta_side_def dir_delta_right [OF assms(2,3)])

lemma name_below: "a < eName e \<Longrightarrow> \<forall>x \<in> set es. eName e < eName x \<Longrightarrow> a \<notin> eName ` set (e # es)"
  by (auto dest: less_trans)

lemma diff_merge_exact:
  assumes "\<And>p kx ky m ex ey. n = Suc m \<Longrightarrow> tsCollect st kx = Some ex \<Longrightarrow> tsCollect st ky = Some ey \<Longrightarrow>
       wf_entries m st ex \<Longrightarrow> wf_entries m st ey \<Longrightarrow> \<exists>cs. rec p kx ky = Inr cs \<and> set cs = dir_delta st p ex ey"
    "wf_entries n st ea" "wf_entries n st eb"
  shows "\<exists>cs. diff_merge rec n st pfx ea eb = Inr cs \<and> set cs = dir_delta st pfx ea eb"
  using assms
proof (induction rec n st pfx ea eb rule: diff_merge.induct)
  case (1 rec n st pfx)
  then show ?case by simp
next
  case (2 rec n st pfx x ea)
  note w = wf_entries_Cons [OF 2(3)]
  show ?case unfolding diff_merge.simps using w 2(4) by (intro merge_left 2(1) [OF 2(2)]) auto
next
  case (3 rec n st pfx y eb)
  note w = wf_entries_Cons [OF 3(4)]
  show ?case unfolding diff_merge.simps using w 3(3) by (intro merge_right 3(1) [OF 3(2)]) auto
next
  case (4 rec n st pfx x ea y eb)
  note wx = wf_entries_Cons [OF 4(5)] and wy = wf_entries_Cons [OF 4(6)]
  consider "eName x < eName y" | "eName y < eName x" | "eName x = eName y" by (meson linorder_neqE)
  then show ?case
  proof cases
    case 1
    have "\<exists>cs. diff_merge rec n st pfx ea (y # eb) = Inr cs \<and> set cs = dir_delta st pfx ea (y # eb)"
      using wx 4(6) by (intro 4(1) [OF 1 4(4)]) auto
    then have "\<exists>cs. res_bind (expand n st pfx x Deleted) (\<lambda>a. res_bind (diff_merge rec n st pfx ea (y # eb)) (\<lambda>b. Inr (a @ b))) =
        Inr cs \<and> set cs = dir_delta st pfx (x # ea) (y # eb)"
      using wx name_below [OF 1] wy by (intro merge_left) auto
    with 1 show ?thesis by simp
  next
    case 2
    then have less: "\<not> eName x < eName y" by simp
    have "\<exists>cs. diff_merge rec n st pfx (x # ea) eb = Inr cs \<and> set cs = dir_delta st pfx (x # ea) eb"
      using wy 4(5) by (intro 4(2) [OF less 2 4(4)]) auto
    then have "\<exists>cs. res_bind (expand n st pfx y Added) (\<lambda>a. res_bind (diff_merge rec n st pfx (x # ea) eb) (\<lambda>b. Inr (a @ b))) =
        Inr cs \<and> set cs = dir_delta st pfx (x # ea) (y # eb)"
      using wy name_below [OF 2] wx by (intro merge_right) auto
    with 2 less show ?thesis by simp
  next
    case 3
    then have less: "\<not> eName x < eName y" "\<not> eName y < eName x" by simp_all
    have "\<exists>cs. diff_merge rec n st pfx ea eb = Inr cs \<and> set cs = dir_delta st pfx ea eb"
      using wx wy by (intro 4(3) [OF less 4(4)]) auto
    moreover have "\<exists>cs. diff_both rec n st pfx x y = Inr cs \<and>
        set cs = delta (joinPath pfx (eName x)) (look1 st (Some x)) (look1 st (Some y))"
      using wx wy by (intro diff_both_exact 4(4)) auto
    ultimately show ?thesis using less 3 wx wy by (auto simp: dir_delta_both)
  qed
qed

lemma diffDirs_exact:
  assumes "tsCollect st a = Some ea" "tsCollect st b = Some eb" "wf_entries n st ea" "wf_entries n st eb"
  shows "\<exists>cs. diffDirs (Suc n) st pfx a b = Inr cs \<and> set cs = dir_delta st pfx ea eb"
  using assms
proof (induction n arbitrary: pfx a b ea eb)
  case 0
  then show ?case using diff_merge_exact [where n = 0 and rec = "diffDirs 0 st"] by (simp add: CollectEntries_def)
next
  case (Suc n)
  have "\<exists>cs. diff_merge (diffDirs (Suc n) st) (Suc n) st pfx ea eb = Inr cs \<and> set cs = dir_delta st pfx ea eb"
    using Suc.prems(3,4) by (intro diff_merge_exact) (use Suc.IH in auto)
  then show ?case using Suc.prems(1,2) by (subst diffDirs.simps(2)) (simp add: CollectEntries_def)
qed

lemma look_names: "look st es cs \<noteq> None \<Longrightarrow> wf_entries n st es \<Longrightarrow> cs \<noteq> [] \<and> (\<forall>c \<in> set cs. name_ok c)"
proof (induction st es cs arbitrary: n rule: look.induct)
  case (2 st es c cs)
  from 2(2) obtain e where e: "List.find (\<lambda>e. eName e = c) es = Some e" by (auto simp: look.simps split: option.splits)
  then have mem: "e \<in> set es" "eName e = c" by (auto simp: find_Some_iff)
  then have ok: "name_ok c" "dir_ok n st e" using 2(3) by (auto simp: wf_entries_iff)
  show ?case
  proof (cases "cs = []")
    case False
    with 2(2) e obtain es' where es': "child_entries st e = Some es'" "look st es' cs \<noteq> None"
      by (auto simp: look.simps split: option.splits)
    then have "IsDir (Some e)" by (simp add: child_entries_def split: if_splits)
    with ok(2) es'(1) obtain m where "wf_entries m st es'" by (auto simp: dir_ok_def)
    with 2(1) [OF e False es'(1) es'(2)] ok(1) show ?thesis by simp
  qed (simp add: ok)
qed simp

lemma dir_delta_root:
  assumes "wf_entries n st ea" "wf_entries n st eb"
  shows "dir_delta st [] ea eb = {c. diff_kind (look st ea (split_slash (chPath c))) (look st eb (split_slash (chPath c))) = Some (chKind c) \<and>
    chOld c = look st ea (split_slash (chPath c)) \<and> chNew c = look st eb (split_slash (chPath c))}"
  (is "?l = ?r")
proof (intro equalityI subsetI)
  have named: "cs \<noteq> [] \<and> (\<forall>c \<in> set cs. name_ok c)" if "diff_kind (look st ea cs) (look st eb cs) \<noteq> None" for cs
    using that look_names [OF _ assms(1)] look_names [OF _ assms(2)] by (cases "look st ea cs"; cases "look st eb cs") auto
  {
    fix c assume "c \<in> ?l"
    then obtain d cs where cs: "chPath c = path_of [] (d # cs)" "chOld c = look st ea (d # cs)" "chNew c = look st eb (d # cs)"
      "diff_kind (look st ea (d # cs)) (look st eb (d # cs)) = Some (chKind c)" by (auto simp: dir_delta_def delta_def)
    then have "split_slash (chPath c) = d # cs" using named [of "d # cs"] split_path_of [of "d # cs"] by simp
    with cs show "c \<in> ?r" by simp
  next
    fix c assume c: "c \<in> ?r"
    obtain d cs where cs: "split_slash (chPath c) = d # cs" by (cases "split_slash (chPath c)") auto
    with c named [of "d # cs"] split_path_of [of "d # cs"] have "split_slash (path_of [] (d # cs)) = split_slash (chPath c)" by simp
    then have "chPath c = path_of (joinPath [] d) cs" by (auto dest: split_slash_inj)
    with c cs show "c \<in> ?l" by (auto simp: dir_delta_def delta_def)
  }
qed

lemma DiffTrees_set:
  assumes "wf_tree n st a" "wf_tree n st b"
  shows "\<exists>out. DiffTrees n st a b = Inr out \<and>
    set out = {c. diff_kind (tree_at st a (chPath c)) (tree_at st b (chPath c)) = Some (chKind c) \<and>
      chOld c = tree_at st a (chPath c) \<and> chNew c = tree_at st b (chPath c)}"
proof (cases "a = b")
  case False
  from assms obtain ea eb m where e: "tsCollect st a = Some ea" "tsCollect st b = Some eb" "n = Suc m"
    "wf_entries m st ea" "wf_entries m st eb" by (cases n) (auto simp: wf_tree_def split: option.splits)
  with diffDirs_exact [OF e(1,2,4,5), of "[]"] False show ?thesis
    by (simp add: DiffTrees_def tree_at_def dir_delta_root [OF e(4,5)])
qed (simp add: DiffTrees_def)

lemma DiffTrees_members:
  assumes "wf_tree n st a" "wf_tree n st b" "DiffTrees n st a b = Inr out" "c \<in> set out"
  shows "diff_kind (chOld c) (chNew c) = Some (chKind c)"
  using DiffTrees_set [OF assms(1,2)] assms(3,4) by auto

section \<open>Merging\<close>

lemma LastIndexByte_spec:
  "(LastIndexByte q c < 0 \<longrightarrow> c \<notin> set q) \<and> (0 \<le> LastIndexByte q c \<longrightarrow> q ! nat (LastIndexByte q c) = c) \<and>
    (\<forall>j < length q. LastIndexByte q c < int j \<longrightarrow> q ! j \<noteq> c)"
proof (induction q)
  case (Cons x q)
  have "(x # q) ! j \<noteq> c" if "j < length (x # q)" "LastIndexByte (x # q) c < int j" for j
    using that Cons by (cases j) (auto simp: Let_def nth_Cons split: if_splits)
  with Cons show ?case by (auto simp: Let_def nat_add_distrib split: if_splits)
qed simp

lemma byPath_Some: "distinct (map chPath local) \<Longrightarrow> byPath local p = Some l \<longleftrightarrow> l \<in> set local \<and> chPath l = p"
  unfolding byPath_def by (subst map_of_eq_Some_iff) (auto simp: rev_map [symmetric] o_def)

lemma byPath_None: "byPath local p = None \<longleftrightarrow> (\<forall>l \<in> set local. chPath l \<noteq> p)"
  by (force simp: byPath_def map_of_eq_None_iff)

lemma gone_loop_Some: "gone_loop local p i = Some l \<Longrightarrow> gone l"
  by (induction local p i rule: gone_loop.induct) (auto simp: Let_def split: if_splits option.splits)

declare gone_loop.simps [simp del]

lemma slash_before:
  assumes "0 < i" "i < int (length p)" "k = LastIndexByte (take (nat i) p) CHR ''/''"
  shows "(0 < j \<and> int j < i \<and> p ! j = CHR ''/'') = (0 < j \<and> int j \<le> k \<and> (int j = k \<or> p ! j = CHR ''/''))"
proof -
  let ?q = "take (nat i) p"
  note spec = LastIndexByte_spec [of ?q "CHR ''/''"]
  have len: "length ?q = nat i" using assms by simp
  have k: "k < i" using LastIndexByte_take [OF assms(1), of p "CHR ''/''"] assms(3) by simp
  show ?thesis
  proof
    assume j: "0 < j \<and> int j < i \<and> p ! j = CHR ''/''"
    then have "j < length ?q" "?q ! j = CHR ''/''" using len by auto
    then have "int j \<le> k" using spec assms(3) by (meson not_le)
    with j show "0 < j \<and> int j \<le> k \<and> (int j = k \<or> p ! j = CHR ''/'')" by simp
  next
    assume j: "0 < j \<and> int j \<le> k \<and> (int j = k \<or> p ! j = CHR ''/'')"
    then have lt: "int j < i" using k by linarith
    have "p ! j = CHR ''/''" if "int j = k"
    proof -
      have "?q ! j = CHR ''/''" using spec that assms(3) by (metis nat_int of_nat_0_le_iff)
      then show ?thesis using lt by simp
    qed
    with j lt show "0 < j \<and> int j < i \<and> p ! j = CHR ''/''" by blast
  qed
qed

lemma gone_loop_None:
  assumes "i < int (length p)"
  shows "gone_loop local p i = None \<longleftrightarrow>
    (\<forall>j l. (0 < j \<and> int j \<le> i \<and> (int j = i \<or> p ! j = CHR ''/'')) \<and> byPath local (take j p) = Some l \<longrightarrow> \<not> gone l)"
  using assms
proof (induction local p i rule: gone_loop.induct)
  case (1 local p i)
  show ?case
  proof (cases "0 < i")
    case False
    then show ?thesis by (subst gone_loop.simps) auto
  next
    case True
    let ?q = "take (nat i) p"
    let ?k = "LastIndexByte ?q CHR ''/''"
    have k: "?k < int (length p)" using LastIndexByte_take [OF True, of p "CHR ''/''"] 1(3) by simp
    note pos = slash_before [OF True 1(3) refl]
    have all: "(\<forall>j l. (0 < j \<and> int j \<le> i \<and> (int j = i \<or> p ! j = CHR ''/'')) \<and> byPath local (take j p) = Some l \<longrightarrow> \<not> gone l)
      \<longleftrightarrow> (\<forall>l. byPath local ?q = Some l \<longrightarrow> \<not> gone l) \<and>
          (\<forall>j l. (0 < j \<and> int j < i \<and> p ! j = CHR ''/'') \<and> byPath local (take j p) = Some l \<longrightarrow> \<not> gone l)" (is "?l = ?r")
    proof
      assume l: ?l
      then have "\<forall>l. byPath local ?q = Some l \<longrightarrow> \<not> gone l" using True by (auto dest: spec [of _ "nat i"])
      with l show ?r by (meson less_imp_le)
    next
      assume ?r
      then show ?l by (auto simp: le_less)
    qed
    show ?thesis
    proof (cases "\<exists>l. byPath local ?q = Some l \<and> gone l")
      case found: True
      then have "gone_loop local p i \<noteq> None" using True by (subst gone_loop.simps) auto
      with found all show ?thesis by auto
    next
      case False
      then have eq: "gone_loop local p i = gone_loop local p ?k"
        using True by (subst gone_loop.simps) (auto simp: Let_def split: option.splits)
      have "gone_loop local p ?k = None \<longleftrightarrow>
        (\<forall>j l. (0 < j \<and> int j \<le> ?k \<and> (int j = ?k \<or> p ! j = CHR ''/'')) \<and> byPath local (take j p) = Some l \<longrightarrow> \<not> gone l)"
        using False 1(1,2) True k by (cases "byPath local ?q") auto
      with eq all pos False show ?thesis by simp
    qed
  qed
qed

lemma under_iff: "under q p \<longleftrightarrow> (\<exists>j < length p. q = take j p \<and> p ! j = CHR ''/'')"
proof
  assume "under q p"
  then have len: "length q < length p" and eq: "take (length q + 1) p = q @ ''/''"
    by (auto simp: under_def dest: arg_cong [where f = length])
  have "take (length q + 1) p = take (length q) p @ [p ! length q]" using len by (simp add: take_Suc_conv_app_nth)
  with eq len show "\<exists>j < length p. q = take j p \<and> p ! j = CHR ''/''" by (intro exI [of _ "length q"]) auto
next
  assume "\<exists>j < length p. q = take j p \<and> p ! j = CHR ''/''"
  then show "under q p" by (auto simp: under_def take_Suc_conv_app_nth)
qed

lemma goneAbove_None:
  assumes "distinct (map chPath local)" "\<forall>l \<in> set local. chPath l \<noteq> []"
  shows "goneAbove local p = None \<longleftrightarrow> (\<forall>l \<in> set local. under (chPath l) p \<longrightarrow> \<not> gone l)"
proof -
  have "(0 < j \<and> int j \<le> LastIndexByte p CHR ''/'' \<and> (int j = LastIndexByte p CHR ''/'' \<or> p ! j = CHR ''/'')) =
      (0 < j \<and> j < length p \<and> p ! j = CHR ''/'')" for j
    using LastIndexByte_spec [of p "CHR ''/''"] LastIndexByte_less [of p "CHR ''/''"]
    by (metis linorder_not_le nat_int of_nat_0_le_iff of_nat_less_iff order_le_less_trans)
  then have "goneAbove local p = None \<longleftrightarrow>
      (\<forall>j l. (0 < j \<and> j < length p \<and> p ! j = CHR ''/'') \<and> byPath local (take j p) = Some l \<longrightarrow> \<not> gone l)"
    by (simp add: goneAbove_def gone_loop_None LastIndexByte_less)
  also have "\<dots> \<longleftrightarrow> (\<forall>l \<in> set local. under (chPath l) p \<longrightarrow> \<not> gone l)"
    using assms by (auto simp: byPath_Some [OF assms(1)] under_iff) (metis gr0I take_0)
  finally show ?thesis .
qed

lemma sandwich_prefix: "x \<le> y \<Longrightarrow> y \<le> x @ r \<Longrightarrow> take (length x) y = (x :: string)"
proof (induction x arbitrary: y)
  case (Cons a x)
  then obtain b y' where y: "y = b # y'" by (cases y) auto
  with Cons.prems have "a = b" "x \<le> y'" "y' \<le> x @ r" by auto
  with Cons.IH y show ?case by simp
qed simp

lemma le_append: "x \<le> x @ (r :: string)"
  by (induction x) auto

lemma firstBelow_None:
  "firstBelow local p = None \<longleftrightarrow> (\<forall>l \<in> set local. \<not> under p (chPath l))"
proof -
  let ?paths = "sort (map chPath local)"
  let ?x = "p @ ''/''"
  let ?i = "SearchStrings ?paths ?x"
  have mem: "byPath local (?paths ! ?i) \<noteq> None" if "?i < length ?paths"
  proof -
    have "?paths ! ?i \<in> set ?paths" using that by (rule nth_mem)
    then show ?thesis by (auto simp: byPath_None)
  qed
  have "?i < length ?paths \<and> under p (?paths ! ?i)" if l: "l \<in> set local" "under p (chPath l)" for l
  proof -
    from l(2) obtain r where r: "chPath l = ?x @ r" by (metis append_take_drop_id under_def)
    have "chPath l \<in> set ?paths" using l(1) by simp
    then obtain k where k: "k < length ?paths" "?paths ! k = chPath l" by (meson in_set_conv_nth)
    have "\<not> ?paths ! k < ?x" using k r le_append [of ?x r] by auto
    then have le: "?i \<le> k" unfolding SearchStrings_def
      using k(1) by (metis linorder_not_less nth_mem set_takeWhileD takeWhile_nth)
    then have "?paths ! ?i \<le> ?x @ r" using k r by (metis sorted_nth_mono sorted_sort)
    moreover have "?x \<le> ?paths ! ?i" using le k(1) nth_length_takeWhile [of "\<lambda>s. s < ?x" ?paths]
      by (auto simp: SearchStrings_def)
    ultimately show ?thesis using sandwich_prefix [of ?x "?paths ! ?i" r] le k(1) by (auto simp: under_def)
  qed
  moreover have "\<exists>l \<in> set local. under p (chPath l)" if "?i < length ?paths" "under p (?paths ! ?i)"
    using mem [OF that(1)] that(2) by (metis byPath_None)
  ultimately show ?thesis using mem by (auto simp: firstBelow_def Let_def under_def)
qed

lemma decide_None:
  assumes "distinct (map chPath local)" "\<forall>l \<in> set local. chPath l \<noteq> []" "byPath local (chPath inc) = None"
  shows "decide local inc = TakeIt \<longleftrightarrow> applies local inc" "decide local inc = Drop \<longleftrightarrow> already_gone local inc"
proof -
  have abs: "\<forall>l \<in> set local. chPath l \<noteq> chPath inc" using assms(3) by (simp add: byPath_None)
  have g: "goneAbove local (chPath inc) = None \<longleftrightarrow> (\<forall>l \<in> set local. under (chPath l) (chPath inc) \<longrightarrow> \<not> gone l)"
    by (rule goneAbove_None [OF assms(1,2)])
  note f = firstBelow_None [of local "chPath inc"]
  show "decide local inc = TakeIt \<longleftrightarrow> applies local inc"
    using assms(3) abs f g by (auto simp: decide_def applies_def split: option.splits)
  show "decide local inc = Drop \<longleftrightarrow> already_gone local inc"
    using assms(3) abs f g by (auto simp: decide_def already_gone_def split: option.splits)
qed

lemma decide_Some:
  assumes "distinct (map chPath local)" "byPath local (chPath inc) = Some l"
  shows "decide local inc = TakeIt \<longleftrightarrow> applies local inc" "decide local inc = Drop \<longleftrightarrow> already_gone local inc"
proof -
  have l: "l \<in> set local" "chPath l = chPath inc" using assms by (auto simp: byPath_Some [OF assms(1)])
  have uniq: "l' = l" if "l' \<in> set local" "chPath l' = chPath inc" for l'
    using assms(1) l that by (simp add: distinct_map inj_on_def)
  have here: "\<exists>l' \<in> set local. chPath l' = chPath inc" using l by blast
  have all: "(\<forall>l' \<in> set local. chPath l' = chPath inc \<longrightarrow> P l') = P l" for P using l uniq by blast
  have some: "(\<exists>l' \<in> set local. chPath l' = chPath inc \<and> P l') = P l" for P using l uniq by blast
  show "decide local inc = TakeIt \<longleftrightarrow> applies local inc"
    unfolding applies_def if_P [OF here] all by (simp add: decide_def assms(2))
  show "decide local inc = Drop \<longleftrightarrow> already_gone local inc"
    unfolding already_gone_def if_P [OF here] some by (auto simp: decide_def assms(2))
qed

lemma decide_iff:
  assumes "distinct (map chPath local)" "\<forall>l \<in> set local. chPath l \<noteq> []"
  shows "decide local inc = TakeIt \<longleftrightarrow> applies local inc" "decide local inc = Drop \<longleftrightarrow> already_gone local inc"
  using decide_None [OF assms] decide_Some [OF assms(1)] by (cases "byPath local (chPath inc)"; simp)+

lemma applies_safe:
  assumes "distinct (map chPath local)"
  shows "applies local inc \<longleftrightarrow> safe local inc \<or> masked local inc"
proof (cases "\<exists>l \<in> set local. chPath l = chPath inc")
  case True
  then obtain l where l: "l \<in> set local" "chPath l = chPath inc" by blast
  have uniq: "l' = l" if "l' \<in> set local" "chPath l' = chPath inc" for l'
    using assms l that by (simp add: distinct_map inj_on_def)
  have all: "(\<forall>l' \<in> set local. chPath l' = chPath inc \<longrightarrow> P l') = P l" for P using l uniq by blast
  have some: "(\<exists>l' \<in> set local. chPath l' = chPath inc \<and> P l') = P l" for P using l uniq by blast
  have "applies local inc \<longleftrightarrow> compatible l inc"
    unfolding applies_def if_P [OF True] compatible_def all ..
  moreover have "safe local inc \<longleftrightarrow> \<not> clobbers local inc \<and> compatible l inc"
    "masked local inc \<longleftrightarrow> clobbers local inc \<and> compatible l inc"
    unfolding safe_def masked_def all some by (rule refl)+
  ultimately show ?thesis by blast
next
  case False
  then have "safe local inc \<longleftrightarrow> \<not> clobbers local inc" "\<not> masked local inc"
    unfolding safe_def masked_def by blast+
  moreover have "applies local inc \<longleftrightarrow> \<not> clobbers local inc"
    unfolding applies_def if_not_P [OF False] clobbers_def gone_def by simp
  ultimately show ?thesis by blast
qed

lemma Merge_decide:
  "inc \<in> set (fst (Merge local incoming)) \<longleftrightarrow> inc \<in> set incoming \<and> decide local inc = TakeIt"
  "inc \<in> cfIncoming ` set (snd (Merge local incoming)) \<longleftrightarrow>
    inc \<in> set incoming \<and> decide local inc \<noteq> TakeIt \<and> decide local inc \<noteq> Drop"
  by (induction incoming) (auto simp: split_beta split: decision.splits)

section \<open>Examples\<close>

lemma wf_example: "wf_tree 2 example_store ''A''" "wf_tree 2 example_store ''B''"
  by code_simp+

section \<open>Properties\<close>

text \<open>
  C14: Tree differences are exact. For trees that can be read, whose directories list sorted valid
  names and whose depth is within the fuel, the changes that \<^verbatim>\<open>DiffTrees\<close> returns are exactly the
  paths at which the entries found by walking the two trees differ, with the kind of the
  difference and both entries; subtrees with equal keys are skipped without missing a change.
\<close>

theorem DiffTrees_exact:
  assumes "wf_tree n st a" "wf_tree n st b"
  shows "\<exists>out. DiffTrees n st a b = Inr out \<and>
    set out = {c. diff_kind (tree_at st a (chPath c)) (tree_at st b (chPath c)) = Some (chKind c) \<and>
      chOld c = tree_at st a (chPath c) \<and> chNew c = tree_at st b (chPath c)}"
  by (rule DiffTrees_set [OF assms])

theorem DiffTrees_exact_witness:
  "\<exists>out. DiffTrees 2 example_store ''A'' ''B'' = Inr out \<and>
    set out = {c. diff_kind (tree_at example_store ''A'' (chPath c)) (tree_at example_store ''B'' (chPath c)) = Some (chKind c) \<and>
      chOld c = tree_at example_store ''A'' (chPath c) \<and> chNew c = tree_at example_store ''B'' (chPath c)}"
  using DiffTrees_exact [OF wf_example] .

text \<open>
  C33: Changes are well formed: the changes of a difference of trees lack the old entry exactly when
  they are additions and the new one exactly when they are deletions, so the entries that a merge
  of two such differences compares and applies are there.
\<close>

theorem DiffTrees_typed:
  assumes "wf_tree n st a" "wf_tree n st b" "DiffTrees n st a b = Inr out" "c \<in> set out"
  shows "(chOld c = None \<longleftrightarrow> chKind c = Added) \<and> (chNew c = None \<longleftrightarrow> chKind c = Deleted)"
proof -
  have "Change_Compare x y \<noteq> Some Added" "Change_Compare x y \<noteq> Some Deleted" for x y by (simp_all add: Change_Compare_def)
  then show ?thesis using DiffTrees_members [OF assms]
    by (auto simp: diff_kind_def split: option.splits)
qed

theorem DiffTrees_typed_witness:
  "\<exists>out. DiffTrees 2 example_store ''A'' ''B'' = Inr out \<and> length out = 3 \<and>
    list_all (\<lambda>c. (chOld c = None) = (chKind c = Added)) out"
proof -
  have "(case DiffTrees 2 example_store ''A'' ''B'' of Inl _ \<Rightarrow> False | Inr out \<Rightarrow> length out = 3)" by code_simp
  then obtain out where out: "DiffTrees 2 example_store ''A'' ''B'' = Inr out" "length out = 3" by (auto split: sum.splits)
  then show ?thesis using DiffTrees_typed [OF wf_example out(1)] by (auto simp: list_all_iff)
qed

text \<open>
  C15: A merge applies exactly the incoming changes that are safe by the documented rules or that a
  local change at their path masks: a change is safe when what was changed locally at its path is
  metadata only or the same edit, no directory above it was deleted or retyped locally, and it does
  not retype a directory over local changes below it; it is masked when it fails the last two
  conditions although a metadata-only or same edit is at its path. Of the others, those that delete
  what is already gone are dropped and every other one is reported as a conflict.
\<close>

theorem Merge_exact:
  assumes "distinct (map chPath local)" "\<forall>l \<in> set local. chPath l \<noteq> []"
  shows "(inc \<in> set (fst (Merge local incoming)) \<longleftrightarrow> inc \<in> set incoming \<and> (safe local inc \<or> masked local inc)) \<and>
    (inc \<in> cfIncoming ` set (snd (Merge local incoming)) \<longleftrightarrow>
      inc \<in> set incoming \<and> \<not> safe local inc \<and> \<not> masked local inc \<and> \<not> already_gone local inc)"
  by (simp add: Merge_decide decide_iff [OF assms] applies_safe [OF assms(1)])

theorem Merge_exact_witness:
  "example_retype \<in> cfIncoming ` set (snd (Merge [example_local] [example_retype])) \<and>
    example_retype \<notin> set (fst (Merge [example_local] [example_retype]))"
proof -
  have "\<not> safe [example_local] example_retype" "\<not> masked [example_local] example_retype"
    "\<not> already_gone [example_local] example_retype" by code_simp+
  with Merge_exact [of "[example_local]" example_retype "[example_retype]"] show ?thesis by (simp add: example_local_def)
qed

text \<open>
  C37: A metadata change hides the work below it. An incoming change of a directory into something
  else, over local changes below that directory, is a conflict when nothing else was changed
  locally at the directory itself; but it is applied without a conflict as soon as the metadata of
  the directory changed as well, as its modification time does when a file is added in it.
\<close>

theorem Merge_retype_hidden:
  assumes "distinct (map chPath local)" "\<forall>c \<in> set local. chPath c \<noteq> []"
    and "l \<in> set local" "chPath l = chPath inc" "chKind l = MetaChanged"
    and "w \<in> set local" "under (chPath inc) (chPath w)"
    and "inc \<in> set incoming" "chKind inc = TypeChanged" "IsDir (chOld inc)"
  shows "inc \<in> set (fst (Merge local incoming)) \<and> inc \<notin> cfIncoming ` set (snd (Merge local incoming)) \<and>
    inc \<in> cfIncoming ` set (snd (Merge (removeAll l local) incoming)) \<and>
    inc \<notin> set (fst (Merge (removeAll l local) incoming))"
proof -
  have uniq: "c = l" if "c \<in> set local" "chPath c = chPath inc" for c
    using assms(1,3,4) that by (simp add: distinct_map inj_on_def)
  have d: "distinct (map chPath (removeAll l local))" "\<forall>c \<in> set (removeAll l local). chPath c \<noteq> []"
    using assms(1,2) by (simp_all add: distinct_map inj_on_diff distinct_removeAll)
  have here: "\<exists>c \<in> set local. chPath c = chPath inc" using assms(3,4) by blast
  have "applies local inc" unfolding applies_def if_P [OF here] using uniq assms(5) by blast
  moreover have none: "\<not> (\<exists>c \<in> set (removeAll l local). chPath c = chPath inc)" using uniq by auto
  have "chPath w \<noteq> chPath l" using arg_cong [OF assms(7) [unfolded under_def], of length] assms(4) by auto
  then have "w \<in> set (removeAll l local)" using assms(6) by auto
  then have "\<not> applies (removeAll l local) inc"
    unfolding applies_def if_not_P [OF none] using assms(7,9,10) by blast
  moreover have "\<not> already_gone (removeAll l local) inc" using assms(9) by (simp add: already_gone_def)
  ultimately show ?thesis
    using assms(8) by (simp add: Merge_decide decide_iff [OF assms(1,2)] decide_iff [OF d])
qed

theorem Merge_retype_hidden_witness:
  "example_retype \<in> set (fst (Merge [example_touched, example_local] [example_retype])) \<and>
    example_retype \<in> cfIncoming ` set (snd (Merge [example_local] [example_retype]))"
proof -
  have "distinct (map chPath [example_touched, example_local])" "\<forall>c \<in> set [example_touched, example_local]. chPath c \<noteq> []"
    "chPath example_touched = chPath example_retype" "chKind example_touched = MetaChanged"
    "under (chPath example_retype) (chPath example_local)" "chKind example_retype = TypeChanged" "IsDir (chOld example_retype)"
    "removeAll example_touched [example_touched, example_local] = [example_local]"
    by code_simp+
  with Merge_retype_hidden [of "[example_touched, example_local]" example_touched example_retype example_local "[example_retype]"]
  show ?thesis by simp
qed

end
