(* ===== verification/Client.thy ===== *)
theory Client
  imports View
begin

text \<open>
  The client's pure helpers: splitting keys into batches (\<^verbatim>\<open>client/batch.go\<close>), ordering the owners
  of a key by path preference (\<^verbatim>\<open>client/rank.go\<close>), estimating and picking read batches
  (\<^verbatim>\<open>client/fetch.go\<close>) and resolving the tree behind a reference (\<^verbatim>\<open>client/commit.go\<close>). Sizes are
  unbounded integers; keys and commits of the core library are read through the operations of
  \<open>commit_ops\<close>.
\<close>

section \<open>Definitions\<close>

subsection \<open>Batches\<close>

text \<open>The loop of \<^verbatim>\<open>batches\<close> over the keys left, with the current batch and its size.\<close>

fun batches_loop :: "(obj_key \<Rightarrow> int) \<Rightarrow> int \<Rightarrow> int \<Rightarrow> obj_key list \<Rightarrow> obj_key list \<Rightarrow> int \<Rightarrow> obj_key list list" where
  "batches_loop sz maxBytes maxKeys [] cur nb = (if cur = [] then [] else [cur])"
| "batches_loop sz maxBytes maxKeys (k # keys) cur nb =
    (if cur \<noteq> [] \<and> (nb + sz k > maxBytes \<or> int (length cur) \<ge> maxKeys)
     then cur # batches_loop sz maxBytes maxKeys keys [k] (sz k)
     else batches_loop sz maxBytes maxKeys keys (cur @ [k]) (nb + sz k))"

definition batches :: "obj_key list \<Rightarrow> (obj_key \<Rightarrow> int) \<Rightarrow> int \<Rightarrow> int \<Rightarrow> obj_key list list" where
  "batches keys sz maxBytes maxKeys = batches_loop sz maxBytes maxKeys keys [] 0"

subsection \<open>Owner preference\<close>

text \<open>Durations are nanoseconds.\<close>

definition rttClass :: "int \<Rightarrow> int" where
  "rttClass rtt =
    (if rtt < 5000000 then 0
     else if rtt < 25000000 then 1
     else if rtt < 100000000 then 2
     else 3)"

record path_info =
  piDirect :: bool
  piRTT :: int

record scored =
  scID :: node_id
  scPen :: int
  scRelay :: int
  scClass :: int
  scPos :: nat

definition score :: "(node_id \<Rightarrow> int) \<Rightarrow> (node_id \<Rightarrow> path_info option) \<Rightarrow> nat \<times> node_id \<Rightarrow> scored" where
  "score penalty path p =
    (case p of (i, nid) \<Rightarrow>
       (case path nid of
          None \<Rightarrow> \<lparr> scID = nid, scPen = penalty nid, scRelay = 0, scClass = 0, scPos = i \<rparr>
        | Some p \<Rightarrow> \<lparr> scID = nid, scPen = penalty nid, scRelay = (if piDirect p then 0 else 1),
            scClass = rttClass (piRTT p), scPos = i \<rparr>))"

definition scored_less :: "scored \<Rightarrow> scored \<Rightarrow> bool" where
  "scored_less a b =
    (if scPen a \<noteq> scPen b then scPen a < scPen b
     else if scRelay a \<noteq> scRelay b then scRelay a < scRelay b
     else if scClass a \<noteq> scClass b then scClass a < scClass b
     else scPos a < scPos b)"

definition rankOwners :: "node_id list \<Rightarrow> (node_id \<Rightarrow> int) \<Rightarrow> (node_id \<Rightarrow> path_info option) \<Rightarrow> node_id list" where
  "rankOwners ids penalty path =
    map scID (sort_by scored_less (map (score penalty path) (zip [0..<length ids] ids)))"

subsection \<open>Read batches\<close>

definition getBatchKeys :: nat where "getBatchKeys = 2048"
definition getBatchBytes :: int where "getBatchBytes = 8388608"
definition getEstMax :: int where "getEstMax = 65536"

text \<open>\<open>hdr\<close> is the record header size and \<open>len\<close> the length field of a key, both of the core library.\<close>

definition estSize :: "int \<Rightarrow> (obj_key \<Rightarrow> int) \<Rightarrow> obj_key \<Rightarrow> int" where
  "estSize hdr len k = hdr + min (len k) getEstMax"

record fetch_key =
  fkKey :: obj_key
  fkAttempt :: nat

record fetch_acc =
  faKeys :: "fetch_key list"
  faBytes :: int

record fetch_job =
  fjNode :: node_id
  fjKeys :: "fetch_key list"

text \<open>
  The loop of \<^verbatim>\<open>pickBatch\<close> over the accumulators, in the order the map is walked: a full one
  ends it, otherwise the first of the largest is kept.
\<close>

definition acc_full :: "fetch_acc \<Rightarrow> bool" where
  "acc_full a \<longleftrightarrow> length (faKeys a) \<ge> getBatchKeys \<or> faBytes a \<ge> getBatchBytes"

fun pick_acc :: "(node_id \<times> fetch_acc) list \<Rightarrow> (node_id \<times> fetch_acc) option \<Rightarrow> (node_id \<times> fetch_acc) option" where
  "pick_acc [] best = best"
| "pick_acc ((nid, a) # acc) best =
    (if acc_full a then Some (nid, a)
     else case best of
            None \<Rightarrow> pick_acc acc (Some (nid, a))
          | Some (_, b) \<Rightarrow> pick_acc acc (if length (faKeys a) > length (faKeys b) then Some (nid, a) else best))"

text \<open>How many keys the batch takes, and their size.\<close>

fun take_keys :: "(obj_key \<Rightarrow> int) \<Rightarrow> fetch_key list \<Rightarrow> nat \<Rightarrow> int \<Rightarrow> nat \<times> int" where
  "take_keys est [] n nb = (n, nb)"
| "take_keys est (fk # fks) n nb =
    (if n < getBatchKeys \<and> (n = 0 \<or> nb + est (fkKey fk) \<le> getBatchBytes)
     then take_keys est fks (n + 1) (nb + est (fkKey fk))
     else (n, nb))"

definition pickBatch :: "(obj_key \<Rightarrow> int) \<Rightarrow> (node_id \<times> fetch_acc) list \<Rightarrow>
    (fetch_job \<times> (node_id \<times> fetch_acc) list) option" where
  "pickBatch est acc =
    (case pick_acc acc None of
       None \<Rightarrow> None
     | Some (best, a) \<Rightarrow>
         (let (n, nb) = take_keys est (faKeys a) 0 0;
              job = \<lparr> fjNode = best, fjKeys = take n (faKeys a) \<rparr>;
              left = drop n (faKeys a)
          in Some (job,
               if left = [] then filter (\<lambda>e. fst e \<noteq> best) acc
               else map (\<lambda>e. if fst e = best then (best, \<lparr> faKeys = left, faBytes = faBytes a - nb \<rparr>) else e) acc)))"

text \<open>
  Routing a key: \<open>order\<close> is the read order before and \<open>order'\<close> after a refresh of the view, which
  happens once. The result is either the missing key or the owner to ask.
\<close>

definition add_key :: "(obj_key \<Rightarrow> int) \<Rightarrow> node_id \<Rightarrow> fetch_key \<Rightarrow> (node_id \<times> fetch_acc) list \<Rightarrow> (node_id \<times> fetch_acc) list" where
  "add_key est nd fk acc =
    (case map_of acc nd of
       None \<Rightarrow> acc @ [(nd, \<lparr> faKeys = [fk], faBytes = est (fkKey fk) \<rparr>)]
     | Some a \<Rightarrow> map (\<lambda>e. if fst e = nd
         then (nd, \<lparr> faKeys = faKeys a @ [fk], faBytes = faBytes a + est (fkKey fk) \<rparr>) else e) acc)"

record route_state =
  rtAcc :: "(node_id \<times> fetch_acc) list"
  rtMissing :: "obj_key list"
  rtRefreshed :: bool

definition route :: "(obj_key \<Rightarrow> int) \<Rightarrow> (obj_key \<Rightarrow> node_id list) \<Rightarrow> (obj_key \<Rightarrow> node_id list) \<Rightarrow> fetch_key \<Rightarrow> route_state \<Rightarrow> route_state" where
  "route est before after fk s =
    (let order = (if rtRefreshed s then after (fkKey fk) else before (fkKey fk));
         again = (fkAttempt fk \<ge> length order \<and> \<not> rtRefreshed s);
         order = (if again then after (fkKey fk) else order);
         fk = (if again then fk\<lparr>fkAttempt := 0\<rparr> else fk);
         s = s\<lparr>rtRefreshed := rtRefreshed s \<or> again\<rparr>
     in if fkAttempt fk \<ge> length order then s\<lparr>rtMissing := rtMissing s @ [fkKey fk]\<rparr>
        else s\<lparr>rtAcc := add_key est (order ! fkAttempt fk) fk (rtAcc s)\<rparr>)"

subsection \<open>Trees of references\<close>

record 'c commit_ops =
  coIsCommit :: "obj_key \<Rightarrow> bool"
  coLength :: "obj_key \<Rightarrow> u64"
  coGet :: "obj_key \<Rightarrow> bytes option"
  coDecode :: "bytes \<Rightarrow> 'c option"
  coTree :: "'c \<Rightarrow> obj_key"
  coFootprint :: "nat \<Rightarrow> 'c \<Rightarrow> u64 option"

datatype tree_of_err = CommitUnread | CommitBad | CommitLength

definition TreeOf :: "'c commit_ops \<Rightarrow> obj_key \<Rightarrow> (tree_of_err, obj_key) res" where
  "TreeOf ops k =
    (if \<not> coIsCommit ops k then Inr k
     else case coGet ops k of
            None \<Rightarrow> Inl CommitUnread
          | Some data \<Rightarrow>
              (case coDecode ops data of
                 None \<Rightarrow> Inl CommitBad
               | Some c \<Rightarrow>
                   (case coFootprint ops (length data) c of
                      None \<Rightarrow> Inl CommitBad
                    | Some want \<Rightarrow> if coLength ops k \<noteq> want then Inl CommitLength else Inr (coTree ops c))))"

subsection \<open>Specifications\<close>

definition batch_ok :: "(obj_key \<Rightarrow> int) \<Rightarrow> int \<Rightarrow> int \<Rightarrow> obj_key list \<Rightarrow> bool" where
  "batch_ok sz maxBytes maxKeys b \<longleftrightarrow> b \<noteq> [] \<and> (int (length b) \<le> maxKeys \<or> length b = 1) \<and>
    (sum_list (map sz b) \<le> maxBytes \<or> length b = 1)"

text \<open>
  The documented preference, in terms of the measured path: an owner without a measurement counts
  as direct and near, and the distance is the number of the limits of 5, 25 and 100 milliseconds
  that the round trip reaches.
\<close>

definition direct_path :: "(node_id \<Rightarrow> path_info option) \<Rightarrow> node_id \<Rightarrow> bool" where
  "direct_path path nid = (\<forall>p. path nid = Some p \<longrightarrow> piDirect p)"

definition distance :: "(node_id \<Rightarrow> path_info option) \<Rightarrow> node_id \<Rightarrow> nat" where
  "distance path nid = (case path nid of None \<Rightarrow> 0
     | Some p \<Rightarrow> length (filter (\<lambda>ms. ms * 1000000 \<le> piRTT p) [5, 25, 100]))"

definition preferred_to :: "(node_id \<Rightarrow> int) \<Rightarrow> (node_id \<Rightarrow> path_info option) \<Rightarrow> node_id \<Rightarrow> node_id \<Rightarrow> bool" where
  "preferred_to penalty path a b \<longleftrightarrow> penalty a < penalty b \<or> penalty a = penalty b \<and>
    (direct_path path a \<and> \<not> direct_path path b \<or>
     direct_path path a = direct_path path b \<and> distance path a < distance path b)"

definition pref :: "(node_id \<Rightarrow> int) \<Rightarrow> (node_id \<Rightarrow> path_info option) \<Rightarrow> node_id \<Rightarrow> int \<times> int \<times> int" where
  "pref penalty path nid =
    (let s = score penalty path (0, nid) in (scPen s, scRelay s, scClass s))"

definition pref_le :: "int \<times> int \<times> int \<Rightarrow> int \<times> int \<times> int \<Rightarrow> bool" where
  "pref_le p q = (case (p, q) of ((a, b, c), (d, e, f)) \<Rightarrow> a < d \<or> a = d \<and> (b < e \<or> b = e \<and> c \<le> f))"

section \<open>Batches\<close>

lemma batches_loop_ok:
  "nb = sum_list (map sz cur) \<Longrightarrow> cur \<noteq> [] \<longrightarrow> batch_ok sz maxBytes maxKeys cur \<Longrightarrow>
    concat (batches_loop sz maxBytes maxKeys keys cur nb) = cur @ keys \<and>
    (\<forall>b \<in> set (batches_loop sz maxBytes maxKeys keys cur nb). batch_ok sz maxBytes maxKeys b)"
proof (induction keys arbitrary: cur nb)
  case (Cons k keys)
  have one: "batch_ok sz maxBytes maxKeys [k]" by (simp add: batch_ok_def)
  show ?case
  proof (cases "cur \<noteq> [] \<and> (nb + sz k > maxBytes \<or> int (length cur) \<ge> maxKeys)")
    case True
    with Cons.IH [of "sz k" "[k]"] one Cons.prems(2) show ?thesis by simp
  next
    case False
    then have "batch_ok sz maxBytes maxKeys (cur @ [k])"
      using Cons.prems by (cases "cur = []") (auto simp: batch_ok_def)
    with Cons.IH [of "nb + sz k" "cur @ [k]"] Cons.prems(1)
    have "concat (batches_loop sz maxBytes maxKeys keys (cur @ [k]) (nb + sz k)) = cur @ k # keys \<and>
      (\<forall>b \<in> set (batches_loop sz maxBytes maxKeys keys (cur @ [k]) (nb + sz k)). batch_ok sz maxBytes maxKeys b)" by simp
    moreover have "batches_loop sz maxBytes maxKeys (k # keys) cur nb = batches_loop sz maxBytes maxKeys keys (cur @ [k]) (nb + sz k)"
      using False by auto
    ultimately show ?thesis by metis
  qed
qed simp

section \<open>Owner preference\<close>

interpretation scored: strict_weak_order scored_less UNIV
  by unfold_locales (auto simp: scored_less_def split: if_splits)

lemma sort_by_sorted: "sorted_wrt lt xs \<Longrightarrow> (\<And>x y. lt x y \<Longrightarrow> \<not> lt y x) \<Longrightarrow> sort_by lt xs = xs"
proof (induction xs)
  case (Cons x xs)
  then have "sort_by lt xs = xs" "\<forall>y \<in> set xs. \<not> lt y x" by auto
  then show ?case by (cases xs) auto
qed simp

lemma score_fields [simp]: "scID (score penalty path (i, nid)) = nid" "scPos (score penalty path (i, nid)) = i"
  "(scPen (score penalty path (i, nid)), scRelay (score penalty path (i, nid)), scClass (score penalty path (i, nid))) =
    pref penalty path nid"
  by (simp_all add: score_def pref_def split: option.splits)

lemma rank_scores: "map scID (map (score penalty path) (zip [0..<length ids] ids)) = ids"
  by (rule nth_equalityI) auto

lemma rank_pref: "s \<in> set (map (score penalty path) ps) \<Longrightarrow> pref penalty path (scID s) = (scPen s, scRelay s, scClass s)"
  by (auto simp: score_fields(3) [symmetric] simp del: score_fields(3))

lemma rankOwners_stable:
  "filter (\<lambda>n. pref penalty path n = q) (rankOwners ids penalty path) = filter (\<lambda>n. pref penalty path n = q) ids"
proof -
  let ?ss = "map (score penalty path) (zip [0..<length ids] ids)"
  let ?P = "\<lambda>s. pref penalty path (scID s) = q"
  have "filter (\<lambda>n. pref penalty path n = q) (rankOwners ids penalty path) = map scID (filter ?P (sort_by scored_less ?ss))"
    by (simp add: rankOwners_def filter_map o_def)
  also have "filter ?P (sort_by scored_less ?ss) = sort_by scored_less (filter ?P ?ss)"
    by (simp add: scored.sort_by_filter)
  also have "\<dots> = filter ?P ?ss"
  proof (rule sort_by_sorted)
    have "sorted_wrt (\<lambda>a b. scPos a < scPos b) ?ss"
      by (auto simp: sorted_wrt_iff_nth_less)
    then have "sorted_wrt (\<lambda>a b. scPos a < scPos b) (filter ?P ?ss)" by (rule sorted_wrt_filter)
    then show "sorted_wrt scored_less (filter ?P ?ss)"
    proof (rule sorted_wrt_mono_rel [rotated])
      fix a b assume "a \<in> set (filter ?P ?ss)" "b \<in> set (filter ?P ?ss)" "scPos a < scPos b"
      then show "scored_less a b"
        using rank_pref [of a penalty path "zip [0..<length ids] ids"] rank_pref [of b penalty path "zip [0..<length ids] ids"]
        by (auto simp: scored_less_def simp del: set_map)
    qed
  qed (auto simp: scored_less_def split: if_splits)
  also have "map scID (filter ?P ?ss) = filter (\<lambda>n. pref penalty path n = q) (map scID ?ss)"
    by (simp add: filter_map o_def)
  finally show ?thesis unfolding rank_scores .
qed

lemma rankOwners_sorted: "sorted_wrt (\<lambda>a b. pref_le (pref penalty path a) (pref penalty path b)) (rankOwners ids penalty path)"
proof -
  let ?ss = "map (score penalty path) (zip [0..<length ids] ids)"
  have "sorted_wrt (\<lambda>a b. \<not> scored_less b a) (sort_by scored_less ?ss)" by (rule scored.sorted_sort_by) simp
  then have "sorted_wrt (\<lambda>a b. pref_le (pref penalty path (scID a)) (pref penalty path (scID b))) (sort_by scored_less ?ss)"
  proof (rule sorted_wrt_mono_rel [rotated])
    fix a b assume "a \<in> set (sort_by scored_less ?ss)" "b \<in> set (sort_by scored_less ?ss)" "\<not> scored_less b a"
    then show "pref_le (pref penalty path (scID a)) (pref penalty path (scID b))"
      using rank_pref [of a penalty path "zip [0..<length ids] ids"] rank_pref [of b penalty path "zip [0..<length ids] ids"]
      by (auto simp: scored_less_def pref_le_def split: if_splits)
  qed
  then show ?thesis by (simp add: rankOwners_def sorted_wrt_map)
qed

lemma pref_meaning:
  "pref penalty path nid = (penalty nid, if direct_path path nid then 0 else 1, int (distance path nid))"
  by (auto simp: pref_def score_def direct_path_def distance_def rttClass_def split: option.splits)

lemma preferred_to_pref: "preferred_to penalty path b a \<longleftrightarrow> \<not> pref_le (pref penalty path a) (pref penalty path b)"
  by (auto simp: preferred_to_def pref_le_def pref_meaning)

lemma pref_eq_iff: "pref penalty path a = pref penalty path b \<longleftrightarrow>
    \<not> preferred_to penalty path a b \<and> \<not> preferred_to penalty path b a"
  by (auto simp: preferred_to_def pref_meaning)

section \<open>Properties\<close>

text \<open>
  Batches keep the keys in order, none lost and none twice; no batch is empty, and a batch of
  more than one key respects both the byte and the key limit.
\<close>

lemma batches_exact:
  "concat (batches keys sz maxBytes maxKeys) = keys \<and>
    (\<forall>b \<in> set (batches keys sz maxBytes maxKeys). b \<noteq> [] \<and> (length b = 1 \<or>
       int (length b) \<le> maxKeys \<and> sum_list (map sz b) \<le> maxBytes))"
  using batches_loop_ok [of 0 sz "[]" maxBytes maxKeys keys] by (auto simp: batches_def batch_ok_def)

text \<open>
  C32: Owners are ranked by penalty, then direct or unmeasured paths before relayed ones, then by how
  many of the limits of 5, 25 and 100 milliseconds the round trip reaches: no owner comes after one
  it is preferred to. Owners none of which is preferred keep the placement's rank order, and no
  owner is dropped or repeated.
\<close>

theorem rankOwners_exact:
  "mset (rankOwners ids penalty path) = mset ids \<and>
    sorted_wrt (\<lambda>a b. \<not> preferred_to penalty path b a) (rankOwners ids penalty path) \<and>
    filter (\<lambda>n. \<not> preferred_to penalty path n q \<and> \<not> preferred_to penalty path q n) (rankOwners ids penalty path) =
      filter (\<lambda>n. \<not> preferred_to penalty path n q \<and> \<not> preferred_to penalty path q n) ids"
proof -
  have "mset (rankOwners ids penalty path) = image_mset scID (mset (map (score penalty path) (zip [0..<length ids] ids)))"
    by (simp add: rankOwners_def)
  also have "\<dots> = mset ids" by (metis mset_map rank_scores)
  moreover have e: "(\<lambda>n. \<not> preferred_to penalty path n q \<and> \<not> preferred_to penalty path q n) =
      (\<lambda>n. pref penalty path n = pref penalty path q)"
    by (rule ext) (simp add: pref_eq_iff)
  ultimately show ?thesis unfolding e unfolding preferred_to_pref not_not
    using rankOwners_sorted rankOwners_stable by auto
qed

end
