(* ===== verification/Ticket.thy ===== *)
theory Ticket
  imports View Codec
begin

text \<open>
  Bootstrap tickets (\<^verbatim>\<open>ticket/ticket.go\<close>) and byte sizes (\<^verbatim>\<open>cmd/dstore/size.go\<close>): the textual forms
  that operators pass around. Base 32 (\<^verbatim>\<open>encoding/base32\<close>, standard alphabet, no padding) is
  modelled on bits; CBOR is a codec and the endpoint ids of iroh are read by a parser, both
  parameters. Letters are folded and white space is trimmed as for ASCII texts.
\<close>

section \<open>Definitions\<close>

subsection \<open>Texts\<close>

definition to_lower :: "char \<Rightarrow> char" where
  "to_lower c = (let n = of_char c in if 65 \<le> n \<and> n \<le> (90 :: nat) then char_of (n + 32) else c)"

definition to_upper :: "char \<Rightarrow> char" where
  "to_upper c = (let n = of_char c in if 97 \<le> n \<and> n \<le> (122 :: nat) then char_of (n - 32) else c)"

definition is_space :: "char \<Rightarrow> bool" where
  "is_space c \<longleftrightarrow> (let n = of_char c in n = (32 :: nat) \<or> 9 \<le> n \<and> n \<le> 13)"

definition TrimSpace :: "string \<Rightarrow> string" where
  "TrimSpace s = rev (dropWhile is_space (rev (dropWhile is_space s)))"

text \<open>\<^verbatim>\<open>strings.FieldsFunc\<close>: the maximal runs of characters that are not separators.\<close>

fun split_fields :: "(char \<Rightarrow> bool) \<Rightarrow> string \<Rightarrow> string \<Rightarrow> string list" where
  "split_fields sep [] cur = (if cur = [] then [] else [cur])"
| "split_fields sep (c # s) cur =
    (if sep c then (if cur = [] then [] else [cur]) @ split_fields sep s [] else split_fields sep s (cur @ [c]))"

fun join_comma :: "string list \<Rightarrow> string" where
  "join_comma [] = []"
| "join_comma [w] = w"
| "join_comma (w # ws) = w @ '','' @ join_comma ws"

subsection \<open>Base 32\<close>

definition alphabet :: string where
  "alphabet = ''ABCDEFGHIJKLMNOPQRSTUVWXYZ234567''"

fun bits :: "nat \<Rightarrow> nat \<Rightarrow> bool list" where
  "bits 0 n = []"
| "bits (Suc k) n = bits k (n div 2) @ [odd n]"

definition unbits :: "bool list \<Rightarrow> nat" where
  "unbits bs = foldl (\<lambda>a b. 2 * a + of_bool b) 0 bs"

text \<open>Groups of \<open>k\<close> bits, the last one filled with zeros.\<close>

function groups :: "nat \<Rightarrow> bool list \<Rightarrow> bool list list" where
  "groups k bs = (if bs = [] \<or> k = 0 then [] else take k (bs @ replicate k False) # groups k (drop k bs))"
  by auto
termination
  by (relation "measure (\<lambda>(k, bs). length bs)") auto

definition b32_encode :: "bytes \<Rightarrow> string" where
  "b32_encode b = map (\<lambda>g. alphabet ! unbits g) (groups 5 (concat (map (\<lambda>c. bits 8 (of_char c)) b)))"

fun index_of :: "'a list \<Rightarrow> 'a \<Rightarrow> nat option" where
  "index_of [] x = None"
| "index_of (y # ys) x = (if x = y then Some 0 else map_option Suc (index_of ys x))"

fun opt_all :: "'a option list \<Rightarrow> 'a list option" where
  "opt_all [] = Some []"
| "opt_all (x # xs) = (case (x, opt_all xs) of (Some y, Some ys) \<Rightarrow> Some (y # ys) | _ \<Rightarrow> None)"

text \<open>
  Line ends are skipped; a character outside the alphabet and a last group of 1, 3 or 6
  characters are errors; bits beyond the last whole byte are ignored.
\<close>

definition b32_decode :: "string \<Rightarrow> bytes option" where
  "b32_decode s =
    (let s = filter (\<lambda>c. c \<noteq> CHR 0x0A \<and> c \<noteq> CHR 0x0D) s;
         n = length s
     in if n mod 8 \<in> {1, 3, 6} then None
        else map_option (\<lambda>vs. map (\<lambda>g. char_of (unbits g)) (groups 8 (take (8 * (5 * n div 8)) (concat (map (bits 5) vs)))))
               (opt_all (map (index_of alphabet) s)))"

subsection \<open>Tickets\<close>

definition Prefix :: string where "Prefix = ''dstore1''"

record tmember =
  tmID :: bytes
  tmAddrs :: "string list"

record ticket =
  tkClusterID :: bytes
  tkIncarnation :: u64
  tkMembers :: "tmember list"

definition Ticket_Encode :: "ticket codec \<Rightarrow> ticket \<Rightarrow> string" where
  "Ticket_Encode tc t = Prefix @ map to_lower (b32_encode (Marshal tc t))"

fun ids_loop :: "tmember list \<Rightarrow> string list \<Rightarrow> string list" where
  "ids_loop [] seen = []"
| "ids_loop (m # ms) seen =
    (let nid = hex_encode (tmID m)
     in if length (tmID m) = 32 \<and> nid \<notin> set seen then nid # ids_loop ms (nid # seen) else ids_loop ms seen)"

definition IDs :: "ticket \<Rightarrow> string" where
  "IDs t = join_comma (ids_loop (tkMembers t) [])"

datatype ticket_err = EmptyTicket | BadEncoding | BadTicket | BadID string | NoMembers

definition id_sep :: "char \<Rightarrow> bool" where
  "id_sep c \<longleftrightarrow> c = CHR '','' \<or> c = CHR '' '' \<or> c = CHR 0x09 \<or> c = CHR 0x0A \<or> c = CHR 0x0D"

fun parse_members :: "(string \<Rightarrow> bytes option) \<Rightarrow> string list \<Rightarrow> (ticket_err, tmember list) res" where
  "parse_members pid [] = Inr []"
| "parse_members pid (f # fs) =
    (case pid (map to_lower f) of
       None \<Rightarrow> Inl (BadID f)
     | Some b \<Rightarrow> (case parse_members pid fs of
         Inl e \<Rightarrow> Inl e
       | Inr ms \<Rightarrow> Inr (\<lparr> tmID = b, tmAddrs = [] \<rparr> # ms)))"

definition parseIDs :: "(string \<Rightarrow> bytes option) \<Rightarrow> string \<Rightarrow> (ticket_err, ticket) res" where
  "parseIDs pid s =
    (case parse_members pid (split_fields id_sep s []) of
       Inl e \<Rightarrow> Inl e
     | Inr ms \<Rightarrow> if ms = [] then Inl NoMembers
         else Inr \<lparr> tkClusterID = [], tkIncarnation = 0, tkMembers = ms \<rparr>)"

definition Ticket_Parse :: "ticket codec \<Rightarrow> (string \<Rightarrow> bytes option) \<Rightarrow> string \<Rightarrow> (ticket_err, ticket) res" where
  "Ticket_Parse tc pid s =
    (let s = TrimSpace s
     in if s = [] then Inl EmptyTicket
        else if take (length Prefix) (map to_lower s) \<noteq> Prefix then parseIDs pid s
        else case b32_decode (map to_upper (drop (length Prefix) s)) of
               None \<Rightarrow> Inl BadEncoding
             | Some b \<Rightarrow>
                 (case Unmarshal tc b of
                    None \<Rightarrow> Inl BadTicket
                  | Some t \<Rightarrow> if tkMembers t = [] then Inl NoMembers else Inr t))"

text \<open>\<^verbatim>\<open>worktree.TicketFromView\<close>: at most four members.\<close>

definition TicketFromView :: "view \<Rightarrow> ticket" where
  "TicketFromView v = \<lparr> tkClusterID = vClusterID v, tkIncarnation = vIncarnation v,
     tkMembers = map (\<lambda>nd. \<lparr> tmID = nID nd, tmAddrs = nAddrs nd \<rparr>) (take 4 (vNodes v)) \<rparr>"

subsection \<open>Sizes\<close>

definition is_digit :: "char \<Rightarrow> bool" where
  "is_digit c \<longleftrightarrow> (let n = of_char c in 48 \<le> n \<and> n \<le> (57 :: nat))"

definition dec_value :: "string \<Rightarrow> nat" where
  "dec_value s = foldl (\<lambda>a c. 10 * a + (of_char c - 48)) 0 s"

definition MaxInt64 :: int where "MaxInt64 = 9223372036854775807"

datatype size_err = NoNumber | BadNumber | UnknownUnit | TooLarge

definition trim_b :: "string \<Rightarrow> string" where
  "trim_b u = (if u \<noteq> [] \<and> last u = CHR ''b'' then butlast u else u)"

definition unit_shift :: "string \<Rightarrow> nat option" where
  "unit_shift u =
    (if u = [] then Some 0
     else if u = ''k'' \<or> u = ''ki'' then Some 10
     else if u = ''m'' \<or> u = ''mi'' then Some 20
     else if u = ''g'' \<or> u = ''gi'' then Some 30
     else if u = ''t'' \<or> u = ''ti'' then Some 40
     else None)"

text \<open>The result is an \<^verbatim>\<open>int64\<close>; the shift is written as the multiplication it is.\<close>

definition parseSize :: "string \<Rightarrow> (size_err, int) res" where
  "parseSize s =
    (let s = TrimSpace s;
         digits = takeWhile is_digit s
     in if digits = [] then Inl NoNumber
        else let n = int (dec_value digits)
             in if n > MaxInt64 then Inl BadNumber
                else case unit_shift (trim_b (map to_lower (drop (length digits) s))) of
                       None \<Rightarrow> Inl UnknownUnit
                     | Some shift \<Rightarrow> if n > MaxInt64 div 2 ^ shift then Inl TooLarge else Inr (n * 2 ^ shift))"

subsection \<open>Examples\<close>

definition tmember_p :: "tmember pickler" where
  "tmember_p = map_p (\<lambda>m. (tmID m, tmAddrs m)) (\<lambda>(a, b). \<lparr> tmID = a, tmAddrs = b \<rparr>) (pair_p bytes_p (list_p bytes_p))"

definition ticket_p :: "ticket pickler" where
  "ticket_p = map_p (\<lambda>t. (tkClusterID t, tkIncarnation t, tkMembers t))
     (\<lambda>(a, b, c). \<lparr> tkClusterID = a, tkIncarnation = b, tkMembers = c \<rparr>) (pair_p bytes_p (pair_p u64_p (list_p tmember_p)))"

definition example_ticket :: ticket where
  "example_ticket = \<lparr> tkClusterID = ''c'', tkIncarnation = 1, tkMembers = [\<lparr> tmID = zero_id, tmAddrs = [''a:1''] \<rparr>] \<rparr>"

text \<open>A parser of ids that refuses one id of 32 bytes, and a ticket that names it.\<close>

definition picky_pid :: "string \<Rightarrow> bytes option" where
  "picky_pid s = (case hex_decode s of None \<Rightarrow> None | Some b \<Rightarrow> if b = replicate 32 CHR 0xAB then None else Some b)"

definition keyless_ticket :: ticket where
  "keyless_ticket = \<lparr> tkClusterID = ''c'', tkIncarnation = 1, tkMembers = [\<lparr> tmID = replicate 32 CHR 0xAB, tmAddrs = [] \<rparr>] \<rparr>"

text \<open>The ids a ticket names: those of 32 bytes, each once.\<close>

definition member_ids :: "ticket \<Rightarrow> node_id list" where
  "member_ids t = nub_by (\<lambda>b. b) (filter (\<lambda>b. length b = 32) (map tmID (tkMembers t)))"

text \<open>Characters that the parser of ids takes as they are.\<close>

definition plain :: "char \<Rightarrow> bool" where
  "plain c \<longleftrightarrow> to_lower c = c \<and> \<not> is_space c \<and> \<not> id_sep c \<and> c \<noteq> CHR ''s''"

section \<open>Bits\<close>

lemma length_bits [simp]: "length (bits k n) = k"
  by (induction k arbitrary: n) simp_all

lemma unbits_simps [simp]: "unbits [] = 0" "unbits (bs @ [b]) = 2 * unbits bs + of_bool b"
  by (simp_all add: unbits_def)

lemma unbits_bits: "unbits (bits k n) = n mod 2 ^ k"
proof (induction k arbitrary: n)
  case (Suc k)
  have "n mod 2 ^ Suc k = 2 * (n div 2 mod 2 ^ k) + n mod 2" by (simp add: mod_mult2_eq)
  with Suc show ?case by (simp add: odd_iff_mod_2_eq_one of_bool_def)
qed simp

lemma bits_unbits: "length bs = k \<Longrightarrow> bits k (unbits bs) = bs"
proof (induction bs arbitrary: k rule: rev_induct)
  case (snoc b bs)
  then obtain k' where "k = Suc k'" "length bs = k'" by (cases k) auto
  with snoc show ?case by simp
qed simp

lemma unbits_less: "unbits bs < 2 ^ length bs"
  by (induction bs rule: rev_induct) auto

declare groups.simps [simp del]

lemma groups_Nil [simp]: "groups k [] = []"
  by (simp add: groups.simps)

lemma groups_concat: "0 < k \<Longrightarrow> \<forall>w \<in> set ws. length w = k \<Longrightarrow> groups k (concat ws) = ws"
  by (induction ws) (auto simp: groups.simps [of k "_ @ _"])

lemma groups_props:
  "0 < k \<Longrightarrow> (\<forall>g \<in> set (groups k bs). length g = k) \<and> (\<exists>m. concat (groups k bs) = bs @ replicate m False \<and> m < k)"
proof (induction k bs rule: groups.induct)
  case (1 k bs)
  show ?case
  proof (cases "bs = []")
    case True
    with 1(2) show ?thesis by (auto intro: exI [of _ 0])
  next
    case False
    note g = groups.simps [of k bs]
    show ?thesis
    proof (cases "length bs \<le> k")
      case True
      then have "groups k bs = [bs @ replicate (k - length bs) False]" using False 1(2) g by simp
      with True False 1(2) show ?thesis by (auto intro: exI [of _ "k - length bs"])
    next
      case long: False
      obtain m where m: "concat (groups k (drop k bs)) = drop k bs @ replicate m False" "m < k"
        using 1 False by auto
      have "take k (bs @ replicate k False) = take k bs" using long by simp
      with g False 1(2) have "concat (groups k bs) = take k bs @ drop k bs @ replicate m False" using m by simp
      moreover have "\<forall>g \<in> set (groups k bs). length g = k" using g False 1 long by auto
      ultimately show ?thesis using m(2) by (auto simp flip: append_assoc)
    qed
  qed
qed

section \<open>Base 32\<close>

lemma alphabet_index: "i < 32 \<Longrightarrow> index_of alphabet (alphabet ! i) = Some i"
proof -
  have "\<forall>i \<in> set [0..<32]. index_of alphabet (alphabet ! i) = Some i" by code_simp
  then show "i < 32 \<Longrightarrow> index_of alphabet (alphabet ! i) = Some i" by simp
qed

lemma alphabet_chars:
  "\<forall>c \<in> set alphabet. c \<noteq> CHR 0x0A \<and> c \<noteq> CHR 0x0D \<and> to_upper (to_lower c) = c \<and> \<not> is_space (to_lower c)"
  by code_simp

lemma length_alphabet [simp]: "length alphabet = 32"
  by (simp add: alphabet_def)

lemma opt_all_map_Some: "opt_all (map (\<lambda>x. Some (f x)) xs) = Some (map f xs)"
  by (induction xs) simp_all

lemma set_b32_encode: "set (b32_encode b) \<subseteq> set alphabet"
proof -
  have "unbits g < 32" if "g \<in> set (groups 5 bs)" for g bs
    using that groups_props [of 5 bs] unbits_less [of g] by auto
  then show ?thesis by (auto simp: b32_encode_def)
qed

lemma b32_roundtrip: "b32_decode (b32_encode b) = Some b"
proof -
  define bs where "bs = concat (map (\<lambda>c. bits 8 (of_char c)) b)"
  define gs where "gs = groups 5 bs"
  obtain m where g: "\<forall>g \<in> set gs. length g = 5" and m: "concat gs = bs @ replicate m False" "m < 5"
    using groups_props [of 5 bs] by (auto simp: gs_def)
  have len: "length bs = 8 * length b" by (simp add: bs_def length_concat o_def sum_list_triv)
  have "length (concat gs) = 5 * length gs" using g by (induction gs) auto
  then have n: "5 * length gs = 8 * length b + m" using m(1) len by simp
  have "5 * (length gs mod 8) mod 8 = m" unfolding mod_mult_right_eq using n m(2) by simp
  then have "length gs mod 8 \<notin> {1, 3, 6}" using m(2) by auto
  moreover have "5 * length gs div 8 = length b" using n m(2) by simp
  moreover have "filter (\<lambda>c. c \<noteq> CHR 0x0A \<and> c \<noteq> CHR 0x0D) (b32_encode b) = b32_encode b"
    using set_b32_encode [of b] alphabet_chars by (auto simp: filter_id_conv)
  moreover have "opt_all (map (index_of alphabet) (b32_encode b)) = Some (map unbits gs)"
  proof -
    have "map (index_of alphabet) (b32_encode b) = map (\<lambda>g. Some (unbits g)) gs"
    proof -
      have "unbits x < 32" if "x \<in> set gs" for x using unbits_less [of x] g that by simp
      then show ?thesis unfolding b32_encode_def bs_def [symmetric] gs_def [symmetric] by (simp add: alphabet_index)
    qed
    then show ?thesis by (simp add: opt_all_map_Some)
  qed
  moreover have "concat (map (bits 5) (map unbits gs)) = bs @ replicate m False"
    unfolding m(1) [symmetric] using g by (intro arg_cong [where f = concat]) (simp add: bits_unbits map_idI)
  moreover have "map (\<lambda>g. char_of (unbits g)) (groups 8 bs) = b"
    by (simp add: bs_def groups_concat unbits_bits o_def map_idI)
  moreover have "length (b32_encode b) = length gs" by (simp add: b32_encode_def gs_def bs_def)
  ultimately show ?thesis using len by (simp add: b32_decode_def Let_def)
qed

section \<open>Lists of ids\<close>

interpretation tmember_p: pickling tmember_p
  unfolding tmember_p_def by (intro pickling_map pickling_intros) simp

interpretation ticket_p: pickling ticket_p
  unfolding ticket_p_def by (intro pickling_map pickling_intros tmember_p.pickling_axioms) simp

lemma hex_digit_plain: "n < 16 \<Longrightarrow> plain (hex_digit n)"
proof -
  have "\<forall>n \<in> set [0..<16]. plain (hex_digit n)" by code_simp
  then show "n < 16 \<Longrightarrow> plain (hex_digit n)" by simp
qed

lemma hex_plain: "\<forall>c \<in> set (hex_encode b). plain c"
proof -
  have "of_char x div 16 < (16 :: nat)" for x by (rule less_mult_imp_div_less) simp
  then show ?thesis by (auto simp: hex_encode_def intro: hex_digit_plain)
qed

lemma hex_encode_inj: "hex_encode a = hex_encode b \<Longrightarrow> a = b"
  by (metis hex_decode_encode option.inject)

lemma ids_loop_nub: "ids_loop ms seen = filter (\<lambda>w. w \<notin> set seen) (map hex_encode (nub_by (\<lambda>b. b) (filter (\<lambda>b. length b = 32) (map tmID ms))))"
proof (induction ms arbitrary: seen)
  case (Cons m ms)
  show ?case
    using Cons.IH [of "hex_encode (tmID m) # seen"] Cons.IH [of seen]
    by (auto simp: Let_def filter_map o_def conj_commute intro!: arg_cong [where f = "map hex_encode"] filter_cong dest: hex_encode_inj)
qed simp

lemma fields_word: "\<forall>c \<in> set w. \<not> sep c \<Longrightarrow> split_fields sep (w @ s) cur = split_fields sep s (cur @ w)"
  by (induction w arbitrary: cur) auto

lemma comma_sep: "id_sep CHR '',''"
  by (simp add: id_sep_def)

lemma comma_plain: "\<not> is_space CHR '','' \<and> to_lower CHR '','' = CHR '','' \<and> CHR '','' \<noteq> CHR ''s''"
  by code_simp

lemma fields_join:
  "\<forall>w \<in> set ws. w \<noteq> [] \<and> (\<forall>c \<in> set w. \<not> id_sep c) \<Longrightarrow> split_fields id_sep (join_comma ws) [] = ws"
proof (induction ws rule: join_comma.induct)
  case (2 w)
  then show ?case using fields_word [of w id_sep "[]" "[]"] by simp
next
  case (3 w v vs)
  then show ?case using fields_word [of w id_sep "CHR '','' # join_comma (v # vs)" "[]"] comma_sep by simp
qed simp

lemma set_join_comma: "set (join_comma ws) \<subseteq> insert CHR '','' (\<Union>(set ` set ws))"
  by (induction ws rule: join_comma.induct) auto

lemma dropWhile_none: "\<forall>c \<in> set s. \<not> P c \<Longrightarrow> dropWhile P s = s"
  by (cases s) auto

lemma TrimSpace_id: "\<forall>c \<in> set s. \<not> is_space c \<Longrightarrow> TrimSpace s = s"
  by (simp add: TrimSpace_def dropWhile_none)

lemma parse_members_hex:
  assumes "\<forall>b \<in> set bs. pid (hex_encode b) \<in> {None, Some b}"
  shows "if \<forall>b \<in> set bs. pid (hex_encode b) = Some b
    then parse_members pid (map hex_encode bs) = Inr (map (\<lambda>b. \<lparr> tmID = b, tmAddrs = [] \<rparr>) bs)
    else isl (parse_members pid (map hex_encode bs))"
  using assms
proof (induction bs)
  case (Cons b bs)
  have low: "map to_lower (hex_encode b) = hex_encode b" using hex_plain [of b] by (auto simp: plain_def intro: map_idI)
  show ?case
  proof (cases "pid (hex_encode b)")
    case None
    then show ?thesis by (simp add: low)
  next
    case (Some b')
    with Cons.prems have "pid (hex_encode b) = Some b" by auto
    with Cons show ?thesis by (auto simp: low split: sum.splits if_splits)
  qed
qed simp

lemma not_ticket:
  assumes "CHR ''s'' \<notin> set s"
  shows "take (length Prefix) s \<noteq> Prefix"
proof
  assume "take (length Prefix) s = Prefix"
  then have "CHR ''s'' \<in> set (take (length Prefix) s)" by (simp add: Prefix_def)
  with assms show False by (meson in_set_takeD)
qed

lemma Parse_IDs:
  assumes "\<forall>b \<in> set (member_ids t). pid (hex_encode b) \<in> {None, Some b}" "member_ids t \<noteq> []"
  shows "if \<forall>b \<in> set (member_ids t). pid (hex_encode b) = Some b
    then Ticket_Parse tc pid (IDs t) =
      Inr \<lparr> tkClusterID = [], tkIncarnation = 0, tkMembers = map (\<lambda>b. \<lparr> tmID = b, tmAddrs = [] \<rparr>) (member_ids t) \<rparr>
    else isl (Ticket_Parse tc pid (IDs t))"
proof -
  let ?ws = "map hex_encode (member_ids t)"
  have ids: "IDs t = join_comma ?ws" by (simp add: IDs_def ids_loop_nub member_ids_def)
  have len: "\<forall>b \<in> set (member_ids t). length b = 32" using set_nub_by_subset by (fastforce simp: member_ids_def)
  have ne: "\<forall>w \<in> set ?ws. w \<noteq> []"
  proof
    fix w assume "w \<in> set ?ws"
    then obtain b where b: "b \<in> set (member_ids t)" "w = hex_encode b" by auto
    with len have "b \<noteq> []" by fastforce
    with b(2) show "w \<noteq> []" by (cases b) (simp_all add: hex_encode_def)
  qed
  have plain: "\<forall>c \<in> set (IDs t). c = CHR '','' \<or> plain c" using set_join_comma [of ?ws] hex_plain ids by fastforce
  have "\<forall>c \<in> set (IDs t). \<not> is_space c \<and> to_lower c = c \<and> c \<noteq> CHR ''s''"
    using plain comma_plain unfolding plain_def by metis
  then have s: "TrimSpace (IDs t) = IDs t" "map to_lower (IDs t) = IDs t" "CHR ''s'' \<notin> set (IDs t)"
    by (auto simp: TrimSpace_id intro: map_idI)
  have "split_fields id_sep (IDs t) [] = ?ws"
    unfolding ids by (rule fields_join) (use ne hex_plain in \<open>auto simp: plain_def\<close>)
  moreover have "IDs t \<noteq> []" using calculation assms(2) by auto
  ultimately show ?thesis using assms(2) s not_ticket [OF s(3)] parse_members_hex [OF assms(1)]
    by (auto simp: Ticket_Parse_def parseIDs_def Let_def split: if_splits sum.splits)
qed

lemma Parse_Encode:
  assumes "codec_ok tc" "tkMembers t \<noteq> []"
  shows "Ticket_Parse tc pid (Ticket_Encode tc t) = Inr t"
proof -
  let ?b = "b32_encode (Marshal tc t)"
  have pre: "map to_lower Prefix = Prefix" "\<forall>c \<in> set Prefix. \<not> is_space c" by code_simp+
  have a: "to_upper (to_lower c) = c \<and> \<not> is_space (to_lower c)" if "c \<in> set ?b" for c
    using that set_b32_encode [of "Marshal tc t"] alphabet_chars by blast
  then have "map to_upper (map to_lower ?b) = ?b" "\<forall>c \<in> set (map to_lower ?b). \<not> is_space c"
    by (simp_all add: map_idI)
  moreover have "TrimSpace (Ticket_Encode tc t) = Ticket_Encode tc t"
    using pre(2) calculation(2) by (intro TrimSpace_id) (auto simp: Ticket_Encode_def)
  moreover have "Prefix \<noteq> []" by (simp add: Prefix_def)
  ultimately show ?thesis using assms pre(1)
    by (simp add: Ticket_Parse_def Ticket_Encode_def Let_def b32_roundtrip del: map_map)
qed

section \<open>Properties\<close>

text \<open>
  C31: Tickets round trip. Parsing the long form of a ticket with members gives the ticket back. When
  the parser of endpoint ids accepts every 32-byte member id in hexadecimal, the short form parses
  to a ticket that names each of these ids once, in order, without addresses; when it refuses one
  of them, as it does for bytes that are no key, the short form does not parse.
\<close>

theorem ticket_roundtrip:
  assumes "codec_ok tc" "tkMembers t \<noteq> []" "\<forall>b \<in> set (member_ids t). pid (hex_encode b) \<in> {None, Some b}" "member_ids t \<noteq> []"
  shows "Ticket_Parse tc pid (Ticket_Encode tc t) = Inr t \<and>
    (if \<forall>b \<in> set (member_ids t). pid (hex_encode b) = Some b
     then Ticket_Parse tc pid (IDs t) =
       Inr \<lparr> tkClusterID = [], tkIncarnation = 0, tkMembers = map (\<lambda>b. \<lparr> tmID = b, tmAddrs = [] \<rparr>) (member_ids t) \<rparr>
     else isl (Ticket_Parse tc pid (IDs t)))"
  using Parse_Encode [OF assms(1,2), of pid] Parse_IDs [OF assms(3,4)] by simp

theorem ticket_roundtrip_witness:
  "Ticket_Parse (codec_of ticket_p) picky_pid (Ticket_Encode (codec_of ticket_p) example_ticket) = Inr example_ticket \<and>
    Ticket_Parse (codec_of ticket_p) picky_pid (IDs example_ticket) =
      Inr \<lparr> tkClusterID = [], tkIncarnation = 0, tkMembers = [\<lparr> tmID = zero_id, tmAddrs = [] \<rparr>] \<rparr> \<and>
    isl (Ticket_Parse (codec_of ticket_p) picky_pid (IDs keyless_ticket))"
proof -
  have "zero_id \<noteq> replicate 32 CHR 0xAB" by (simp add: zero_id_def numeral_eq_Suc)
  moreover have "member_ids example_ticket = [zero_id]" "member_ids keyless_ticket = [replicate 32 CHR 0xAB]"
    by (simp_all add: member_ids_def example_ticket_def keyless_ticket_def)
  moreover have "tkMembers example_ticket \<noteq> []" "tkMembers keyless_ticket \<noteq> []"
    by (simp_all add: example_ticket_def keyless_ticket_def)
  ultimately show ?thesis
    using ticket_roundtrip [OF ticket_p.codec_ok, of example_ticket picky_pid]
      ticket_roundtrip [OF ticket_p.codec_ok, of keyless_ticket picky_pid]
    by (simp add: picky_pid_def hex_decode_encode)
qed

end
