(* ===== verification/Refglob.thy ===== *)
theory Refglob
  imports Prelude
begin

text \<open>
  Glob patterns over reference names (\<^verbatim>\<open>refglob/refglob.go\<close>). A text that is valid UTF-8 is the list
  of its runes, and a rune is a natural number. The source writes an RE2 expression piece by
  piece; the model keeps the list of these pieces, each with the meaning the expression has for
  \<^verbatim>\<open>regexp\<close> between the anchors for the beginning and the end of the text.
\<close>

section \<open>Definitions\<close>









subsection \<open>Character classes\<close>









subsection \<open>Patterns\<close>





subsection \<open>Matching\<close>






subsection \<open>The documented meaning\<close>





section \<open>Pieces\<close>


















section \<open>Compilation\<close>







section \<open>Properties\<close>



end
