(* ===== verification/Node_Refs.thy ===== *)
theory Node_Refs
  imports Catalog "HOL-Library.AList"
begin

text \<open>
  Reference requests on a node (\<^verbatim>\<open>node/refs.go\<close>, with \<^verbatim>\<open>checkEpoch\<close> of \<^verbatim>\<open>node/server.go\<close>): the
  completeness walk that has to find every object under a reference at enough of its owners
  before the reference is committed, and the handlers that answer clients. What the walk learns
  from other nodes and from the core library are the operations of \<open>walk_env\<close>; the calls of a
  batch that run in parallel are answered by these operations one by one. The placement is asked
  without keeping the tables it fills, which do not change its answers (\<open>Table_coherent\<close>).
\<close>

section \<open>Definitions\<close>

subsection \<open>Owners and their answers\<close>

definition MaxKeys :: nat where "MaxKeys = 8192"
definition MaxPageBytes :: nat where "MaxPageBytes = 4194304"

text \<open>
  \<open>weMissing\<close>: a has-and-pin request to a node, with the keys it lacks; \<open>weData\<close>: the payload of a
  key, or an error that is marked when a record was found and refused; \<open>weKids\<close>: the children
  that \<^verbatim>\<open>fstree.ChildKeys\<close> reads; \<open>weLeaf\<close>: blobs and attribute sets.
\<close>

record walk_env =
  weMissing :: "node_id \<Rightarrow> obj_key list \<Rightarrow> (unit, obj_key list) res"
  weData :: "obj_key \<Rightarrow> (bool, bytes) res"
  weKids :: "obj_key \<Rightarrow> bytes \<Rightarrow> obj_key list option"
  weLeaf :: "obj_key \<Rightarrow> bool"

definition owners_of :: "placement \<Rightarrow> obj_key \<Rightarrow> node_id list" where
  "owners_of pl k = fst (Placement_Owners pl k)"

definition pending_of :: "placement \<Rightarrow> obj_key \<Rightarrow> node_id list option" where
  "pending_of pl k = (case plPending pl of None \<Rightarrow> None | Some _ \<Rightarrow> Some (fst (PendingOwners pl k)))"

definition write_set_of :: "placement \<Rightarrow> obj_key \<Rightarrow> node_id list" where
  "write_set_of pl k = fst (WriteSet pl k)"

text \<open>The keys that a node is asked for.\<close>

definition asked :: "placement \<Rightarrow> obj_key list \<Rightarrow> node_id \<Rightarrow> obj_key list" where
  "asked pl keys nd = filter (\<lambda>k. nd \<in> set (write_set_of pl k)) keys"

definition confirms :: "walk_env \<Rightarrow> placement \<Rightarrow> obj_key list \<Rightarrow> obj_key \<Rightarrow> node_id \<Rightarrow> bool" where
  "confirms we pl keys k nd =
    (if asked pl keys nd = [] then False
     else case weMissing we nd (asked pl keys nd) of
            Inl _ \<Rightarrow> False
          | Inr lacking \<Rightarrow> k \<notin> set lacking)"

definition count_holders :: "walk_env \<Rightarrow> placement \<Rightarrow> obj_key list \<Rightarrow> obj_key \<Rightarrow> node_id list \<Rightarrow> int" where
  "count_holders we pl keys k nds = int (length (filter (confirms we pl keys k) nds))"

definition is_short :: "walk_env \<Rightarrow> placement \<Rightarrow> int \<Rightarrow> obj_key list \<Rightarrow> obj_key \<Rightarrow> bool" where
  "is_short we pl minR keys k =
    (if count_holders we pl keys k (owners_of pl k) < min minR (int (length (owners_of pl k))) then True
     else case pending_of pl k of
            None \<Rightarrow> False
          | Some po \<Rightarrow> count_holders we pl keys k po < min minR (int (length po)))"

definition negotiateComplete :: "walk_env \<Rightarrow> placement \<Rightarrow> obj_key list \<Rightarrow> int \<Rightarrow> obj_key list" where
  "negotiateComplete we pl keys minR = filter (is_short we pl minR keys) keys"

subsection \<open>The walk\<close>

datatype walk_err = ErrMalformed | ErrUnread obj_key

record walk_state =
  wsSeen :: "obj_key list"
  wsToCheck :: "obj_key list"
  wsUnread :: "obj_key list"
  wsMissing :: "obj_key list"
  wsShort :: nat

definition walk_flush :: "walk_env \<Rightarrow> placement \<Rightarrow> int \<Rightarrow> walk_state \<Rightarrow> (walk_err, walk_state) res" where
  "walk_flush we pl minR s =
    (if wsToCheck s = [] then Inr s
     else let short = negotiateComplete we pl (wsToCheck s) minR;
              s' = s\<lparr>wsMissing := wsMissing s @ take (1024 - length (wsMissing s)) short, wsShort := wsShort s + length short\<rparr>
          in case List.find (\<lambda>k. k \<in> set (wsUnread s) \<and> k \<notin> set short) (wsToCheck s) of
               Some k \<Rightarrow> Inl (ErrUnread k)
             | None \<Rightarrow> Inr (s'\<lparr>wsToCheck := []\<rparr>))"

text \<open>The new keys of the frontier, and those of them that have to be read.\<close>

fun walk_mark :: "walk_env \<Rightarrow> (obj_key \<Rightarrow> bool) \<Rightarrow> obj_key list \<Rightarrow> walk_state \<Rightarrow> walk_state \<times> obj_key list" where
  "walk_mark we cached [] s = (s, [])"
| "walk_mark we cached (k # ks) s =
    (if k \<in> set (wsSeen s) then walk_mark we cached ks s
     else let (s', interior) = walk_mark we cached ks (s\<lparr>wsSeen := wsSeen s @ [k], wsToCheck := wsToCheck s @ [k]\<rparr>)
          in (s', if weLeaf we k \<or> cached k then interior else k # interior))"

fun walk_expand :: "walk_env \<Rightarrow> obj_key list \<Rightarrow> walk_state \<Rightarrow> (walk_err, walk_state \<times> obj_key list) res" where
  "walk_expand we [] s = Inr (s, [])"
| "walk_expand we (k # ks) s =
    (case weData we k of
       Inl refused \<Rightarrow> if refused then Inl ErrMalformed else walk_expand we ks (s\<lparr>wsUnread := wsUnread s @ [k]\<rparr>)
     | Inr data \<Rightarrow>
         (case weKids we k data of
            None \<Rightarrow> Inl ErrMalformed
          | Some kids \<Rightarrow>
              (case walk_expand we ks s of
                 Inl e \<Rightarrow> Inl e
               | Inr (s', next) \<Rightarrow> Inr (s', kids @ next))))"

definition walk_turn :: "walk_env \<Rightarrow> placement \<Rightarrow> int \<Rightarrow> (obj_key \<Rightarrow> bool) \<Rightarrow> obj_key list \<Rightarrow> walk_state \<Rightarrow>
    (walk_err, walk_state \<times> obj_key list) res" where
  "walk_turn we pl minR cached frontier s =
    (let (s, interior) = walk_mark we cached frontier s
     in case walk_expand we interior s of
          Inl e \<Rightarrow> Inl e
        | Inr (s, next) \<Rightarrow>
            if length (wsToCheck s) \<ge> MaxKeys
            then (case walk_flush we pl minR s of Inl e \<Rightarrow> Inl e | Inr s \<Rightarrow> Inr (s, next))
            else Inr (s, next))"

fun walk_loop :: "nat \<Rightarrow> walk_env \<Rightarrow> placement \<Rightarrow> int \<Rightarrow> (obj_key \<Rightarrow> bool) \<Rightarrow> obj_key list \<Rightarrow> walk_state \<Rightarrow>
    (walk_err, walk_state) res option" where
  "walk_loop 0 we pl minR cached frontier s = None"
| "walk_loop (Suc n) we pl minR cached frontier s =
    (if frontier = [] then Some (walk_flush we pl minR s)
     else case walk_turn we pl minR cached frontier s of
            Inl e \<Rightarrow> Some (Inl e)
          | Inr (s, next) \<Rightarrow> walk_loop n we pl minR cached next s)"

text \<open>
  The cache of verified subtrees: an entry younger than half the lifetime of a put spares the
  descent. Times are nanoseconds; an absent entry is the zero time.
\<close>

type_synonym complete_cache = "(obj_key \<times> int) list"

definition cached_at :: "complete_cache \<Rightarrow> int \<Rightarrow> obj_key \<Rightarrow> bool" where
  "cached_at cache cutoff k = (case map_of cache k of None \<Rightarrow> False | Some t \<Rightarrow> t > cutoff)"

definition empty_walk :: walk_state where
  "empty_walk = \<lparr> wsSeen = [], wsToCheck = [], wsUnread = [], wsMissing = [], wsShort = 0 \<rparr>"

text \<open>\<open>start\<close> and \<open>finish\<close>: the clock before and after the walk; the size of the cache is bounded.\<close>

definition walkComplete :: "nat \<Rightarrow> walk_env \<Rightarrow> placement \<Rightarrow> int \<Rightarrow> int \<Rightarrow> int \<Rightarrow> complete_cache \<Rightarrow> int \<Rightarrow> obj_key \<Rightarrow>
    ((walk_err, obj_key list \<times> nat) res \<times> complete_cache) option" where
  "walkComplete n we pl putTTL start finish cache minR rt =
    (case walk_loop n we pl minR (cached_at cache (start - putTTL div 2)) [rt] empty_walk of
       None \<Rightarrow> None
     | Some (Inl e) \<Rightarrow> Some (Inl e, cache)
     | Some (Inr s) \<Rightarrow>
         (let cache' = fold (\<lambda>k. AList.update k finish) (filter (\<lambda>k. \<not> weLeaf we k) (wsSeen s)) cache
          in Some (Inr (wsMissing s, wsShort s),
               if wsShort s \<noteq> 0 then cache
               else if length cache' > 1048576 then [] else cache')))"

subsection \<open>Requests and replies\<close>

text \<open>Reference records of the core library, and its checks of names and keys.\<close>

record ref_rec =
  rrName :: string
  rrKey :: bytes
  rrCreatedAt :: int
  rrUser :: string

record ref_ops =
  rfDecode :: "bytes \<Rightarrow> ref_rec option"
  rfValidName :: "string \<Rightarrow> bool"
  rfValidKey :: "bytes \<Rightarrow> bool"

text \<open>The fields of a request that the handlers read; an optional byte string is \<open>None\<close> where Go has nil.\<close>

record ref_msg =
  rmName :: string
  rmRecord :: bytes
  rmForce :: bool
  rmHasExpected :: bool
  rmExpectedVersion :: "bytes option"
  rmExpectedOld :: "bytes option"
  rmVersion :: "bytes option"
  rmClusterID :: bytes
  rmIncarnation :: u64
  rmEpoch :: u64
  rmPrefix :: string
  rmAfter :: string

record ref_info =
  riName :: string
  riKey :: bytes
  riVersion :: bytes
  riCreatedAt :: int
  riUser :: string

datatype ref_reply =
    ReplyErr string | ReplyStale | ReplyIncomplete "obj_key list" nat
  | ReplyMismatch bytes bool "bytes option" "bytes option"
  | ReplyRef bytes bytes | ReplyRefs "ref_info list" "string option" | ReplyOK "bytes option" "bytes option"

text \<open>A hint to the watchers: the name, the record or \<open>None\<close> for a deletion, and the version.\<close>

record ref_hint =
  rhName :: string
  rhRecord :: "bytes option"
  rhVersion :: bytes

definition CodeUnknownRef :: string where "CodeUnknownRef = ''unknown-ref''"
definition CodeTimeout :: string where "CodeTimeout = ''timeout''"
definition CodeUnavailable :: string where "CodeUnavailable = ''unavailable''"

definition keyOfRecord :: "ref_ops \<Rightarrow> bytes \<Rightarrow> bytes" where
  "keyOfRecord ops rec = (case rfDecode ops rec of None \<Rightarrow> [] | Some r \<Rightarrow> rrKey r)"

definition condOf :: "ref_msg \<Rightarrow> cond" where
  "condOf m =
    (let c = \<lparr> cdExpectedVersion = None, cdVersioned = False, cdExpectedOld = None, cdKeyed = False, cdForce = rmForce m \<rparr>
     in if \<not> rmHasExpected m then c
        else let c = (if rmExpectedVersion m \<noteq> None \<or> rmExpectedOld m = None \<and> rmVersion m = None
                      then c\<lparr>cdVersioned := True, cdExpectedVersion := rmExpectedVersion m\<rparr> else c)
             in if rmExpectedOld m \<noteq> None
                then c\<lparr>cdKeyed := True, cdExpectedOld := rmExpectedOld m, cdVersioned := False\<rparr> else c)"

text \<open>\<open>deadline\<close>: whether a context error is an exceeded deadline.\<close>

definition catalogErr :: "ref_ops \<Rightarrow> bool \<Rightarrow> 'e cat_err perr \<Rightarrow> ref_reply" where
  "catalogErr ops deadline err =
    (case err of
       ChangeError (ErrMismatch cm) \<Rightarrow>
         ReplyMismatch (cmVersion cm) (cmHasCurrent cm) (map_option rvRecord (cmCurrent cm))
           (map_option (\<lambda>rv. keyOfRecord ops (rvRecord rv)) (cmCurrent cm))
     | ChangeError (ErrUnknownRef _) \<Rightarrow> ReplyErr CodeUnknownRef
     | CtxError \<Rightarrow> if deadline then ReplyErr CodeTimeout else ReplyErr CodeUnavailable
     | RemoteError e \<Rightarrow> if reCode e = CodeExpired then ReplyErr CodeTimeout else ReplyErr CodeUnavailable
     | _ \<Rightarrow> ReplyErr CodeUnavailable)"

datatype epoch_check = EpochOK | EpochStale | EpochRefused

text \<open>\<open>v\<close> and \<open>nv\<close>: the node's view before and after the refresh that a newer epoch triggers.\<close>

definition checkEpoch :: "view option \<Rightarrow> view \<Rightarrow> ref_msg \<Rightarrow> epoch_check" where
  "checkEpoch v nv m =
    (case v of
       None \<Rightarrow> EpochStale
     | Some v \<Rightarrow>
         if rmClusterID m \<noteq> [] \<and> rmClusterID m \<noteq> vClusterID v then EpochRefused
         else let c = Compare v (rmIncarnation m) (rmEpoch m)
              in if c > 0 then EpochStale
                 else if c < 0
                 then if Compare nv (rmIncarnation m) (rmEpoch m) < 0 then EpochRefused
                      else if Compare nv (rmIncarnation m) (rmEpoch m) > 0 then EpochStale
                      else EpochOK
                 else EpochOK)"

definition handleRefGet :: "nat \<Rightarrow> cat_codecs \<Rightarrow> 'w penv \<Rightarrow> ref_ops \<Rightarrow> bool \<Rightarrow> ref_msg \<Rightarrow> 'w proposer \<Rightarrow>
    (ref_reply \<times> 'w proposer) option" where
  "handleRefGet n cc env ops deadline m p =
    (if \<not> rfValidName ops (rmName m) then Some (ReplyErr CodeBadRequest, p)
     else case RefGet n cc env (rmName m) p of
            None \<Rightarrow> None
          | Some (Inl (err :: unit cat_err perr), p) \<Rightarrow> Some (catalogErr ops deadline err, p)
          | Some (Inr rv, p) \<Rightarrow> Some (ReplyRef (rvRecord rv) (rvVersion rv), p))"

text \<open>The entries of a page up to the size limit; the second result is where the next page starts.\<close>

fun list_page :: "ref_ops \<Rightarrow> ref_entry list \<Rightarrow> nat \<Rightarrow> string \<Rightarrow> ref_info list \<times> string" where
  "list_page ops [] sz nx = ([], nx)"
| "list_page ops (e # es) sz nx =
    (case rfDecode ops (rvRecord (reValue' e)) of
       None \<Rightarrow> list_page ops es sz nx
     | Some r \<Rightarrow>
         (let info = \<lparr> riName = reName e, riKey = rrKey r, riVersion = rvVersion (reValue' e),
                riCreatedAt = rrCreatedAt r, riUser = rrUser r \<rparr>;
              sz = sz + length (reName e) + 32 + 40 + length (rrUser r) + 16
          in if sz > MaxPageBytes then ([info], reName e)
             else let (infos, nx) = list_page ops es sz nx in (info # infos, nx)))"

definition handleRefList :: "nat \<Rightarrow> cat_codecs \<Rightarrow> 'w penv \<Rightarrow> ref_ops \<Rightarrow> bool \<Rightarrow> ref_msg \<Rightarrow> 'w proposer \<Rightarrow>
    (ref_reply \<times> 'w proposer) option" where
  "handleRefList n cc env ops deadline m p =
    (case RefList n cc env (rmPrefix m) (rmAfter m) 20000 p of
       None \<Rightarrow> None
     | Some (Inl (err :: unit cat_err perr), p) \<Rightarrow> Some (catalogErr ops deadline err, p)
     | Some (Inr (entries, nx), p) \<Rightarrow>
         (let (infos, nx) = list_page ops entries 0 nx
          in Some (ReplyRefs infos (if nx \<noteq> [] then Some nx else None), p)))"

text \<open>The tombstone's ballot is purged later; \<open>t\<close> is the clock of the deletion.\<close>

definition handleRefDelete :: "nat \<Rightarrow> cat_codecs \<Rightarrow> 'w penv \<Rightarrow> ref_ops \<Rightarrow> bool \<Rightarrow> int \<Rightarrow> ref_msg \<Rightarrow> 'w proposer \<Rightarrow>
    (ref_reply \<times> ref_hint list \<times> 'w proposer) option" where
  "handleRefDelete n cc env ops deadline t m p =
    (if \<not> rfValidName ops (rmName m) then Some (ReplyErr CodeBadRequest, [], p)
     else case RefDelete n cc env t (rmName m) (condOf m) (keyOfRecord ops) p of
            None \<Rightarrow> None
          | Some (Inl (err :: unit cat_err perr), p) \<Rightarrow> Some (catalogErr ops deadline err, [], p)
          | Some (Inr b, p) \<Rightarrow>
              Some (ReplyOK None None,
                if IsZero b then [] else [\<lparr> rhName = rmName m, rhRecord = None, rhVersion = Bytes b \<rparr>], p))"

text \<open>
  What a put reads from the node: the lifetime of a put, the clock when the request came, when the
  walk started and when it ended, the views for the epoch check, the placement and the cache. The
  cache is the one at the start of the walk; the source looks it up again for each key, so that it
  may also find entries that another put makes during the walk.
\<close>

record put_ctx =
  pcTTL :: int
  pcStart :: int
  pcWalk :: int
  pcFinish :: int
  pcView :: "view option"
  pcRefreshed :: view
  pcPlacement :: placement
  pcCache :: complete_cache

definition valid_put :: "ref_ops \<Rightarrow> ref_msg \<Rightarrow> ref_rec option" where
  "valid_put ops m =
    (case rfDecode ops (rmRecord m) of
       None \<Rightarrow> None
     | Some rec \<Rightarrow>
         if length (rrKey rec) \<noteq> 32 then None
         else if \<not> rfValidName ops (rrName rec) then None
         else if rmName m \<noteq> [] \<and> rmName m \<noteq> rrName rec then None
         else if \<not> rfValidKey ops (rrKey rec) then None
         else Some rec)"

definition handleRefPut :: "nat \<Rightarrow> cat_codecs \<Rightarrow> 'w penv \<Rightarrow> ref_ops \<Rightarrow> walk_env \<Rightarrow> bool \<Rightarrow> put_ctx \<Rightarrow> ref_msg \<Rightarrow> 'w proposer \<Rightarrow>
    (ref_reply \<times> ref_hint list \<times> complete_cache \<times> 'w proposer) option" where
  "handleRefPut n cc env ops we deadline pc m p =
    (case valid_put ops m of
       None \<Rightarrow> Some (ReplyErr CodeBadRequest, [], pcCache pc, p)
     | Some rec \<Rightarrow>
         if checkEpoch (pcView pc) (pcRefreshed pc) m = EpochStale then Some (ReplyStale, [], pcCache pc, p)
         else case walkComplete n we (pcPlacement pc) (pcTTL pc) (pcWalk pc) (pcFinish pc) (pcCache pc)
                     (int (unat (vMinReplicas (plView (pcPlacement pc))))) (rrKey rec) of
                None \<Rightarrow> None
              | Some (Inl ErrMalformed, cache) \<Rightarrow> Some (ReplyErr CodeBadRequest, [], cache, p)
              | Some (Inl (ErrUnread _), cache) \<Rightarrow> Some (ReplyErr CodeUnavailable, [], cache, p)
              | Some (Inr (missing, short), cache) \<Rightarrow>
                  if missing \<noteq> [] then Some (ReplyIncomplete (take 64 missing) short, [], cache, p)
                  else case RefPut n cc env (rrName rec) (rmRecord m) (condOf m) (pcStart pc + pcTTL pc) (keyOfRecord ops) p of
                         None \<Rightarrow> None
                       | Some (Inl (err :: unit cat_err perr), p) \<Rightarrow> Some (catalogErr ops deadline err, [], cache, p)
                       | Some (Inr version, p) \<Rightarrow>
                           Some (ReplyOK (Some (rrKey rec)) (Some version),
                             [\<lparr> rhName = rrName rec, rhRecord = Some (rmRecord m), rhVersion = version \<rparr>], cache, p))"

text \<open>\<^verbatim>\<open>RefPutLocal\<close>: the in-process form, without the checks of a request; a key that is too short for an
  array of 32 bytes ends in a panic.\<close>

datatype local_put_err = LocalPanic | LocalDecode | LocalWalk walk_err | LocalIncomplete nat | LocalCatalog "unit cat_err perr"

definition RefPutLocal :: "nat \<Rightarrow> cat_codecs \<Rightarrow> 'w penv \<Rightarrow> ref_ops \<Rightarrow> walk_env \<Rightarrow> put_ctx \<Rightarrow> string \<Rightarrow> bytes \<Rightarrow> cond \<Rightarrow> 'w proposer \<Rightarrow>
    ((local_put_err, bytes) res \<times> ref_hint list \<times> complete_cache \<times> 'w proposer) option" where
  "RefPutLocal n cc env ops we pc name rec c p =
    (case rfDecode ops rec of
       None \<Rightarrow> Some (Inl LocalDecode, [], pcCache pc, p)
     | Some r \<Rightarrow>
         if length (rrKey r) < 32 then Some (Inl LocalPanic, [], pcCache pc, p)
         else (case walkComplete n we (pcPlacement pc) (pcTTL pc) (pcWalk pc) (pcFinish pc) (pcCache pc)
                 (int (unat (vMinReplicas (plView (pcPlacement pc))))) (take 32 (rrKey r)) of
            None \<Rightarrow> None
          | Some (Inl e, cache) \<Rightarrow> Some (Inl (LocalWalk e), [], cache, p)
          | Some (Inr (missing, short), cache) \<Rightarrow>
              if short > 0 then Some (Inl (LocalIncomplete short), [], cache, p)
              else case RefPut n cc env name rec c (pcFinish pc + pcTTL pc) (keyOfRecord ops) p of
                     None \<Rightarrow> None
                   | Some (Inl err, p) \<Rightarrow> Some (Inl (LocalCatalog err), [], cache, p)
                   | Some (Inr version, p) \<Rightarrow>
                       Some (Inr version, [\<lparr> rhName = name, rhRecord = Some rec, rhVersion = version \<rparr>], cache, p)))"

end
