(* ===== verification/Node_Refs_Props.thy ===== *)
theory Node_Refs_Props
  imports Node_Refs Catalog_Props Proposer_Props
begin

text \<open>
  What a committed reference guarantees: everything under it was found at enough owners, and the
  walk that establishes this ends.
\<close>

section \<open>Definitions\<close>

text \<open>The keys under a reference, without what lies below a subtree that the cache vouches for.\<close>

inductive under_ref :: "walk_env \<Rightarrow> (obj_key \<Rightarrow> bool) \<Rightarrow> obj_key \<Rightarrow> obj_key \<Rightarrow> bool" for we cached rt where
  here: "under_ref we cached rt rt"
| child: "under_ref we cached rt k \<Longrightarrow> \<not> weLeaf we k \<Longrightarrow> \<not> cached k \<Longrightarrow> weData we k = Inr data \<Longrightarrow>
    weKids we k data = Some kids \<Longrightarrow> c \<in> set kids \<Longrightarrow> under_ref we cached rt c"

text \<open>A key that enough of its owners confirmed, in a request that asked for it.\<close>

definition replicated :: "walk_env \<Rightarrow> placement \<Rightarrow> int \<Rightarrow> obj_key \<Rightarrow> bool" where
  "replicated we pl minR k \<longleftrightarrow> (\<exists>keys. k \<in> set keys \<and>
     min minR (int (length (owners_of pl k))) \<le> count_holders we pl keys k (owners_of pl k) \<and>
     (\<forall>po. pending_of pl k = Some po \<longrightarrow> min minR (int (length po)) \<le> count_holders we pl keys k po))"

definition readable :: "walk_env \<Rightarrow> obj_key \<Rightarrow> obj_key list \<Rightarrow> bool" where
  "readable we k kids \<longleftrightarrow> (\<exists>data. weData we k = Inr data \<and> weKids we k data = Some kids)"

text \<open>What holds between two turns of the walk as long as no key was found short.\<close>

definition walk_inv :: "walk_env \<Rightarrow> placement \<Rightarrow> int \<Rightarrow> (obj_key \<Rightarrow> bool) \<Rightarrow> obj_key \<Rightarrow> obj_key list \<Rightarrow> walk_state \<Rightarrow> bool" where
  "walk_inv we pl minR cached rt frontier s \<longleftrightarrow> wsShort s = 0 \<longrightarrow>
     rt \<in> set (wsSeen s) \<union> set frontier \<and>
     (\<forall>k \<in> set (wsSeen s). k \<in> set (wsToCheck s) \<or> replicated we pl minR k) \<and>
     set (wsUnread s) \<subseteq> set (wsToCheck s) \<and>
     (\<forall>k \<in> set (wsSeen s). weLeaf we k \<or> cached k \<or> k \<in> set (wsUnread s) \<or>
        (\<exists>kids. readable we k kids \<and> set kids \<subseteq> set (wsSeen s) \<union> set frontier))"

text \<open>Inputs for the examples: two members that hold everything, and a tree with one child.\<close>

definition ex_root :: obj_key where "ex_root = CHR 0x01 # replicate 31 CHR 0x00"
definition ex_leaf :: obj_key where "ex_leaf = CHR 0x02 # replicate 31 CHR 0x00"

definition ex_walk :: walk_env where
  "ex_walk = \<lparr> weMissing = (\<lambda>_ _. Inr []), weData = (\<lambda>k. Inr k),
     weKids = (\<lambda>k data. Some (if k = ex_root then [ex_leaf] else [])), weLeaf = (\<lambda>k. k = ex_leaf) \<rparr>"

definition ex_ref_ops :: ref_ops where
  "ex_ref_ops = \<lparr> rfDecode = (\<lambda>b. Some \<lparr> rrName = ''r'', rrKey = b, rrCreatedAt = 0, rrUser = [] \<rparr>),
     rfValidName = (\<lambda>s. s \<noteq> []), rfValidKey = (\<lambda>_. True) \<rparr>"

definition ex_ref_msg :: ref_msg where
  "ex_ref_msg = \<lparr> rmName = ''r'', rmRecord = ex_root, rmForce = True, rmHasExpected = False, rmExpectedVersion = None,
     rmExpectedOld = None, rmVersion = None, rmClusterID = [], rmIncarnation = vIncarnation example_view,
     rmEpoch = vEpoch example_view, rmPrefix = [], rmAfter = [] \<rparr>"

definition ex_put_ctx :: "complete_cache \<Rightarrow> put_ctx" where
  "ex_put_ctx cache = \<lparr> pcTTL = 100, pcStart = 1000, pcWalk = 1000, pcFinish = 1001, pcView = Some example_view, pcRefreshed = example_view,
     pcPlacement = NewPlacement (drop 24) example_view, pcCache = cache \<rparr>"

section \<open>The walk\<close>

lemma not_short: "k \<in> set keys \<Longrightarrow> \<not> is_short we pl minR keys k \<Longrightarrow> replicated we pl minR k"
  unfolding replicated_def by (rule exI [of _ keys]) (auto simp: is_short_def not_less split: if_splits option.splits)

lemma walk_flush_inv:
  assumes "walk_flush we pl minR s = Inr s'" "walk_inv we pl minR cached rt frontier s"
  shows "walk_inv we pl minR cached rt frontier s' \<and> (wsShort s' = 0 \<longrightarrow> wsToCheck s' = [] \<and> wsUnread s' = [])"
proof (cases "wsToCheck s = []")
  case True
  with assms show ?thesis by (auto simp: walk_flush_def walk_inv_def)
next
  case False
  let ?short = "negotiateComplete we pl (wsToCheck s) minR"
  from assms(1) False have none: "List.find (\<lambda>k. k \<in> set (wsUnread s) \<and> k \<notin> set ?short) (wsToCheck s) = None"
    and s': "wsShort s' = wsShort s + length ?short" "wsSeen s' = wsSeen s" "wsToCheck s' = []" "wsUnread s' = wsUnread s"
    by (auto simp: walk_flush_def Let_def split: option.splits)
  show ?thesis
  proof (cases "wsShort s' = 0")
    case True
    then have zero: "wsShort s = 0" "?short = []" using s'(1) by auto
    then have "replicated we pl minR k" if "k \<in> set (wsToCheck s)" for k
      using that by (auto simp: negotiateComplete_def filter_empty_conv intro: not_short)
    moreover have "wsUnread s' = []"
    proof -
      have "\<forall>k \<in> set (wsToCheck s). k \<notin> set (wsUnread s)" using none zero(2) by (auto simp: find_None_iff)
      moreover have "set (wsUnread s) \<subseteq> set (wsToCheck s)" using assms(2) zero(1) by (simp add: walk_inv_def)
      ultimately have "k \<notin> set (wsUnread s)" for k by blast
      then show ?thesis using s'(4) by (cases "wsUnread s") auto
    qed
    ultimately show ?thesis using assms(2) zero(1) s' by (auto simp: walk_inv_def)
  qed (simp add: walk_inv_def)
qed

lemma walk_mark_spec:
  "walk_mark we cached ks s = (s', interior) \<Longrightarrow>
    set (wsSeen s') = set (wsSeen s) \<union> set ks \<and> wsShort s' = wsShort s \<and> wsUnread s' = wsUnread s \<and>
    set (wsToCheck s') = set (wsToCheck s) \<union> (set ks - set (wsSeen s)) \<and>
    set interior = {k \<in> set ks. k \<notin> set (wsSeen s) \<and> \<not> weLeaf we k \<and> \<not> cached k}"
proof (induction ks arbitrary: s s' interior)
  case (Cons k ks)
  show ?case
  proof (cases "k \<in> set (wsSeen s)")
    case True
    with Cons.prems have "walk_mark we cached ks s = (s', interior)" by simp
    with Cons.IH True show ?thesis by auto
  next
    case False
    let ?s = "s\<lparr>wsSeen := wsSeen s @ [k], wsToCheck := wsToCheck s @ [k]\<rparr>"
    obtain i where i: "walk_mark we cached ks ?s = (s', i)" "interior = (if weLeaf we k \<or> cached k then i else k # i)"
      using Cons.prems False by (auto simp: Let_def split: prod.splits)
    from Cons.IH [OF i(1)] False i(2) show ?thesis by auto
  qed
qed simp

lemma walk_expand_spec:
  "walk_expand we ks s = Inr (s', nx) \<Longrightarrow>
    wsSeen s' = wsSeen s \<and> wsToCheck s' = wsToCheck s \<and> wsShort s' = wsShort s \<and>
    set (wsUnread s') \<subseteq> set (wsUnread s) \<union> set ks \<and> set (wsUnread s) \<subseteq> set (wsUnread s') \<and>
    (\<forall>k \<in> set ks. k \<in> set (wsUnread s') \<or> (\<exists>kids. readable we k kids \<and> set kids \<subseteq> set nx))"
proof (induction ks arbitrary: s s' nx)
  case (Cons k ks)
  show ?case
  proof (cases "weData we k")
    case (Inl refused)
    with Cons.prems have "walk_expand we ks (s\<lparr>wsUnread := wsUnread s @ [k]\<rparr>) = Inr (s', nx)" by (simp split: if_splits)
    from Cons.IH [OF this] show ?thesis by auto
  next
    case (Inr data)
    with Cons.prems obtain kids nx' where k: "weKids we k data = Some kids" "walk_expand we ks s = Inr (s', nx')" "nx = kids @ nx'"
      by (auto split: option.splits sum.splits prod.splits)
    then have "readable we k kids \<and> set kids \<subseteq> set nx" using Inr by (auto simp: readable_def)
    moreover have "\<forall>x \<in> set ks. x \<in> set (wsUnread s') \<or> (\<exists>kids. readable we x kids \<and> set kids \<subseteq> set nx)"
      using Cons.IH [OF k(2)] k(3) by (metis le_supI2 set_append)
    ultimately have "\<forall>x \<in> set (k # ks). x \<in> set (wsUnread s') \<or> (\<exists>kids. readable we x kids \<and> set kids \<subseteq> set nx)"
      by auto
    moreover have "wsSeen s' = wsSeen s \<and> wsToCheck s' = wsToCheck s \<and> wsShort s' = wsShort s \<and>
        set (wsUnread s') \<subseteq> set (wsUnread s) \<union> set (k # ks) \<and> set (wsUnread s) \<subseteq> set (wsUnread s')"
      using Cons.IH [OF k(2)] by auto
    ultimately show ?thesis by blast
  qed
qed simp

lemma walk_turn_inv:
  assumes "walk_turn we pl minR cached frontier s = Inr (s', nx)" "walk_inv we pl minR cached rt frontier s"
  shows "walk_inv we pl minR cached rt nx s'"
proof -
  obtain s1 interior where m: "walk_mark we cached frontier s = (s1, interior)" by (cases "walk_mark we cached frontier s")
  with assms(1) obtain s2 where e: "walk_expand we interior s1 = Inr (s2, nx)"
    and f: "s' = s2 \<or> walk_flush we pl minR s2 = Inr s'"
    by (auto simp: walk_turn_def split: sum.splits if_splits prod.splits)
  note ms = walk_mark_spec [OF m] and es = walk_expand_spec [OF e]
  have "walk_inv we pl minR cached rt nx s2"
    unfolding walk_inv_def
  proof (intro impI conjI ballI)
    assume "wsShort s2 = 0"
    with ms es assms(2) have inv: "rt \<in> set (wsSeen s) \<union> set frontier"
      "\<forall>k \<in> set (wsSeen s). k \<in> set (wsToCheck s) \<or> replicated we pl minR k" "set (wsUnread s) \<subseteq> set (wsToCheck s)"
      "\<forall>k \<in> set (wsSeen s). weLeaf we k \<or> cached k \<or> k \<in> set (wsUnread s) \<or>
        (\<exists>kids. readable we k kids \<and> set kids \<subseteq> set (wsSeen s) \<union> set frontier)"
      unfolding walk_inv_def by auto
    show "rt \<in> set (wsSeen s2) \<union> set nx" using inv(1) ms es by auto
    show "set (wsUnread s2) \<subseteq> set (wsToCheck s2)" using inv(3) ms es by auto
    fix k assume k: "k \<in> set (wsSeen s2)"
    show "k \<in> set (wsToCheck s2) \<or> replicated we pl minR k" using k inv(2) ms es by auto
    show "weLeaf we k \<or> cached k \<or> k \<in> set (wsUnread s2) \<or> (\<exists>kids. readable we k kids \<and> set kids \<subseteq> set (wsSeen s2) \<union> set nx)"
    proof (cases "k \<in> set (wsSeen s)")
      case True
      with inv(4) ms es show ?thesis by (metis (no_types, lifting) le_supI1 subsetD)
    next
      case False
      then have "k \<in> set interior \<or> weLeaf we k \<or> cached k" using k ms es by auto
      with es show ?thesis by (meson le_supI2)
    qed
  qed
  with f walk_flush_inv show ?thesis by blast
qed

lemma walk_flush_missing:
  assumes "walk_flush we pl minR s = Inr s'" "wsMissing s = [] \<longrightarrow> wsShort s = 0"
  shows "wsMissing s' = [] \<longrightarrow> wsShort s' = 0"
  using assms by (auto simp: walk_flush_def Let_def split: if_splits option.splits)

lemma walk_turn_missing:
  assumes "walk_turn we pl minR cached frontier s = Inr (s', nx)" "wsMissing s = [] \<longrightarrow> wsShort s = 0"
  shows "wsMissing s' = [] \<longrightarrow> wsShort s' = 0"
proof -
  have mark: "walk_mark we cached ks s = (s', i) \<Longrightarrow> wsMissing s' = wsMissing s \<and> wsShort s' = wsShort s" for ks s s' i
    by (induction ks arbitrary: s s' i) (auto simp: Let_def split: if_splits prod.splits)
  have expand: "walk_expand we ks s = Inr (s', i) \<Longrightarrow> wsMissing s' = wsMissing s \<and> wsShort s' = wsShort s" for ks s s' i
    by (induction ks arbitrary: s s' i) (auto split: if_splits sum.splits option.splits)
  show ?thesis using assms
    by (auto simp: walk_turn_def split: prod.splits sum.splits if_splits dest!: mark expand dest: walk_flush_missing)
qed

lemma walk_loop_inv:
  "walk_loop n we pl minR cached frontier s = Some (Inr s') \<Longrightarrow> walk_inv we pl minR cached rt frontier s \<Longrightarrow>
    walk_inv we pl minR cached rt [] s' \<and> (wsShort s' = 0 \<longrightarrow> wsToCheck s' = [] \<and> wsUnread s' = [])"
proof (induction n arbitrary: frontier s)
  case (Suc n)
  show ?case
  proof (cases "frontier = []")
    case True
    with Suc.prems walk_flush_inv show ?thesis by force
  next
    case False
    with Suc.prems(1) obtain s1 nx where "walk_turn we pl minR cached frontier s = Inr (s1, nx)"
      "walk_loop n we pl minR cached nx s1 = Some (Inr s')" by (auto split: sum.splits)
    with Suc.IH walk_turn_inv [OF _ Suc.prems(2)] show ?thesis by blast
  qed
qed simp

lemma walk_loop_missing:
  "walk_loop n we pl minR cached frontier s = Some (Inr s') \<Longrightarrow> wsMissing s = [] \<longrightarrow> wsShort s = 0 \<Longrightarrow>
    wsMissing s' = [] \<longrightarrow> wsShort s' = 0"
proof (induction n arbitrary: frontier s)
  case (Suc n)
  show ?case
  proof (cases "frontier = []")
    case True
    with Suc.prems show ?thesis using walk_flush_missing by (metis option.inject walk_loop.simps(2))
  next
    case False
    with Suc.prems(1) obtain s1 nx where t: "walk_turn we pl minR cached frontier s = Inr (s1, nx)"
      and l: "walk_loop n we pl minR cached nx s1 = Some (Inr s')" by (auto split: sum.splits)
    show ?thesis by (rule Suc.IH [OF l walk_turn_missing [OF t Suc.prems(2)]])
  qed
qed simp

lemma walk_done:
  assumes "walk_loop n we pl minR cached [rt] empty_walk = Some (Inr s)" "wsShort s = 0" "under_ref we cached rt k"
  shows "replicated we pl minR k \<and> (weLeaf we k \<or> cached k \<or> (\<exists>kids. readable we k kids))"
proof -
  have "walk_inv we pl minR cached rt [rt] empty_walk" by (simp add: walk_inv_def empty_walk_def)
  from walk_loop_inv [OF assms(1) this] assms(2) have inv: "rt \<in> set (wsSeen s)"
    "\<forall>k \<in> set (wsSeen s). replicated we pl minR k"
    "\<forall>k \<in> set (wsSeen s). weLeaf we k \<or> cached k \<or> (\<exists>kids. readable we k kids \<and> set kids \<subseteq> set (wsSeen s))"
    by (auto simp: walk_inv_def)
  from assms(3) have "k \<in> set (wsSeen s)"
  proof induction
    case (child k data kids c)
    from bspec [OF inv(3) child.IH] child.hyps show ?case by (auto simp: readable_def)
  qed (rule inv(1))
  with inv(2,3) show ?thesis by blast
qed

section \<open>Termination\<close>

lemma walk_expand_closed:
  assumes "\<And>k data kids. k \<in> U \<Longrightarrow> weData we k = Inr data \<Longrightarrow> weKids we k data = Some kids \<Longrightarrow> set kids \<subseteq> U"
  shows "walk_expand we ks s = Inr (s', nx) \<Longrightarrow> set ks \<subseteq> U \<Longrightarrow> set nx \<subseteq> U \<and> (ks = [] \<longrightarrow> nx = [])"
proof (induction ks arbitrary: s s' nx)
  case (Cons k ks)
  show ?case
  proof (cases "weData we k")
    case (Inl refused)
    with Cons.prems have "walk_expand we ks (s\<lparr>wsUnread := wsUnread s @ [k]\<rparr>) = Inr (s', nx)" by (simp split: if_splits)
    with Cons.IH Cons.prems(2) show ?thesis by auto
  next
    case (Inr data)
    with Cons.prems obtain kids nx' where "weKids we k data = Some kids" "walk_expand we ks s = Inr (s', nx')" "nx = kids @ nx'"
      by (auto split: option.splits sum.splits prod.splits)
    with Cons.IH Cons.prems(2) assms [OF _ Inr] show ?thesis by auto
  qed
qed simp

lemma walk_turn_closed:
  assumes "walk_turn we pl minR cached frontier s = Inr (s', nx)" "set frontier \<subseteq> U"
    "\<And>k data kids. k \<in> U \<Longrightarrow> weData we k = Inr data \<Longrightarrow> weKids we k data = Some kids \<Longrightarrow> set kids \<subseteq> U"
  shows "set (wsSeen s') = set (wsSeen s) \<union> set frontier" "set nx \<subseteq> U" "set frontier \<subseteq> set (wsSeen s) \<Longrightarrow> nx = []"
proof -
  obtain s1 interior where m: "walk_mark we cached frontier s = (s1, interior)" by (cases "walk_mark we cached frontier s")
  with assms(1) obtain s2 where e: "walk_expand we interior s1 = Inr (s2, nx)" and f: "s' = s2 \<or> walk_flush we pl minR s2 = Inr s'"
    by (auto simp: walk_turn_def split: sum.splits if_splits prod.splits)
  from f have "wsSeen s' = wsSeen s2" by (auto simp: walk_flush_def Let_def split: if_splits option.splits)
  moreover have "set interior \<subseteq> U" using walk_mark_spec [OF m] assms(2) by auto
  moreover have "set nx \<subseteq> U \<and> (interior = [] \<longrightarrow> nx = [])"
    by (rule walk_expand_closed [OF assms(3) e]) (use calculation in auto)
  moreover have "set frontier \<subseteq> set (wsSeen s) \<Longrightarrow> interior = []"
    using walk_mark_spec [OF m] by (auto simp flip: set_empty)
  ultimately show "set (wsSeen s') = set (wsSeen s) \<union> set frontier" "set nx \<subseteq> U" "set frontier \<subseteq> set (wsSeen s) \<Longrightarrow> nx = []"
    using walk_expand_spec [OF e] walk_mark_spec [OF m] assms(2) by auto
qed

lemma walk_loop_returns:
  assumes "finite U" "\<And>k data kids. k \<in> U \<Longrightarrow> weData we k = Inr data \<Longrightarrow> weKids we k data = Some kids \<Longrightarrow> set kids \<subseteq> U"
  shows "set frontier \<subseteq> U \<Longrightarrow> card (U - set (wsSeen s)) + (if frontier = [] then 0 else 1) < n \<Longrightarrow>
    walk_loop n we pl minR cached frontier s \<noteq> None"
proof (induction n arbitrary: frontier s)
  case (Suc n)
  show ?case
  proof (cases "frontier = [] \<or> (\<exists>e. walk_turn we pl minR cached frontier s = Inl e)")
    case False
    then obtain s' nx where t: "walk_turn we pl minR cached frontier s = Inr (s', nx)"
      by (cases "walk_turn we pl minR cached frontier s") auto
    note closed = walk_turn_closed [OF t Suc.prems(1) assms(2)]
    have "card (U - set (wsSeen s')) + (if nx = [] then 0 else 1) < n"
    proof (cases "set frontier \<subseteq> set (wsSeen s)")
      case True
      then have "nx = []" "set (wsSeen s') = set (wsSeen s)" using closed by auto
      with Suc.prems(2) False show ?thesis by simp
    next
      case new: False
      then have "U - set (wsSeen s') \<subset> U - set (wsSeen s)" using closed(1) Suc.prems(1) by auto
      then have "card (U - set (wsSeen s')) < card (U - set (wsSeen s))" using assms(1) by (simp add: psubset_card_mono)
      with Suc.prems(2) False show ?thesis by simp
    qed
    with Suc.IH [OF closed(2)] t False show ?thesis by simp
  qed auto
qed simp


lemma walk_loop_missing_start:
  assumes "walk_loop n we pl minR cached [rt] empty_walk = Some (Inr s)" "wsMissing s = []"
  shows "wsShort s = 0"
  using walk_loop_missing [OF assms(1)] assms(2) by (simp add: empty_walk_def)

text \<open>When no owner lacks anything, nothing is short.\<close>

lemma owners_in_write_set:
  assumes "pl_ok blake3 v pl"
  shows "set (owners_of pl k) \<subseteq> set (write_set_of pl k)" "pending_of pl k = Some po \<Longrightarrow> set po \<subseteq> set (write_set_of pl k)"
  using WriteSet_ok(1) [OF assms, of k] Placement_Owners_ok(1) [OF assms, of k] PendingOwners_ok(1) [OF assms, of k]
  by (auto simp: owners_of_def pending_of_def write_set_of_def split: option.splits)

lemma none_short:
  assumes "pl_ok blake3 v pl" "weMissing we = (\<lambda>_ _. Inr [])" "k \<in> set keys"
  shows "\<not> is_short we pl minR keys k"
proof -
  have all: "confirms we pl keys k nd" if "nd \<in> set (write_set_of pl k)" for nd
    using that assms(2,3) by (auto simp: confirms_def asked_def filter_empty_conv)
  have "count_holders we pl keys k nds = int (length nds)" if "set nds \<subseteq> set (write_set_of pl k)" for nds
    using that all by (simp add: count_holders_def subset_iff filter_id_conv)
  with owners_in_write_set [OF assms(1), of k] show ?thesis by (auto simp: is_short_def split: option.splits)
qed

lemma ex_keys [simp]: "ex_root \<noteq> ex_leaf" "ex_leaf \<noteq> ex_root" "length ex_root = 32"
  by (simp_all add: ex_root_def ex_leaf_def)

lemma ex_walk_simps [simp]:
  "weMissing ex_walk = (\<lambda>_ _. Inr [])" "weData ex_walk k = Inr k" "weKids ex_walk k data = Some (if k = ex_root then [ex_leaf] else [])"
  "weLeaf ex_walk k \<longleftrightarrow> k = ex_leaf"
  by (simp_all add: ex_walk_def)

lemma ex_walk_complete:
  "walkComplete 4 ex_walk (NewPlacement (drop 24) example_view) 100 1000 1001 [] 2 ex_root =
    Some (Inr ([], 0), [(ex_root, 1001)])"
proof -
  have none: "negotiateComplete ex_walk (NewPlacement (drop 24) example_view) keys 2 = []" for keys
    using none_short [OF pl_ok_NewPlacement, of ex_walk] by (auto simp: negotiateComplete_def filter_empty_conv)
  have four: "4 = Suc (Suc (Suc (Suc 0)))" by simp
  have "walk_loop 4 ex_walk (NewPlacement (drop 24) example_view) 2 (cached_at [] (1000 - 100 div 2)) [ex_root] empty_walk =
      Some (Inr \<lparr> wsSeen = [ex_root, ex_leaf], wsToCheck = [], wsUnread = [], wsMissing = [], wsShort = 0 \<rparr>)"
    unfolding four by (simp add: walk_turn_def walk_flush_def empty_walk_def cached_at_def MaxKeys_def none)
  then show ?thesis by (simp add: walkComplete_def)
qed

lemma ex_put_simps [simp]:
  "rfDecode ex_ref_ops b = Some \<lparr> rrName = ''r'', rrKey = b, rrCreatedAt = 0, rrUser = [] \<rparr>"
  "valid_put ex_ref_ops ex_ref_msg = Some \<lparr> rrName = ''r'', rrKey = ex_root, rrCreatedAt = 0, rrUser = [] \<rparr>"
  "rmRecord ex_ref_msg = ex_root" "plView (NewPlacement blake3 v) = v" "vMinReplicas example_view = 2"
  "pcTTL (ex_put_ctx cache) = 100" "pcStart (ex_put_ctx cache) = 1000" "pcWalk (ex_put_ctx cache) = 1000" "pcFinish (ex_put_ctx cache) = 1001"
  "pcView (ex_put_ctx cache) = Some example_view" "pcRefreshed (ex_put_ctx cache) = example_view"
  "pcPlacement (ex_put_ctx cache) = NewPlacement (drop 24) example_view" "pcCache (ex_put_ctx cache) = cache"
  by (simp_all add: valid_put_def ex_ref_ops_def ex_ref_msg_def ex_put_ctx_def NewPlacement_def example_view_def)

section \<open>Properties\<close>

text \<open>
  C12: A reference is committed only over a complete tree. When a node answers a put with success,
  the request decoded to a valid record, and every key under the record's root, down to the
  subtrees that the cache vouched for at the start of the walk, was confirmed by
  \<^verbatim>\<open>min_replicas\<close> of its owners, or by all of them when there are fewer, and by as many of its owners
  in the pending view; and every object on the way that can have children was read and its
  children visited.
\<close>

theorem handleRefPut_complete:
  assumes "handleRefPut n cc env ops we deadline pc m p = Some (ReplyOK key version, hints, cache, p')"
  shows "\<exists>rec. valid_put ops m = Some rec \<and> key = Some (rrKey rec) \<and>
    (let vouched = cached_at (pcCache pc) (pcWalk pc - pcTTL pc div 2) in
     \<forall>k. under_ref we vouched (rrKey rec) k \<longrightarrow>
       replicated we (pcPlacement pc) (int (unat (vMinReplicas (plView (pcPlacement pc))))) k \<and>
       (weLeaf we k \<or> vouched k \<or> (\<exists>kids. readable we k kids)))"
proof -
  let ?minR = "int (unat (vMinReplicas (plView (pcPlacement pc))))"
  from assms obtain rec where rec: "valid_put ops m = Some rec" by (auto simp: handleRefPut_def split: option.splits)
  from assms have "\<exists>short c. walkComplete n we (pcPlacement pc) (pcTTL pc) (pcWalk pc) (pcFinish pc) (pcCache pc) ?minR (rrKey rec) =
      Some (Inr ([], short), c) \<and> key = Some (rrKey rec)"
    by (auto simp: handleRefPut_def rec catalogErr_def split: option.splits sum.splits prod.splits if_splits walk_err.splits
        perr.splits cat_err.splits)
  then obtain s where "walk_loop n we (pcPlacement pc) ?minR (cached_at (pcCache pc) (pcWalk pc - pcTTL pc div 2)) [rrKey rec] empty_walk =
      Some (Inr s)" "wsMissing s = []" "key = Some (rrKey rec)"
    by (auto simp: walkComplete_def Let_def split: option.splits sum.splits)
  with walk_done walk_loop_missing_start rec show ?thesis by (auto simp: Let_def)
qed

theorem handleRefPut_complete_witness:
  "valid_put ex_ref_ops ex_ref_msg = Some \<lparr> rrName = ''r'', rrKey = ex_root, rrCreatedAt = 0, rrUser = [] \<rparr> \<and>
    replicated ex_walk (NewPlacement (drop 24) example_view) 2 ex_root \<and>
    replicated ex_walk (NewPlacement (drop 24) example_view) 2 ex_leaf \<and> (\<exists>kids. readable ex_walk ex_root kids)"
proof -
  let ?run = "handleRefPut 4 std_cat friendly_env ex_ref_ops ex_walk False (ex_put_ctx []) ex_ref_msg (NewProposer zero_id 0 ())"
  have "map_option (isl \<circ> fst) (RefPut 4 std_cat friendly_env ''r'' ex_root (condOf ex_ref_msg) 1100 (keyOfRecord ex_ref_ops)
      (NewProposer zero_id 0 ()) :: ((unit cat_err perr, bytes) res \<times> unit proposer) option) = Some False" by code_simp
  then obtain r p where "RefPut 4 std_cat friendly_env ''r'' ex_root (condOf ex_ref_msg) 1100 (keyOfRecord ex_ref_ops)
      (NewProposer zero_id 0 ()) = Some (r :: (unit cat_err perr, bytes) res, p)" "\<not> isl r" by auto
  then obtain version where put: "RefPut 4 std_cat friendly_env ''r'' ex_root (condOf ex_ref_msg) 1100 (keyOfRecord ex_ref_ops)
      (NewProposer zero_id 0 ()) = Some (Inr version :: (unit cat_err perr, bytes) res, p)" by (cases r) auto
  have "checkEpoch (Some example_view) example_view ex_ref_msg \<noteq> EpochStale" by code_simp
  with put have run: "?run = Some (ReplyOK (Some ex_root) (Some version),
      [\<lparr> rhName = ''r'', rhRecord = Some ex_root, rhVersion = version \<rparr>], [(ex_root, 1001)], p)"
    by (simp add: handleRefPut_def ex_walk_complete)
  have none: "cached_at [] t = (\<lambda>_. False)" for t by (simp add: cached_at_def fun_eq_iff)
  have under: "under_ref ex_walk (\<lambda>_. False) ex_root ex_root" by (rule under_ref.here)
  then have below: "under_ref ex_walk (\<lambda>_. False) ex_root ex_leaf" by (rule under_ref.child [where data = ex_root and kids = "[ex_leaf]"]) simp_all
  from handleRefPut_complete [OF run]
  have "under_ref ex_walk (\<lambda>_. False) ex_root k \<Longrightarrow> replicated ex_walk (NewPlacement (drop 24) example_view) 2 k \<and>
      (k = ex_leaf \<or> (\<exists>kids. readable ex_walk k kids))" for k by (simp add: Let_def none)
  from this [OF under] this [OF below] show ?thesis by simp
qed

text \<open>
  C13: The walk ends. If a finite set of keys contains the root and the children of each of its
  members, the walk returns after at most two turns more than the set has keys, however the
  objects are shared and even if the children form a cycle.
\<close>

theorem walkComplete_returns:
  assumes "finite U" "rt \<in> U" "card U + 2 \<le> n"
    "\<And>k data kids. k \<in> U \<Longrightarrow> weData we k = Inr data \<Longrightarrow> weKids we k data = Some kids \<Longrightarrow> set kids \<subseteq> U"
  shows "walkComplete n we pl putTTL start finish cache minR rt \<noteq> None"
proof -
  have "walk_loop n we pl minR (cached_at cache (start - putTTL div 2)) [rt] empty_walk \<noteq> None"
    by (rule walk_loop_returns [OF assms(1,4)]) (use assms(2,3) in \<open>auto simp: empty_walk_def\<close>)
  then show ?thesis by (auto simp: walkComplete_def Let_def split: option.splits sum.splits)
qed

theorem walkComplete_returns_witness:
  "walkComplete 4 ex_walk (NewPlacement (drop 24) example_view) 100 1000 1001 [] 2 ex_root \<noteq> None"
  by (rule walkComplete_returns [where U = "{ex_root, ex_leaf}"])
    (auto simp: ex_walk_def card_insert_if split: if_splits)

text \<open>
  C34: An entry of the cache is renewed without a new check. If the root of a put is in the cache
  and its own record is confirmed, the walk succeeds without looking at any child, and afterwards
  the cache dates the subtree from the end of this walk, so that it is vouched for in every walk
  that starts within half a lifetime from then. Repeated puts keep a subtree in the cache for
  ever, whereas the design lets an entry expire half a lifetime after its subtree was checked and
  pinned.
\<close>

theorem cache_renewed_unchecked:
  assumes "cached_at cache (start - putTTL div 2) rt" "\<not> weLeaf we rt" "\<not> is_short we pl minR [rt] rt"
    "length (AList.update rt finish cache) \<le> 1048576" "2 \<le> n"
  shows "\<exists>cache'. walkComplete n we pl putTTL start finish cache minR rt = Some (Inr ([], 0), cache') \<and>
    (\<forall>later. later - putTTL div 2 < finish \<longrightarrow> cached_at cache' (later - putTTL div 2) rt)"
proof -
  obtain n' where n: "n = Suc (Suc n')" using assms(5) by (metis Suc_le_D numeral_2_eq_2 Suc_le_mono)
  have "walk_loop n we pl minR (cached_at cache (start - putTTL div 2)) [rt] empty_walk =
      Some (Inr \<lparr> wsSeen = [rt], wsToCheck = [], wsUnread = [], wsMissing = [], wsShort = 0 \<rparr>)"
    using assms(1,3) by (simp add: n walk_turn_def walk_flush_def negotiateComplete_def empty_walk_def MaxKeys_def)
  with assms(2,4) show ?thesis by (simp add: walkComplete_def cached_at_def update_conv)
qed

theorem cache_renewed_unchecked_witness:
  "\<exists>cache'. walkComplete 2 (ex_walk\<lparr>weData := \<lambda>_. Inl True\<rparr>) (NewPlacement (drop 24) example_view) 100 1000 1001 [(ex_root, 960)] 2 ex_root =
       Some (Inr ([], 0), cache') \<and>
    cached_at cache' (1050 - 100 div 2) ex_root"
proof -
  have confirmed: "\<not> is_short (ex_walk\<lparr>weData := \<lambda>_. Inl True\<rparr>) (NewPlacement (drop 24) example_view) 2 [ex_root] ex_root"
    by (rule none_short [OF pl_ok_NewPlacement]) simp_all
  have "cached_at [(ex_root, 960)] (1000 - 100 div 2) ex_root" "\<not> weLeaf (ex_walk\<lparr>weData := \<lambda>_. Inl True\<rparr>) ex_root"
    "length (AList.update ex_root 1001 [(ex_root, 960 :: int)]) \<le> 1048576" by (simp_all add: cached_at_def)
  from cache_renewed_unchecked [OF this(1,2) confirmed this(3) order_refl] obtain cache' where
    run: "walkComplete 2 (ex_walk\<lparr>weData := \<lambda>_. Inl True\<rparr>) (NewPlacement (drop 24) example_view) 100 1000 1001 [(ex_root, 960)] 2 ex_root =
       Some (Inr ([], 0), cache')" and later: "\<forall>later. later - 100 div 2 < 1001 \<longrightarrow> cached_at cache' (later - 100 div 2) ex_root"
    by blast
  from later have "cached_at cache' (1050 - 100 div 2) ex_root" by (elim allE [of _ 1050]) simp
  with run show ?thesis by blast
qed

end
