(* ===== verification/Spec2Isabelle.thy ===== *)
theory Spec2Isabelle
  imports Consensus_Props Proposer_Props Node_Ballots Catalog_Props Changes_Props Client Ticket Refglob Node_Refs_Props
begin

text \<open>
  A verification of dstore, a distributed content-addressed store. Objects are placed on nodes by
  weighted rendezvous hashing over the cluster view. The view itself, the references to trees, the
  maintenance lease, join tokens and the state of the garbage collector are registers of a catalog,
  each decided by CASPaxos among the voters of the view. A client puts the objects of a tree on
  their owners and then asks a node to move a reference; the node walks the tree, asks the owners
  for every key, and commits the reference only if enough of them hold it. Files and functions are
  named as under \<^verbatim>\<open>src\<close>.

  \<^bold>\<open>Parts and theories.\<close>

  \<^item> \<open>Prelude\<close>: base types, big-endian numbers, Go's comparisons and sorts (locales
    \<open>strict_weak_order\<close> and \<open>strict_key_order\<close>), and codecs with the round trip \<open>codec_ok\<close>.
    \<open>Codec\<close>: a family of concrete codecs (locale \<open>pickling\<close>), which shows that every hypothesis
    \<open>codec_ok\<close> can hold. \<open>Store\<close>: the ordered key-value store (locale \<open>kv_store\<close>, interpreted on
    sorted association lists).
  \<^item> \<open>Placement\<close>, \<open>Placement_Log\<close>, \<open>Placement_Rank\<close>: \<^verbatim>\<open>placement/placement.go\<close>. The score is on 64-bit
    words; the error of the fixed-point logarithm is bounded, a ranking loses only the node that
    left, and owners are chosen greedily by zones.
  \<^item> \<open>View\<close>: \<^verbatim>\<open>view/view.go\<close>; \<open>Wire\<close>: the frames and catalog messages of \<^verbatim>\<open>wire/wire.go\<close>; \<open>Ballot\<close>:
    \<^verbatim>\<open>paxos/ballot.go\<close>.
  \<^item> \<open>Acceptor\<close>, \<open>Acceptor_Inv\<close>, \<open>Acceptor_Props\<close>: \<^verbatim>\<open>paxos/acceptor.go\<close>. \<open>Handle\<close> is the handler of one
    message; \<open>acc_reach\<close> are the states after messages, failed writes and restarts.
  \<^item> \<open>Proposer\<close>, \<open>Proposer_Props\<close>: \<^verbatim>\<open>paxos/proposer.go\<close>. Transport, views, ballots, contexts and clocks
    are the operations of a record \<open>penv\<close> over an arbitrary world.
  \<^item> \<open>Consensus\<close>, \<open>Consensus_Props\<close>: acceptors and proposers together, as a step relation over the
    acceptors and the history of exchanges.
  \<^item> \<open>Meta\<close>, \<open>Node_Ballots\<close>: \<^verbatim>\<open>meta/meta.go\<close> and the counters of \<^verbatim>\<open>node/node.go\<close> (locale
    \<open>ballot_source\<close>).
  \<^item> \<open>Catalog\<close>, \<open>Catalog_Props\<close>: \<^verbatim>\<open>catalog/catalog.go\<close>; the closures given to \<^verbatim>\<open>Propose\<close> are definitions
    of their own, such as \<open>refput_fn\<close>.
  \<^item> \<open>Node_Refs\<close>, \<open>Node_Refs_Props\<close>: \<^verbatim>\<open>node/refs.go\<close> and \<^verbatim>\<open>checkEpoch\<close> of \<^verbatim>\<open>node/server.go\<close>. What a walk
    learns from other nodes and from the core library are the operations of \<open>walk_env\<close>.
  \<^item> \<open>Changes\<close>, \<open>Changes_Props\<close>: \<^verbatim>\<open>worktree/change.go\<close>, \<^verbatim>\<open>worktree/merge.go\<close> and \<^verbatim>\<open>checkPath\<close> of
    \<^verbatim>\<open>worktree/apply.go\<close>. \<open>Client\<close>: batches, the order of owners and read routing of \<^verbatim>\<open>client\<close>.
    \<open>Ticket\<close>: \<^verbatim>\<open>ticket/ticket.go\<close> and \<^verbatim>\<open>cmd/dstore/size.go\<close>. \<open>Refglob\<close>: \<^verbatim>\<open>refglob/refglob.go\<close>.

  \<^bold>\<open>What the theorems show.\<close> For a register: a chosen ballot is an ancestor of every later proposal,
  a fast read returns a chosen row, a reported commit was accepted by a quorum, and a quorum of live
  voters can decide. For one acceptor: promises do not fall unless a seed or a retirement comes in,
  a restart recovers exactly what can be read, and the answers to prepare and accept are
  characterised exactly. Ballot counters are not handed out twice while the stored counter can be
  read. A majority scan is merged to one row per register, marked undecided exactly when the replies
  leave it open. The
  change functions of the catalog refine a compare-and-set cell, keep the lease exclusive and write
  views that acceptors install. A reference is committed only over a tree whose keys were confirmed
  by enough owners, and the walk that finds this out ends. Differences of trees are exact, a merge
  applies exactly the incoming changes that its rules call safe and those that a harmless local
  change at the same path masks, owners are ranked by the documented preference, globs mean what their description says, and
  frames, ballots and tickets round trip. Some theorems state where the code departs from its
  comments or its design: an acceptor without its state still accepts, a failed read restarts the
  ballot counter, a failed read when an acceptor opens loses its view, marker, floor or retirement, a
  metadata change makes a merge retype a directory over local work, a stream cut after a frame
  header looks like its end, the cache of complete trees renews itself, a seed
  goes below a floor, a scan misses some registers, and the logarithm is not the floor.

  \<^bold>\<open>Bounds and fuel.\<close> Loops that call the network take a number of turns as fuel and return \<open>None\<close>
  when it runs out: \<open>Propose\<close>, \<open>Read\<close>, \<open>Scan\<close> and the pages of a snapshot can retry for ever
  against an adverse network, so their theorems speak of runs that return. \<open>walkComplete\<close> takes
  fuel too, and \<open>walkComplete_returns\<close> says how much is enough. \<open>ballotAbove\<close> is a partial function,
  which \<open>ballotAbove_returns\<close> shows to return on the counters of a node. All other
  recursion is structural or has a termination proof. Counters and epochs are 64-bit words, with their
  wrap-around; times, which are 64-bit nanoseconds in the source, are unbounded integers.

  \<^bold>\<open>Assumptions.\<close> BLAKE3, CBOR, the parser of endpoint ids and the core library (object trees,
  reference records) are parameters. A request to an acceptor is one step of the model; the
  source gives up the acceptor's mutex between the epoch gate, the check for a retired or amnesiac
  acceptor and the update of the row, so that an install can come in between, which is not covered.
  Acceptors that are opened can read their database, except in \<open>Acceptor_recovery\<close>, which says what
  is lost otherwise. Replies of parallel calls are taken in the order they arrive, and the calls of
  a round end before it is evaluated; calls that are still under way in a later phase are not
  covered. \<^verbatim>\<open>sort.Slice\<close> is taken to be stable, which matters only for members with equal ids. A
  completeness walk looks at the cache as it is when the walk starts. The consensus
  model fixes one view; installs that retire an acceptor, seeds and purges are outside of it and
  are treated for one acceptor only.

  \<^bold>\<open>Not modelled.\<close> Garbage collection (\<^verbatim>\<open>node/gc.go\<close>), reconciliation (\<^verbatim>\<open>node/reconcile.go\<close>) and object
  requests (\<^verbatim>\<open>node/data.go\<close>, \<^verbatim>\<open>node/put.go\<close>) work on the pack store of the core library, which is not
  in the repository, through goroutines and timers. Maintenance and joining
  (\<^verbatim>\<open>node/maintenance.go\<close>, \<^verbatim>\<open>node/join.go\<close>) are timed loops whose effects go through the modelled catalog.
  Watch streams (\<^verbatim>\<open>node/watch.go\<close>, \<^verbatim>\<open>client/watch.go\<close>), the rest of the client, the transport, the file
  system side of \<^verbatim>\<open>worktree\<close>, administration, status and the command line are input and output around
  these parts. The garbage collector's protection of objects by pins is therefore not proved here.
\<close>

end
